(* ===== verification/Prelude.thy ===== *)
theory Prelude
  imports Main "HOL-Library.Word"
begin

text \<open>
  Shared vocabulary of the development: the C++ types and the pieces of the standard library
  that several components use, with the lemmas that carry their proofs.

  \<^item> \<open>std::string\<close> and \<open>std::vector<char>\<close> are both \<open>bytes\<close>, a list of \<open>char\<close> (8-bit values).
  \<^item> \<open>std::uint32_t\<close> and \<open>std::uint64_t\<close> are words of that width; \<open>TokenId\<close> (\<open>std::int32_t\<close>)
    is a 32-bit word, read with \<open>sint\<close> where the code compares it with an integer.
  \<^item> \<open>std::size_t\<close> counts things that are in memory and is \<open>nat\<close>.
  \<^item> \<open>int\<close> and \<open>long\<close> values are \<open>int\<close>, with the range checks of \<open>std::stoi\<close> and friends
    written out.
\<close>

unbundle bit_operations_syntax

named_theorems reame_simps \<open>functional equations of the model that proofs unfold together\<close>
named_theorems reame_inv \<open>preservation lemmas: every operation keeps its component's invariant\<close>

type_synonym bytes = string
type_synonym u32 = "32 word"
type_synonym u64 = "64 word"
type_synonym TokenId = "32 word"
type_synonym tokens = "TokenId list"

section \<open>Character classes (the C locale)\<close>

definition crlf :: bytes where
  "crlf = [CHR 0x0D, CHR 0x0A]"

lemma crlf_simps [simp]: "length crlf = 2" "crlf \<noteq> []" "hd crlf = CHR 0x0D"
  by (simp_all add: crlf_def)

abbreviation (input) quoted :: "bytes \<Rightarrow> bytes" where
  "quoted s \<equiv> [CHR 0x27] @ s @ [CHR 0x27]"

definition isdigit :: "char \<Rightarrow> bool" where
  "isdigit c \<longleftrightarrow> 48 \<le> (of_char c :: nat) \<and> (of_char c :: nat) \<le> 57"

definition isupper :: "char \<Rightarrow> bool" where
  "isupper c \<longleftrightarrow> 65 \<le> (of_char c :: nat) \<and> (of_char c :: nat) \<le> 90"

definition islower :: "char \<Rightarrow> bool" where
  "islower c \<longleftrightarrow> 97 \<le> (of_char c :: nat) \<and> (of_char c :: nat) \<le> 122"

definition isalnum :: "char \<Rightarrow> bool" where
  "isalnum c \<longleftrightarrow> isdigit c \<or> isupper c \<or> islower c"

definition isspace :: "char \<Rightarrow> bool" where
  "isspace c \<longleftrightarrow> of_char c = (32 :: nat) \<or> (9 \<le> (of_char c :: nat) \<and> (of_char c :: nat) \<le> 13)"

definition tolower :: "char \<Rightarrow> char" where
  "tolower c = (if isupper c then char_of ((of_char c :: nat) + 32) else c)"

definition toupper :: "char \<Rightarrow> char" where
  "toupper c = (if islower c then char_of ((of_char c :: nat) - 32) else c)"

lemma of_char_inject_nat: "(of_char c :: nat) = of_char d \<longleftrightarrow> c = d"
  by simp

lemma of_char_lt_256 [simp]: "(of_char c :: nat) < 256"
  using nat_of_char_less_256 [of c] by simp

lemma tolower_idem [simp]: "tolower (tolower c) = tolower c"
  by (simp add: tolower_def isupper_def)

lemma toupper_idem [simp]: "toupper (toupper c) = toupper c"
  by (auto simp: toupper_def islower_def)

section \<open>Partial maps\<close>

lemma map_le_iff: "m \<subseteq>\<^sub>m n \<longleftrightarrow> (\<forall>k v. m k = Some v \<longrightarrow> n k = Some v)"
  by (force simp: map_le_def dom_def)

lemma map_leD: "m \<subseteq>\<^sub>m n \<Longrightarrow> m k = Some v \<Longrightarrow> n k = Some v"
  by (simp add: map_le_iff)

section \<open>\<open>std::string\<close> searching and slicing\<close>

fun find_sub :: "bytes \<Rightarrow> bytes \<Rightarrow> nat option" where
  "find_sub pat [] = (if pat = [] then Some 0 else None)"
| "find_sub pat (c # cs) =
     (if take (length pat) (c # cs) = pat then Some 0 else map_option Suc (find_sub pat cs))"

text \<open>\<open>s.find(pat, pos)\<close>: \<open>None\<close> is \<open>npos\<close>.\<close>

definition str_find :: "bytes \<Rightarrow> bytes \<Rightarrow> nat \<Rightarrow> nat option" where
  "str_find s pat pos =
     (if pos \<le> length s then map_option ((+) pos) (find_sub pat (drop pos s)) else None)"

text \<open>\<open>s.substr(pos, n)\<close> for a position inside the string.\<close>

definition substr :: "bytes \<Rightarrow> nat \<Rightarrow> nat \<Rightarrow> bytes" where
  "substr s pos n = take n (drop pos s)"

lemma find_sub_Some:
  "find_sub pat s = Some i \<Longrightarrow> i + length pat \<le> length s \<and> take (length pat) (drop i s) = pat"
proof (induction s arbitrary: i)
  case Nil
  then show ?case by (simp split: if_splits)
next
  case (Cons c cs)
  show ?case
  proof (cases "take (length pat) (c # cs) = pat")
    case True
    then have "length pat \<le> length (c # cs)" by (metis length_take min.cobounded1)
    with True Cons.prems show ?thesis by simp
  next
    case False
    with Cons.prems obtain j where "find_sub pat cs = Some j" "i = Suc j"
      by (auto simp del: take_Suc_Cons)
    with Cons.IH show ?thesis by auto
  qed
qed

lemma find_sub_append_Some:
  "find_sub pat s = Some i \<Longrightarrow> find_sub pat (s @ t) = Some i"
proof (induction s arbitrary: i)
  case Nil
  then show ?case by (cases t) (auto split: if_splits)
next
  case (Cons c cs)
  show ?case
  proof (cases "take (length pat) (c # cs) = pat")
    case True
    then have len: "length pat \<le> length (c # cs)" by (metis length_take min.cobounded1)
    have "take (length pat) ((c # cs) @ t) = pat"
      using True len by (simp del: append_Cons take_Suc_Cons)
    with True Cons.prems show ?thesis by simp
  next
    case False
    with Cons.prems obtain j where j: "find_sub pat cs = Some j" "i = Suc j"
      by (auto simp del: take_Suc_Cons)
    from find_sub_Some [OF j(1)] have "length pat \<le> length (c # cs)" by simp
    then have "take (length pat) ((c # cs) @ t) = take (length pat) (c # cs)"
      by (simp del: append_Cons take_Suc_Cons)
    with False Cons.IH [OF j(1)] j(2) show ?thesis by simp
  qed
qed

lemma str_find_append_Some:
  "str_find s pat pos = Some i \<Longrightarrow> str_find (s @ t) pat pos = Some i"
  by (auto simp: str_find_def find_sub_append_Some split: if_splits)

lemma str_find_Some:
  "str_find s pat pos = Some i \<Longrightarrow>
    pos \<le> i \<and> i + length pat \<le> length s \<and> take (length pat) (drop i s) = pat"
  by (auto simp: str_find_def split: if_splits dest!: find_sub_Some) (simp add: add.commute)

text \<open>A marker that cannot start inside the text before it is found right after that text.\<close>

lemma find_sub_after:
  assumes "pat \<noteq> []" and "hd pat \<notin> set s"
  shows "find_sub pat (s @ pat @ t) = Some (length s)"
  using assms(2)
proof (induction s)
  case Nil
  show ?case using assms(1) by (cases pat) auto
next
  case (Cons c cs)
  then have "take (length pat) (c # cs @ pat @ t) \<noteq> pat"
    using assms(1) by (cases pat) auto
  with Cons show ?case by simp
qed

section \<open>Decimal numbers\<close>

fun string_of_nat :: "nat \<Rightarrow> bytes" where
  "string_of_nat n =
     (if n < 10 then [char_of (48 + n)]
      else string_of_nat (n div 10) @ [char_of (48 + n mod 10)])"

declare string_of_nat.simps [simp del]

definition string_of_int :: "int \<Rightarrow> bytes" where
  "string_of_int i = (if i < 0 then CHR ''-'' # string_of_nat (nat (- i)) else string_of_nat (nat i))"

definition nat_of_digits :: "bytes \<Rightarrow> nat" where
  "nat_of_digits s = foldl (\<lambda>a c. a * 10 + (of_char c - 48)) 0 s"

lemma of_char_digit: "d < 10 \<Longrightarrow> of_char (char_of (48 + d :: nat)) = (48 + d :: nat)"
  by simp

lemma isdigit_digit: "d < 10 \<Longrightarrow> isdigit (char_of (48 + d :: nat))"
  by (simp add: isdigit_def)

lemma nat_of_digits_string_of_nat [simp]: "nat_of_digits (string_of_nat n) = n"
proof (induction n rule: string_of_nat.induct)
  case (1 n)
  show ?case
  proof (cases "n < 10")
    case True
    then show ?thesis by (simp add: string_of_nat.simps [of n] nat_of_digits_def)
  next
    case False
    with 1 have "nat_of_digits (string_of_nat (n div 10)) = n div 10" by simp
    then show ?thesis
      using False by (simp add: string_of_nat.simps [of n] nat_of_digits_def)
  qed
qed

lemma string_of_nat_digits: "list_all isdigit (string_of_nat n)"
proof (induction n rule: string_of_nat.induct)
  case (1 n)
  then show ?case
    by (cases "n < 10") (simp_all add: string_of_nat.simps [of n] isdigit_digit)
qed

lemma string_of_nat_nonempty [simp]: "string_of_nat n \<noteq> []"
  by (simp add: string_of_nat.simps [of n])

lemma string_of_nat_inject [simp]: "string_of_nat m = string_of_nat n \<longleftrightarrow> m = n"
  by (metis nat_of_digits_string_of_nat)

lemma isdigit_string_of_nat: "c \<in> set (string_of_nat n) \<Longrightarrow> isdigit c"
  using string_of_nat_digits [of n] by (auto simp: list_all_iff)

lemma not_digit_not_in_string_of_nat: "\<not> isdigit c \<Longrightarrow> c \<notin> set (string_of_nat n)"
  using isdigit_string_of_nat by blast

text \<open>
  \<open>std::stol\<close> and its relatives: leading white space is skipped, one sign is read, then the
  longest run of digits; no digit at all is \<open>std::invalid_argument\<close>, a value outside the
  result type is \<open>std::out_of_range\<close>. The result also carries the rest of the text, which
  \<open>std::stoll(raw, &pos)\<close> reports through \<open>pos\<close>.
\<close>

datatype num_error = Invalid_argument | Out_of_range

definition std_sto :: "int \<Rightarrow> int \<Rightarrow> bytes \<Rightarrow> num_error + int \<times> bytes" where
  "std_sto lo hi s =
     (let t = dropWhile isspace s;
          neg = (t \<noteq> [] \<and> hd t = CHR ''-'');
          u = (if t \<noteq> [] \<and> (hd t = CHR ''-'' \<or> hd t = CHR ''+'') then tl t else t);
          ds = takeWhile isdigit u;
          v = (if neg then - int (nat_of_digits ds) else int (nat_of_digits ds))
      in if ds = [] then Inl Invalid_argument
         else if v < lo \<or> hi < v then Inl Out_of_range
         else Inr (v, dropWhile isdigit u))"

abbreviation INT_MIN :: int where "INT_MIN \<equiv> - 2147483648"
abbreviation INT_MAX :: int where "INT_MAX \<equiv> 2147483647"
abbreviation LONG_MIN :: int where "LONG_MIN \<equiv> - 9223372036854775808"
abbreviation LONG_MAX :: int where "LONG_MAX \<equiv> 9223372036854775807"

definition std_stoi :: "bytes \<Rightarrow> num_error + int" where
  "std_stoi s = map_sum id fst (std_sto INT_MIN INT_MAX s)"

definition std_stol :: "bytes \<Rightarrow> num_error + int" where
  "std_stol s = map_sum id fst (std_sto LONG_MIN LONG_MAX s)"

lemma not_isspace_digit: "isdigit c \<Longrightarrow> \<not> isspace c"
  by (auto simp: isdigit_def isspace_def)

lemma isdigit_simps [simp]:
  "\<not> isdigit CHR ''-''" "\<not> isdigit CHR ''+''" "\<not> isdigit CHR 0x0D" "\<not> isdigit CHR 0x0A"
  by (simp_all add: isdigit_def)

lemma std_sto_digits:
  assumes "list_all isdigit ds" and "ds \<noteq> []" and "lo \<le> 0" and "int (nat_of_digits ds) \<le> hi"
  shows "std_sto lo hi ds = Inr (int (nat_of_digits ds), [])"
proof -
  obtain c cs where ds: "ds = c # cs" using assms(2) by (cases ds) auto
  have c: "isdigit c" using assms(1) ds by simp
  then have nsp: "dropWhile isspace ds = ds" using ds by (simp add: not_isspace_digit)
  have ns: "c \<noteq> CHR ''-''" "c \<noteq> CHR ''+''" using c by auto
  have tw: "takeWhile isdigit ds = ds" "dropWhile isdigit ds = []"
    using assms(1) by (auto simp: list_all_iff)
  show ?thesis
    unfolding std_sto_def Let_def nsp
    using ns assms(3,4) tw by (simp add: ds)
qed

lemma std_stol_string_of_nat: "int n \<le> LONG_MAX \<Longrightarrow> std_stol (string_of_nat n) = Inr (int n)"
  by (simp add: std_stol_def std_sto_digits string_of_nat_digits)

section \<open>Little-endian words\<close>

text \<open>\<open>static_cast<char>((v >> (8 * i)) & 0xFF)\<close> for \<open>i = 0 .. n - 1\<close>.\<close>

definition byte_of :: "'a::len word \<Rightarrow> nat \<Rightarrow> char" where
  "byte_of v i = char_of (unat (drop_bit (8 * i) v AND 0xFF))"

definition le_bytes :: "nat \<Rightarrow> 'a::len word \<Rightarrow> bytes" where
  "le_bytes n v = map (byte_of v) [0..<n]"

text \<open>\<open>v = (v << 8) | p[i]\<close> from the last byte down to the first.\<close>

definition read_le :: "bytes \<Rightarrow> 'a::len word" where
  "read_le p = foldr (\<lambda>c v. push_bit 8 v OR word_of_nat (of_char c)) p 0"

lemma length_le_bytes [simp]: "length (le_bytes n v) = n"
  by (simp add: le_bytes_def)

lemma le_bytes_Suc: "le_bytes (Suc n) v = byte_of v 0 # le_bytes n (drop_bit 8 v)"
  unfolding le_bytes_def upt_conv_Cons [OF zero_less_Suc] map_Suc_upt [symmetric] list.map map_map
  by (auto simp: byte_of_def add.commute intro!: map_cong)

lemma of_char_byte_of: "(of_char (byte_of v i) :: nat) = unat (drop_bit (8 * i) v AND 0xFF)"
proof -
  have "unat (drop_bit (8 * i) v AND 0xFF) \<le> unat (0xFF :: 'a word)"
    by (rule word_and_le1 [THEN word_le_nat_alt [THEN iffD1]])
  also have "unat (0xFF :: 'a word) \<le> 255"
    using unat_of_nat [of 255, where 'a = 'a] by (metis mod_less_eq_dividend of_nat_numeral)
  finally show ?thesis by (simp add: byte_of_def)
qed

lemma read_le_le_bytes: "read_le (le_bytes n v) = take_bit (8 * n) (v :: 'a::len word)"
proof (induction n arbitrary: v)
  case 0
  then show ?case by (simp add: le_bytes_def read_le_def)
next
  case (Suc n)
  have "read_le (le_bytes (Suc n) v) = push_bit 8 (take_bit (8 * n) (drop_bit 8 v)) OR (v AND 0xFF)"
    using Suc by (simp add: le_bytes_Suc read_le_def of_char_byte_of)
  also have "\<dots> = take_bit (8 * Suc n) v"
  proof (rule bit_word_eqI)
    fix k assume "k < LENGTH('a)"
    have "bit (0xFF :: 'a word) k \<longleftrightarrow> k < 8 \<and> k < LENGTH('a)"
    proof -
      have m: "(0xFF :: 'a word) = mask 8" by (simp add: mask_eq_exp_minus_1)
      show ?thesis unfolding m bit_mask_iff by auto
    qed
    then show "bit (push_bit 8 (take_bit (8 * n) (drop_bit 8 v)) OR (v AND 0xFF)) k
        = bit (take_bit (8 * Suc n) v) k"
      using \<open>k < LENGTH('a)\<close>
      by (auto simp: bit_simps dest: bit_imp_le_length)
  qed
  finally show ?case .
qed

lemma take_bit_full [simp]: "take_bit 32 (v :: 32 word) = v"
  by (rule take_bit_word_eq_self) simp

lemma read_le_u32 [simp]: "read_le (le_bytes 4 (v :: u32)) = v"
  by (simp add: read_le_le_bytes)

end
