(* ===== verification/Text_Utils.thy ===== *)
theory Text_Utils
  imports Prelude
begin

text \<open>
  The pieces of \<open>std::string\<close> and \<open><cstdlib>\<close> that the server, the configuration file and the
  command line share: trimming, lower-casing, \<open>strtoull\<close>, and reading a text line by line.
\<close>

section \<open>Evaluating character classes\<close>

text \<open>Code equations over \<open>int\<close>, whose numerals the kernel evaluates in binary.\<close>

lemma of_char_int: "(of_char c :: int) = int (of_char c)"
  by (simp only: of_nat_of_char)

lemma char_class_code [code]:
  "isdigit c \<longleftrightarrow> 48 \<le> (of_char c :: int) \<and> (of_char c :: int) \<le> 57"
  "isupper c \<longleftrightarrow> 65 \<le> (of_char c :: int) \<and> (of_char c :: int) \<le> 90"
  "isspace c \<longleftrightarrow> of_char c = (32 :: int) \<or> (9 \<le> (of_char c :: int) \<and> (of_char c :: int) \<le> 13)"
  unfolding of_char_int isdigit_def isupper_def isspace_def by linarith+

lemma tolower_code [code]: "tolower c = (if isupper c then char_of ((of_char c :: int) + 32) else c)"
proof -
  have "char_of (int (of_char c) + 32) = (char_of (of_char c + 32 :: nat) :: char)"
    by (metis char_of_nat of_nat_add of_nat_numeral)
  then show ?thesis unfolding tolower_def of_char_int by simp
qed

section \<open>Trimming\<close>

fun find_first_not_of :: "char list \<Rightarrow> bytes \<Rightarrow> nat option" where
  "find_first_not_of ws [] = None"
| "find_first_not_of ws (c # cs) =
     (if c \<in> set ws then map_option Suc (find_first_not_of ws cs) else Some 0)"

definition find_last_not_of :: "char list \<Rightarrow> bytes \<Rightarrow> nat option" where
  "find_last_not_of ws s = map_option (\<lambda>i. length s - 1 - i) (find_first_not_of ws (rev s))"

definition trim_set :: "char list \<Rightarrow> bytes \<Rightarrow> bytes" where
  "trim_set ws s =
     (case (find_first_not_of ws s, find_last_not_of ws s) of
        (Some b, Some e) \<Rightarrow> substr s b (e - b + 1)
      | _ \<Rightarrow> [])"

lemma find_first_not_of_dropWhile:
  "find_first_not_of ws s =
     (let d = dropWhile (\<lambda>c. c \<in> set ws) s in if d = [] then None else Some (length s - length d))"
proof (induction s)
  case (Cons c cs)
  have "length (dropWhile (\<lambda>c. c \<in> set ws) cs) \<le> length cs"
    by (rule length_dropWhile_le)
  with Cons show ?case by (auto simp: Let_def Suc_diff_le)
qed simp

lemma drop_dropWhile: "drop (length s - length (dropWhile P s)) s = dropWhile P s"
  by (metis append_eq_conv_conj diff_diff_cancel length_append length_dropWhile_le
      length_takeWhile_le takeWhile_dropWhile_id add_diff_cancel_right')

lemma dropWhile_rev_comm:
  "dropWhile P s \<noteq> [] \<Longrightarrow>
     rev (dropWhile P (rev (dropWhile P s))) =
       drop (length s - length (dropWhile P s)) (rev (dropWhile P (rev s)))"
proof (induction s)
  case (Cons c cs)
  show ?case
  proof (cases "P c")
    case True
    with Cons.prems have ne: "dropWhile P cs \<noteq> []" by simp
    then have ne': "dropWhile P (rev cs) \<noteq> []" by simp
    have "length (dropWhile P cs) \<le> length cs" by (rule length_dropWhile_le)
    have "\<not> Ball (set cs) P" using ne by simp
    with \<open>length (dropWhile P cs) \<le> length cs\<close> True ne ne' Cons.IH show ?thesis
      by (auto simp: dropWhile_append Suc_diff_le)
  next
    case False
    then show ?thesis by simp
  qed
qed simp

lemma trim_set_dropWhile:
  "trim_set ws s = rev (dropWhile (\<lambda>c. c \<in> set ws) (rev (dropWhile (\<lambda>c. c \<in> set ws) s)))"
  (is "_ = rev (?d (rev (?d s)))")
proof (cases "?d s = []")
  case True
  moreover from True have "find_first_not_of ws s = None"
    unfolding find_first_not_of_dropWhile Let_def by (rule if_P)
  ultimately show ?thesis by (simp only: trim_set_def) simp
next
  case False
  then have ne: "?d (rev s) \<noteq> []" by simp
  let ?b = "length s - length (?d s)" and ?e = "length (?d (rev s)) - 1"
  have le: "length (?d (rev s)) \<le> length s" "length (?d s) \<le> length s"
    using length_dropWhile_le [of "\<lambda>c. c \<in> set ws" "rev s"]
      length_dropWhile_le [of "\<lambda>c. c \<in> set ws" s] by simp_all
  have pos: "0 < length (?d (rev s))" using ne by (rule length_greater_0_conv [THEN iffD2])
  have "hd (?d s) \<notin> set ws" "hd (?d s) \<in> set (?d s)" using False hd_dropWhile hd_in_set by metis+
  then have "?d (rev (?d s)) \<noteq> []" unfolding dropWhile_eq_Nil_conv by (metis set_rev)
  then have "rev (?d (rev (?d s))) \<noteq> []" by (simp only: rev_is_Nil_conv not_False_eq_True)
  then have b: "?b < length (?d (rev s))"
    unfolding dropWhile_rev_comm [OF False] by simp
  have e: "length s - 1 - (length s - length (?d (rev s))) = ?e" using le pos by arith
  have f: "find_first_not_of ws s = Some ?b"
    unfolding find_first_not_of_dropWhile Let_def using False by (rule if_not_P)
  have "find_first_not_of ws (rev s) = Some (length s - length (?d (rev s)))"
    unfolding find_first_not_of_dropWhile Let_def using ne by (simp only: if_not_P length_rev if_False)
  then have "find_last_not_of ws s = Some ?e" by (simp only: find_last_not_of_def option.map e)
  with f have "trim_set ws s = substr s ?b (?e - ?b + 1)"
    by (simp only: trim_set_def prod.case option.case)
  also have "?e - ?b + 1 = length (?d (rev s)) - ?b" using b pos by arith
  also have "substr s ?b \<dots> = drop ?b (take (length (?d (rev s))) s)"
    by (simp add: substr_def drop_take)
  also have "take (length (?d (rev s))) s = rev (?d (rev s))"
    using drop_dropWhile [of "rev s" "\<lambda>c. c \<in> set ws"] le
    by (metis diff_diff_cancel length_rev rev_rev_ident rev_take take_rev)
  finally show ?thesis using dropWhile_rev_comm [OF False] by simp
qed

lemma trim_set_id:
  assumes "s = [] \<or> (hd s \<notin> set ws \<and> last s \<notin> set ws)"
  shows "trim_set ws s = s"
proof (cases s)
  case Nil
  then show ?thesis by (simp add: trim_set_dropWhile)
next
  case (Cons c cs)
  then have "dropWhile (\<lambda>c. c \<in> set ws) s = s" using assms by simp
  moreover have "dropWhile (\<lambda>c. c \<in> set ws) (rev s) = rev s"
    using assms Cons by (metis dropWhile_eq_self_iff hd_rev list.distinct(1))
  ultimately show ?thesis by (simp add: trim_set_dropWhile)
qed

lemma trim_set_Cons [simp]: "c \<in> set ws \<Longrightarrow> trim_set ws (c # s) = trim_set ws s"
  by (simp add: trim_set_dropWhile)

lemma trim_set_ends:
  assumes "trim_set ws s = t" "t \<noteq> []"
  shows "hd t \<notin> set ws \<and> last t \<notin> set ws"
proof -
  let ?d = "dropWhile (\<lambda>c. c \<in> set ws)"
  have t: "t = rev (?d (rev (?d s)))" using assms by (simp add: trim_set_dropWhile)
  have "hd (?d (rev (?d s))) \<notin> set ws" using assms t hd_dropWhile by (metis rev.simps(1))
  moreover have "\<exists>u. ?d s = t @ u"
    unfolding t by (metis rev_append rev_rev_ident takeWhile_dropWhile_id)
  then obtain u where u: "?d s = t @ u" by blast
  have "t @ u \<noteq> []" "hd (t @ u) = hd t" using assms(2) by simp_all
  then have "hd t \<notin> set ws" using hd_dropWhile u by metis
  ultimately show ?thesis using t by (metis hd_rev rev_rev_ident)
qed

lemma set_trim_set: "set (trim_set ws s) \<subseteq> set s"
  by (auto simp: trim_set_dropWhile dest!: set_dropWhileD)

lemma trim_set_idem [simp]: "trim_set ws (trim_set ws s) = trim_set ws s"
  using trim_set_ends [OF refl] by (intro trim_set_id) blast

lemma trim_set_append:
  assumes "set w \<subseteq> set ws"
  shows "trim_set ws (s @ w) = trim_set ws s"
proof (cases "\<forall>x \<in> set s. x \<in> set ws")
  case True
  then have "dropWhile (\<lambda>c. c \<in> set ws) (s @ w) = []" "dropWhile (\<lambda>c. c \<in> set ws) s = []"
    using assms by auto
  then show ?thesis unfolding trim_set_dropWhile by (simp only: rev.simps dropWhile.simps)
next
  case False
  then have "dropWhile (\<lambda>c. c \<in> set ws) (s @ w) = dropWhile (\<lambda>c. c \<in> set ws) s @ w"
    by (auto simp: dropWhile_append)
  moreover have "dropWhile (\<lambda>c. c \<in> set ws) (rev w @ x) = dropWhile (\<lambda>c. c \<in> set ws) x" for x
    using assms by (auto simp: dropWhile_append)
  ultimately show ?thesis unfolding trim_set_dropWhile by (simp only: rev_append)
qed

section \<open>Lower case\<close>

definition lower :: "bytes \<Rightarrow> bytes" where
  "lower s = map tolower s"

lemma lower_simps [simp]:
  "lower [] = []" "lower (c # s) = tolower c # lower s" "lower (s @ t) = lower s @ lower t"
  "lower (lower s) = lower s" "length (lower s) = length s"
  by (simp_all add: lower_def)

section \<open>\<open>strtoull\<close> with base 10\<close>

text \<open>
  White space, an optional sign, the longest run of digits. No digit gives 0, a value that does
  not fit gives \<open>ULLONG_MAX\<close>, and a minus sign negates in the unsigned type.
\<close>

abbreviation ULLONG_MAX :: nat where "ULLONG_MAX \<equiv> 18446744073709551615"

definition strtoull :: "bytes \<Rightarrow> nat" where
  "strtoull s =
     (let t = dropWhile isspace s;
          neg = (t \<noteq> [] \<and> hd t = CHR ''-'');
          u = (if t \<noteq> [] \<and> (hd t = CHR ''-'' \<or> hd t = CHR ''+'') then tl t else t);
          v = nat_of_digits (takeWhile isdigit u)
      in if ULLONG_MAX < v then ULLONG_MAX
         else if neg \<and> 0 < v then ULLONG_MAX + 1 - v
         else v)"

lemma strtoull_code [code]:
  "strtoull s =
     (let t = dropWhile isspace s;
          neg = (t \<noteq> [] \<and> hd t = CHR ''-'');
          u = (if t \<noteq> [] \<and> (hd t = CHR ''-'' \<or> hd t = CHR ''+'') then tl t else t);
          v = nat_of_digits (takeWhile isdigit u)
      in if 18446744073709551615 < int v then nat 18446744073709551615
         else if neg \<and> 0 < v then nat (18446744073709551616 - int v)
         else v)"
proof -
  have "(18446744073709551615 < int v) = (ULLONG_MAX < v)" "nat 18446744073709551615 = ULLONG_MAX"
    "nat (18446744073709551616 - int v) = ULLONG_MAX + 1 - v" for v
    by linarith+
  then show ?thesis unfolding strtoull_def Let_def by presburger
qed

lemma strtoull_bound: "strtoull s \<le> ULLONG_MAX"
  by (auto simp: strtoull_def Let_def)

lemma strtoull_string_of_nat:
  assumes "n \<le> ULLONG_MAX" and "t = [] \<or> \<not> isdigit (hd t)"
  shows "strtoull (string_of_nat n @ t) = n"
proof -
  obtain c cs where ds: "string_of_nat n = c # cs" by (cases "string_of_nat n") auto
  have c: "isdigit c" using isdigit_string_of_nat [of c n] ds by simp
  then have ns: "c \<noteq> CHR ''-''" "c \<noteq> CHR ''+''" "\<not> isspace c" by (auto simp: not_isspace_digit)
  have "takeWhile isdigit (string_of_nat n @ t) = string_of_nat n"
    using assms(2) string_of_nat_digits [of n]
    by (cases t) (auto simp: takeWhile_append list_all_iff)
  then show ?thesis
    using ns assms(1) nat_of_digits_string_of_nat [of n] by (simp add: strtoull_def ds Let_def)
qed

lemma strtoull_space [simp]: "isspace c \<Longrightarrow> strtoull (c # s) = strtoull s"
  by (simp add: strtoull_def)

section \<open>Finding a separator\<close>

lemma find_sub_None:
  "find_sub pat s = None \<longleftrightarrow> (\<forall>i. i + length pat \<le> length s \<longrightarrow> take (length pat) (drop i s) \<noteq> pat)"
proof (induction s)
  case Nil
  then show ?case by auto
next
  case (Cons c cs)
  show ?case
  proof (cases "take (length pat) (c # cs) = pat")
    case True
    then have "length pat \<le> length (c # cs)" by (metis length_take min.cobounded1)
    with True show ?thesis by (auto simp del: take_Suc_Cons intro!: exI [of _ 0])
  next
    case False
    have "(\<forall>i. i + length pat \<le> length (c # cs) \<longrightarrow> take (length pat) (drop i (c # cs)) \<noteq> pat)
        \<longleftrightarrow> (\<forall>i. i + length pat \<le> length cs \<longrightarrow> take (length pat) (drop i cs) \<noteq> pat)" (is "?l \<longleftrightarrow> ?r")
    proof
      assume ?l then show ?r by (metis add_Suc drop_Suc_Cons length_Cons not_less_eq_eq)
    next
      assume r: ?r
      show ?l
      proof (intro allI impI)
        fix i assume "i + length pat \<le> length (c # cs)"
        with False r show "take (length pat) (drop i (c # cs)) \<noteq> pat" by (cases i) auto
      qed
    qed
    with False Cons.IH show ?thesis by (simp del: take_Suc_Cons)
  qed
qed

text \<open>A one-character separator: the text before its first occurrence.\<close>

definition str_find_char :: "bytes \<Rightarrow> char \<Rightarrow> nat \<Rightarrow> nat option" where
  "str_find_char s c pos = str_find s [c] pos"

lemma find_sub_char:
  "find_sub [c] s = (if c \<in> set s then Some (length (takeWhile (\<lambda>d. d \<noteq> c) s)) else None)"
  by (induction s) auto

lemma str_find_char_0 [simp]:
  "str_find_char s c 0 =
     (if c \<in> set s then Some (length (takeWhile (\<lambda>d. d \<noteq> c) s)) else None)"
  by (simp add: str_find_char_def str_find_def find_sub_char)

lemma str_find_char_notin: "c \<notin> set s \<Longrightarrow> str_find_char (s @ c # t) c 0 = Some (length s)"
  by (auto simp: takeWhile_append)

lemma str_find_char_shift:
  "pos \<le> length s \<Longrightarrow> str_find_char s c pos = map_option ((+) pos) (str_find_char (drop pos s) c 0)"
  by (simp add: str_find_char_def str_find_def find_sub_char)

lemma str_find_offset:
  "pos \<le> length s \<Longrightarrow> str_find s pat pos = map_option ((+) pos) (str_find (drop pos s) pat 0)"
  by (simp add: str_find_def option.map_comp comp_def)

lemma str_find_0: "str_find s pat 0 = find_sub pat s"
  by (cases "find_sub pat s") (simp_all add: str_find_def)

lemma std_sto_string_of_nat:
  assumes "lo \<le> 0"
  shows "std_sto lo hi (string_of_nat n) = (if int n \<le> hi then Inr (int n, []) else Inl Out_of_range)"
proof -
  obtain c cs where ds: "string_of_nat n = c # cs" by (cases "string_of_nat n") auto
  have c: "isdigit c" using isdigit_string_of_nat [of c n] ds by simp
  then have ns: "hd (string_of_nat n) \<noteq> CHR ''-''" "hd (string_of_nat n) \<noteq> CHR ''+''"
      "dropWhile isspace (string_of_nat n) = string_of_nat n"
    using ds by (auto simp: not_isspace_digit)
  have tw: "takeWhile isdigit (string_of_nat n) = string_of_nat n" "dropWhile isdigit (string_of_nat n) = []"
    using string_of_nat_digits [of n] by (auto simp: list_all_iff)
  show ?thesis
    unfolding std_sto_def Let_def ns(3) using assms ns(1,2)
    by (simp only: tw simp_thms if_False nat_of_digits_string_of_nat string_of_nat_nonempty) auto
qed

lemma std_stoi_string_of_nat:
  "std_stoi (string_of_nat n) = (if int n \<le> INT_MAX then Inr (int n) else Inl Out_of_range)"
  by (simp add: std_stoi_def std_sto_string_of_nat)

end
