(* ===== verification/String_Map.thy ===== *)
theory String_Map
  imports Text_Utils "HOL-Library.List_Lexorder"
begin

text \<open>
  \<open>std::map<std::string, V, Less>\<close> as the sorted association list of its in-order traversal, with
  the two comparisons the program uses: \<open>std::less\<close> (configuration keys, session names) and the
  case-insensitive order of HTTP header names. The locale \<open>map_order\<close> states what a comparison has
  to satisfy; lookup-after-assignment, order preservation and the reading of a sequence of
  assignments are proved there once.
\<close>

type_synonym 'v string_map = "(bytes \<times> 'v) list"

fun map_find :: "('k \<Rightarrow> 'k \<Rightarrow> bool) \<Rightarrow> 'k \<Rightarrow> ('k \<times> 'v) list \<Rightarrow> 'v option" where
  "map_find lt k [] = None"
| "map_find lt k ((k', v) # m) =
     (if lt k k' then None else if lt k' k then map_find lt k m else Some v)"

text \<open>\<open>m[k] = v\<close>: an equivalent key keeps its spelling, only the value changes.\<close>

fun map_assign :: "('k \<Rightarrow> 'k \<Rightarrow> bool) \<Rightarrow> 'k \<Rightarrow> 'v \<Rightarrow> ('k \<times> 'v) list \<Rightarrow> ('k \<times> 'v) list" where
  "map_assign lt k v [] = [(k, v)]"
| "map_assign lt k v ((k', v') # m) =
     (if lt k k' then (k, v) # (k', v') # m
      else if lt k' k then (k', v') # map_assign lt k v m
      else (k', v) # m)"

definition map_ok :: "('k \<Rightarrow> 'k \<Rightarrow> bool) \<Rightarrow> ('k \<times> 'v) list \<Rightarrow> bool" where
  "map_ok lt m = sorted_wrt lt (map fst m)"

definition assign_all :: "('k \<Rightarrow> 'k \<Rightarrow> bool) \<Rightarrow> ('k \<times> 'v) list \<Rightarrow> ('k \<times> 'v) list \<Rightarrow> ('k \<times> 'v) list" where
  "assign_all lt kvs m = foldl (\<lambda>m (k, v). map_assign lt k v m) m kvs"

lemma find_snoc: "find P (xs @ [x]) = (case find P xs of Some y \<Rightarrow> Some y | None \<Rightarrow> if P x then Some x else None)"
  by (induction xs) auto

locale map_order =
  fixes lt :: "'k \<Rightarrow> 'k \<Rightarrow> bool" and key :: "'k \<Rightarrow> 'o::linorder"
  assumes less_iff: "lt a b \<longleftrightarrow> key a < key b"
begin

lemma lt_cases:
  obtains (before) "lt a b" "\<not> lt b a" "key a \<noteq> key b"
  | (after) "lt b a" "\<not> lt a b" "key a \<noteq> key b"
  | (same) "\<not> lt a b" "\<not> lt b a" "key a = key b"
  by (metis less_iff less_linear less_irrefl order.asym)

lemma lt_trans: "lt a b \<Longrightarrow> lt b c \<Longrightarrow> lt a c"
  by (metis less_iff order.strict_trans)

lemma lt_key: "key a = key b \<Longrightarrow> lt a c \<longleftrightarrow> lt b c" "key a = key b \<Longrightarrow> lt c a \<longleftrightarrow> lt c b"
  by (metis less_iff)+

lemma lt_asym: "lt a b \<Longrightarrow> \<not> lt b a"
  by (metis less_iff order.asym)

lemma set_assign:
  "Q k \<Longrightarrow> \<forall>kv \<in> set m. Q (fst kv) \<Longrightarrow> \<forall>kv \<in> set (map_assign lt k v m). Q (fst kv)"
proof (induction m)
  case (Cons kv m)
  then show ?case by (cases kv) simp
qed simp

lemma ok_Nil [simp]: "map_ok lt []"
  by (simp add: map_ok_def)

lemma ok_Cons: "map_ok lt ((k, v) # m) \<longleftrightarrow> (\<forall>kv \<in> set m. lt k (fst kv)) \<and> map_ok lt m"
  by (simp add: map_ok_def)

lemma ok_assign: "map_ok lt m \<Longrightarrow> map_ok lt (map_assign lt k v m)"
proof (induction m)
  case (Cons kv m)
  obtain k' v' where kv: "kv = (k', v')" by (cases kv)
  from Cons.prems have gt: "\<forall>kv \<in> set m. lt k' (fst kv)" "map_ok lt m" by (simp_all add: kv ok_Cons)
  show ?case
  proof (cases rule: lt_cases [of k k'])
    case before
    with gt show ?thesis unfolding kv by (auto simp: ok_Cons intro: lt_trans)
  next
    case after
    with gt Cons.IH set_assign [of "lt k'" k m v] show ?thesis unfolding kv by (auto simp: ok_Cons)
  next
    case same
    with gt show ?thesis unfolding kv by (simp add: ok_Cons)
  qed
qed (simp add: map_ok_def)

lemma find_none: "(\<forall>kv \<in> set m. lt k (fst kv)) \<Longrightarrow> map_find lt k m = None"
  by (cases m) auto

lemma find_assign:
  "map_ok lt m \<Longrightarrow>
    map_find lt k (map_assign lt k' v m) = (if key k = key k' then Some v else map_find lt k m)"
proof (induction m)
  case Nil
  show ?case by (cases rule: lt_cases [of k k']) simp_all
next
  case (Cons kv m)
  obtain k1 v1 where kv: "kv = (k1, v1)" by (cases kv)
  from Cons.prems have "map_ok lt m" by (simp add: kv ok_Cons)
  note IH = Cons.IH [OF this]
  show ?case
  proof (cases rule: lt_cases [of k' k1])
    case before
    then show ?thesis unfolding kv
      using lt_trans [of k k' k1] lt_key [of k k' k1]
      by (cases rule: lt_cases [of k k']) auto
  next
    case after
    with IH show ?thesis unfolding kv
      using lt_key [of k k' k1] by (cases rule: lt_cases [of k k1]) auto
  next
    case same
    then show ?thesis unfolding kv
      by (cases rule: lt_cases [of k k1]) simp_all
  qed
qed

lemma find_member: "map_ok lt m \<Longrightarrow> (k, v) \<in> set m \<Longrightarrow> map_find lt k m = Some v"
proof (induction m)
  case (Cons kv m)
  obtain k1 v1 where kv: "kv = (k1, v1)" by (cases kv)
  from Cons show ?case unfolding kv
    by (cases rule: lt_cases [of k k1]) (auto simp: ok_Cons dest!: bspec)
qed simp

lemma find_SomeD: "map_find lt k m = Some v \<Longrightarrow> \<exists>k'. (k', v) \<in> set m \<and> key k' = key k"
proof (induction m)
  case (Cons kv m)
  obtain k1 v1 where kv: "kv = (k1, v1)" by (cases kv)
  from Cons show ?case unfolding kv by (cases rule: lt_cases [of k k1]) auto
qed simp

lemma assign_last:
  "\<forall>kv \<in> set m. lt (fst kv) k \<Longrightarrow> map_assign lt k v m = m @ [(k, v)]"
  by (induction m) (auto simp: lt_asym)

lemma ok_assign_all: "map_ok lt m \<Longrightarrow> map_ok lt (assign_all lt kvs m)"
  by (induction kvs arbitrary: m) (auto simp: assign_all_def ok_assign)

text \<open>Assigning a sequence of pairs: for every key the last assignment counts.\<close>

lemma find_assign_all:
  "map_ok lt m \<Longrightarrow>
    map_find lt k (assign_all lt kvs m) =
      (case find (\<lambda>kv. key (fst kv) = key k) (rev kvs) of Some kv \<Rightarrow> Some (snd kv) | None \<Rightarrow> map_find lt k m)"
proof (induction kvs arbitrary: m)
  case Nil
  then show ?case by (simp add: assign_all_def)
next
  case (Cons kv kvs)
  obtain k1 v1 where kv: "kv = (k1, v1)" by (cases kv)
  have step: "assign_all lt (kv # kvs) m = assign_all lt kvs (map_assign lt k1 v1 m)"
    by (simp add: assign_all_def kv)
  show ?case
    unfolding step Cons.IH [OF ok_assign [OF Cons.prems]] find_assign [OF Cons.prems]
    by (auto simp: kv find_snoc split: option.splits)
qed

lemma find_distinct_rev:
  "distinct (map (key \<circ> fst) kvs) \<Longrightarrow>
    find (\<lambda>kv. key (fst kv) = key k) (rev kvs) = find (\<lambda>kv. key (fst kv) = key k) kvs"
proof (induction kvs)
  case (Cons kv kvs)
  then have "key (fst kv) = key k \<Longrightarrow> find (\<lambda>kv. key (fst kv) = key k) kvs = None"
    by (force simp: find_None_iff)
  with Cons show ?case by (auto simp: find_snoc split: option.splits)
qed simp

lemma find_assign_distinct:
  "distinct (map (key \<circ> fst) kvs) \<Longrightarrow>
    map_find lt k (assign_all lt kvs []) = map_option snd (find (\<lambda>kv. key (fst kv) = key k) kvs)"
  by (simp add: find_assign_all find_distinct_rev split: option.splits)

lemma ok_distinct: "map_ok lt m \<Longrightarrow> distinct (map (key \<circ> fst) m)"
proof (induction m)
  case (Cons kv m)
  obtain k v where kv: "kv = (k, v)" by (cases kv)
  from Cons.prems have "\<forall>kv \<in> set m. lt k (fst kv)" "map_ok lt m" by (simp_all add: kv ok_Cons)
  moreover from this(1) have "key k \<noteq> key (fst kv')" if "kv' \<in> set m" for kv'
    using that less_iff by fastforce
  then have "key k \<notin> set (map (key \<circ> fst) m)" by auto
  ultimately show ?case using Cons.IH by (simp add: kv)
qed simp

text \<open>A map written out pair by pair and assigned again is itself.\<close>

lemma assign_all_id: "map_ok lt (m @ kvs) \<Longrightarrow> assign_all lt kvs m = m @ kvs"
proof (induction kvs arbitrary: m)
  case (Cons kv kvs)
  obtain k v where kv: "kv = (k, v)" by (cases kv)
  have "\<forall>kv \<in> set m. lt (fst kv) k" using Cons.prems by (auto simp: kv map_ok_def sorted_wrt_append)
  then have "assign_all lt (kv # kvs) m = assign_all lt kvs (m @ [(k, v)])"
    by (simp add: assign_all_def kv assign_last)
  also have "\<dots> = m @ kv # kvs" using Cons.IH [of "m @ [(k, v)]"] Cons.prems by (simp add: kv)
  finally show ?case .
qed (simp add: assign_all_def)

lemma set_assign_all:
  "\<forall>kv \<in> set kvs. Q (fst kv) \<Longrightarrow> \<forall>kv \<in> set m. Q (fst kv) \<Longrightarrow>
    \<forall>kv \<in> set (assign_all lt kvs m). Q (fst kv)"
proof (induction kvs arbitrary: m)
  case (Cons kv kvs)
  obtain k v where kv: "kv = (k, v)" by (cases kv)
  have "assign_all lt (kv # kvs) m = assign_all lt kvs (map_assign lt k v m)"
    by (simp add: assign_all_def kv)
  moreover have "\<forall>kv \<in> set (map_assign lt k v m). Q (fst kv)"
    using Cons.prems by (intro set_assign) (simp_all add: kv)
  ultimately show ?case using Cons.IH Cons.prems(1) by simp
qed (simp add: assign_all_def)

end

section \<open>The two comparisons\<close>

text \<open>\<open>std::lexicographical_compare\<close>.\<close>

fun lexicographical_compare :: "('a \<Rightarrow> 'a \<Rightarrow> bool) \<Rightarrow> 'a list \<Rightarrow> 'a list \<Rightarrow> bool" where
  "lexicographical_compare lt xs [] = False"
| "lexicographical_compare lt [] (y # ys) = True"
| "lexicographical_compare lt (x # xs) (y # ys) =
     (lt x y \<or> (\<not> lt y x \<and> lexicographical_compare lt xs ys))"

lemma lexicographical_compare_key:
  fixes key :: "'a \<Rightarrow> nat"
  assumes "\<And>x y. lt x y \<longleftrightarrow> key x < key y"
  shows "lexicographical_compare lt xs ys \<longleftrightarrow> map key xs < map key ys"
proof (induction xs arbitrary: ys)
  case Nil
  then show ?case by (cases ys) simp_all
next
  case (Cons x xs)
  then show ?case using assms by (cases ys) auto
qed

definition std_less :: "bytes \<Rightarrow> bytes \<Rightarrow> bool" where
  "std_less = lexicographical_compare (\<lambda>x y. (of_char x :: nat) < of_char y)"

definition std_key :: "bytes \<Rightarrow> nat list" where
  "std_key = map of_char"

lemma std_key_inject [simp]: "std_key a = std_key b \<longleftrightarrow> a = b"
  by (auto simp: std_key_def inj_map_eq_map inj_def)

lemma std_less_code [code]: "std_less = lexicographical_compare (\<lambda>x y. (of_char x :: int) < of_char y)"
  unfolding std_less_def of_char_int of_nat_less_iff ..

interpretation std_map: map_order std_less std_key
  by unfold_locales (simp add: std_less_def std_key_def lexicographical_compare_key)

end
