(* ===== verification/Config.thy ===== *)
theory Config
  imports Complex_Main String_Map
begin

text \<open>
  The INI configuration (\<open>utils/config.cpp\<close>) and the log levels (\<open>utils/logger.cpp\<close>): parsing a text
  line by line with the line number of the first error, and the typed getters. \<open>values_\<close> is a
  \<open>std::map\<close> from \<open>section.key\<close> to the value; \<open>std::stod\<close> is the argument \<open>stod\<close>, which gives the number
  and the rest of the text.
\<close>

datatype ConfigError = ConfigError bytes nat

type_synonym Config = "bytes string_map"

abbreviation newline :: char where "newline \<equiv> CHR 0x0A"

section \<open>Errors as a sum\<close>

definition bindE :: "'e + 'a \<Rightarrow> ('a \<Rightarrow> 'e + 'b) \<Rightarrow> 'e + 'b" where
  "bindE m f = (case m of Inl e \<Rightarrow> Inl e | Inr x \<Rightarrow> f x)"

lemma bindE_simps [simp]: "bindE (Inl e) f = Inl e" "bindE (Inr x) f = f x"
  by (simp_all add: bindE_def)

lemma bindE_Inr: "bindE m f = Inr y \<longleftrightarrow> (\<exists>x. m = Inr x \<and> f x = Inr y)"
  by (cases m) simp_all

lemma bindE_Inl: "bindE m f = Inl e \<longleftrightarrow> m = Inl e \<or> (\<exists>x. m = Inr x \<and> f x = Inl e)"
  by (cases m) simp_all

section \<open>Parsing\<close>

definition config_trim :: "bytes \<Rightarrow> bytes" where
  "config_trim s = trim_set [CHR '' '', CHR 0x09, CHR 0x0D, newline] s"

definition to_lower :: "bytes \<Rightarrow> bytes" where
  "to_lower s = map tolower s"

text \<open>The lines \<open>std::getline\<close> delivers: a final line end does not start another line.\<close>

function getlines :: "bytes \<Rightarrow> bytes list" where
  "getlines [] = []"
| "getlines (c # cs) =
     takeWhile (\<lambda>d. d \<noteq> newline) (c # cs) # getlines (tl (dropWhile (\<lambda>d. d \<noteq> newline) (c # cs)))"
  by pat_completeness auto
termination
  by (relation "measure length") (auto intro!: le_imp_less_Suc order.trans [OF diff_le_self] length_dropWhile_le)

text \<open>One line: the section it leaves and the values it leaves, or the message of the error.\<close>

definition parse_line :: "bytes \<Rightarrow> bytes \<Rightarrow> Config \<Rightarrow> bytes + bytes \<times> Config" where
  "parse_line line sect vals =
     (let t = config_trim line
      in if t = [] \<or> hd t = CHR ''#'' \<or> hd t = CHR '';'' then Inr (sect, vals)
         else if hd t = CHR ''['' then
           (if last t \<noteq> CHR '']'' then Inl (''unterminated section header: '' @ t)
            else let s = config_trim (substr t 1 (length t - 2))
                 in if s = [] then Inl ''empty section name'' else Inr (s, vals))
         else (case str_find_char t CHR ''='' 0 of
                 None \<Rightarrow> Inl (''expected '' @ quoted ''key = value'' @ '': '' @ t)
               | Some eq \<Rightarrow>
                   let key = config_trim (take eq t)
                   in if key = [] then Inl ''empty key''
                      else let val = config_trim (drop (eq + 1) t);
                               full_key = (if sect = [] then key else sect @ ''.'' @ key)
                           in Inr (sect, map_assign std_less full_key val vals)))"

fun parse_loop :: "bytes list \<Rightarrow> nat \<Rightarrow> bytes \<Rightarrow> Config \<Rightarrow> ConfigError + Config" where
  "parse_loop [] line_no sect vals = Inr vals"
| "parse_loop (line # lines) line_no sect vals =
     (case parse_line line sect vals of
        Inl msg \<Rightarrow> Inl (ConfigError msg (line_no + 1))
      | Inr (sect1, vals1) \<Rightarrow> parse_loop lines (line_no + 1) sect1 vals1)"

definition config_parse :: "bytes \<Rightarrow> ConfigError + Config" where
  "config_parse input = parse_loop (getlines input) 0 [] []"

text \<open>\<open>file\<close>: the contents of the file when it can be opened.\<close>

definition config_load :: "(bytes \<Rightarrow> bytes option) \<Rightarrow> bytes \<Rightarrow> ConfigError + Config" where
  "config_load file path =
     (case file path of
        None \<Rightarrow> Inl (ConfigError (''cannot open config file: '' @ path) 0)
      | Some contents \<Rightarrow> config_parse contents)"

section \<open>Getters\<close>

definition config_has :: "Config \<Rightarrow> bytes \<Rightarrow> bool" where
  "config_has cfg key \<longleftrightarrow> map_find std_less key cfg \<noteq> None"

definition get_string :: "Config \<Rightarrow> bytes \<Rightarrow> ConfigError + bytes" where
  "get_string cfg key =
     (case map_find std_less key cfg of
        None \<Rightarrow> Inl (ConfigError (''missing config key: '' @ key) 0)
      | Some v \<Rightarrow> Inr v)"

definition get_int :: "Config \<Rightarrow> bytes \<Rightarrow> ConfigError + int" where
  "get_int cfg key =
     bindE (get_string cfg key) (\<lambda>raw.
       case std_sto LONG_MIN LONG_MAX raw of
         Inr (v, rest) \<Rightarrow> if rest = [] then Inr v
           else Inl (ConfigError (''key '' @ quoted key @ '' is not an integer: '' @ quoted raw) 0)
       | Inl _ \<Rightarrow> Inl (ConfigError (''key '' @ quoted key @ '' is not an integer: '' @ quoted raw) 0))"

definition get_double :: "(bytes \<Rightarrow> num_error + real \<times> bytes) \<Rightarrow> Config \<Rightarrow> bytes \<Rightarrow> ConfigError + real" where
  "get_double stod cfg key =
     bindE (get_string cfg key) (\<lambda>raw.
       case stod raw of
         Inr (v, rest) \<Rightarrow> if rest = [] then Inr v
           else Inl (ConfigError (''key '' @ quoted key @ '' is not a number: '' @ quoted raw) 0)
       | Inl _ \<Rightarrow> Inl (ConfigError (''key '' @ quoted key @ '' is not a number: '' @ quoted raw) 0))"

definition get_bool :: "Config \<Rightarrow> bytes \<Rightarrow> ConfigError + bool" where
  "get_bool cfg key =
     bindE (get_string cfg key) (\<lambda>v.
       let raw = to_lower v
       in if raw = ''true'' \<or> raw = ''yes'' \<or> raw = ''on'' \<or> raw = ''1'' then Inr True
          else if raw = ''false'' \<or> raw = ''no'' \<or> raw = ''off'' \<or> raw = ''0'' then Inr False
          else Inl (ConfigError (''key '' @ quoted key @ '' is not a boolean: '' @ quoted v) 0))"

definition get_string_or :: "Config \<Rightarrow> bytes \<Rightarrow> bytes \<Rightarrow> ConfigError + bytes" where
  "get_string_or cfg key d = (if config_has cfg key then get_string cfg key else Inr d)"

definition get_int_or :: "Config \<Rightarrow> bytes \<Rightarrow> int \<Rightarrow> ConfigError + int" where
  "get_int_or cfg key d = (if config_has cfg key then get_int cfg key else Inr d)"

definition get_double_or :: "(bytes \<Rightarrow> num_error + real \<times> bytes) \<Rightarrow> Config \<Rightarrow> bytes \<Rightarrow> real \<Rightarrow> ConfigError + real" where
  "get_double_or stod cfg key d = (if config_has cfg key then get_double stod cfg key else Inr d)"

definition get_bool_or :: "Config \<Rightarrow> bytes \<Rightarrow> bool \<Rightarrow> ConfigError + bool" where
  "get_bool_or cfg key d = (if config_has cfg key then get_bool cfg key else Inr d)"

section \<open>Log levels\<close>

datatype LogLevel = Debug | Info | Warn | Error

fun level_rank :: "LogLevel \<Rightarrow> nat" where
  "level_rank Debug = 0"
| "level_rank Info = 1"
| "level_rank Warn = 2"
| "level_rank Error = 3"

instantiation LogLevel :: linorder
begin

definition less_eq_LogLevel :: "LogLevel \<Rightarrow> LogLevel \<Rightarrow> bool" where
  "less_eq_LogLevel a b \<longleftrightarrow> level_rank a \<le> level_rank b"

definition less_LogLevel :: "LogLevel \<Rightarrow> LogLevel \<Rightarrow> bool" where
  "less_LogLevel a b \<longleftrightarrow> level_rank a < level_rank b"

instance
proof
  fix a b :: LogLevel
  show "a \<le> b \<Longrightarrow> b \<le> a \<Longrightarrow> a = b"
    by (cases a; cases b) (simp_all add: less_eq_LogLevel_def)
qed (auto simp: less_eq_LogLevel_def less_LogLevel_def)

end

fun level_name :: "LogLevel \<Rightarrow> bytes" where
  "level_name Debug = ''DEBUG''"
| "level_name Info = ''INFO''"
| "level_name Warn = ''WARN''"
| "level_name Error = ''ERROR''"

definition level_from_string :: "bytes \<Rightarrow> bytes + LogLevel" where
  "level_from_string name =
     (let l = map tolower name
      in if l = ''debug'' then Inr Debug
         else if l = ''info'' then Inr Info
         else if l = ''warn'' then Inr Warn
         else if l = ''error'' then Inr Error
         else Inl (''unknown log level: '' @ name))"

record Logger =
  lg_out :: bytes
  lg_min_level :: LogLevel
  lg_timestamps :: bool

text \<open>\<open>now\<close> is the formatted time.\<close>

definition log_message :: "bytes \<Rightarrow> LogLevel \<Rightarrow> bytes \<Rightarrow> Logger \<Rightarrow> Logger" where
  "log_message now level message lg =
     (if level < lg_min_level lg then lg
      else lg\<lparr>lg_out := lg_out lg @
              ((if lg_timestamps lg then ''['' @ now @ ''] '' else []) @
               ''['' @ level_name level @ ''] '' @ message @ [newline])\<rparr>)"

section \<open>Reading back a printed configuration\<close>

type_synonym ini = "(bytes \<times> (bytes \<times> bytes) list) list"

definition pair_line :: "bytes \<times> bytes \<Rightarrow> bytes" where
  "pair_line kv = fst kv @ '' = '' @ snd kv"

definition section_lines :: "bytes \<times> (bytes \<times> bytes) list \<Rightarrow> bytes list" where
  "section_lines s = (''['' @ fst s @ '']'') # map pair_line (snd s)"

definition print_config :: "ini \<Rightarrow> bytes" where
  "print_config secs = concat (map (\<lambda>l. l @ [newline]) (concat (map section_lines secs)))"

definition full_keys :: "bytes \<times> (bytes \<times> bytes) list \<Rightarrow> (bytes \<times> bytes) list" where
  "full_keys s = map (\<lambda>kv. (fst s @ ''.'' @ fst kv, snd kv)) (snd s)"

definition pair_ok :: "bytes \<times> bytes \<Rightarrow> bool" where
  "pair_ok kv \<longleftrightarrow>
     fst kv \<noteq> [] \<and> config_trim (fst kv) = fst kv \<and> CHR ''='' \<notin> set (fst kv) \<and> newline \<notin> set (fst kv) \<and>
     hd (fst kv) \<noteq> CHR ''#'' \<and> hd (fst kv) \<noteq> CHR '';'' \<and> hd (fst kv) \<noteq> CHR ''['' \<and>
     config_trim (snd kv) = snd kv \<and> newline \<notin> set (snd kv)"

definition section_ok :: "bytes \<times> (bytes \<times> bytes) list \<Rightarrow> bool" where
  "section_ok s \<longleftrightarrow> fst s \<noteq> [] \<and> config_trim (fst s) = fst s \<and> newline \<notin> set (fst s) \<and> list_all pair_ok (snd s)"

lemma getlines_line: "newline \<notin> set l \<Longrightarrow> getlines (l @ newline # t) = l # getlines t"
proof -
  assume nl: "newline \<notin> set l"
  then have "takeWhile (\<lambda>d. d \<noteq> newline) (l @ newline # t) = l"
    "dropWhile (\<lambda>d. d \<noteq> newline) (l @ newline # t) = newline # t"
    by (auto simp: takeWhile_append dropWhile_append)
  then show ?thesis by (cases "l @ newline # t") simp_all
qed

lemma getlines_lines: "\<forall>l \<in> set ls. newline \<notin> set l \<Longrightarrow> getlines (concat (map (\<lambda>l. l @ [newline]) ls)) = ls"
  by (induction ls) (simp_all add: getlines_line)

lemma parse_section_line:
  assumes "section_ok s"
  shows "parse_line (''['' @ fst s @ '']'') sect vals = Inr (fst s, vals)"
proof -
  have t: "config_trim (''['' @ fst s @ '']'') = ''['' @ fst s @ '']''"
    unfolding config_trim_def by (rule trim_set_id) simp
  have "substr (''['' @ fst s @ '']'') 1 (length (''['' @ fst s @ '']'') - 2) = fst s"
    by (simp add: substr_def)
  with t assms show ?thesis by (simp add: parse_line_def Let_def section_ok_def)
qed

lemma parse_pair_line:
  assumes "pair_ok kv" and "sect \<noteq> []"
  shows "parse_line (pair_line kv) sect vals =
    Inr (sect, map_assign std_less (sect @ ''.'' @ fst kv) (snd kv) vals)"
proof -
  let ?k = "fst kv" and ?v = "snd kv"
  have k: "?k \<noteq> []" "config_trim ?k = ?k" "CHR ''='' \<notin> set ?k" and v: "config_trim ?v = ?v"
    using assms(1) by (simp_all add: pair_ok_def)
  have ends: "hd ?k \<notin> set [CHR '' '', CHR 0x09, CHR 0x0D, newline]"
    "?v \<noteq> [] \<Longrightarrow> last ?v \<notin> set [CHR '' '', CHR 0x09, CHR 0x0D, newline]"
    using trim_set_ends [of "[CHR '' '', CHR 0x09, CHR 0x0D, newline]" ?k ?k] k
      trim_set_ends [of "[CHR '' '', CHR 0x09, CHR 0x0D, newline]" ?v ?v] v
    by (simp_all add: config_trim_def)
  define r where "r = (if ?v = [] then [] else '' '' @ ?v)"
  have t: "config_trim (pair_line kv) = ?k @ '' ='' @ r"
  proof (cases "?v = []")
    case True
    have "config_trim (pair_line kv) = trim_set [CHR '' '', CHR 0x09, CHR 0x0D, newline] ((?k @ '' ='') @ '' '')"
      by (simp add: config_trim_def pair_line_def True)
    also have "\<dots> = trim_set [CHR '' '', CHR 0x09, CHR 0x0D, newline] (?k @ '' ='')"
      by (rule trim_set_append) simp
    also have "\<dots> = ?k @ '' =''" using k(1) ends(1) by (intro trim_set_id) simp
    finally show ?thesis by (simp add: r_def True)
  next
    case False
    with k(1) ends show ?thesis
      unfolding config_trim_def by (subst trim_set_id) (simp_all add: pair_line_def r_def)
  qed
  have "str_find_char ((?k @ '' '') @ CHR ''='' # r) CHR ''='' 0 = Some (length (?k @ '' ''))"
    using k(3) by (intro str_find_char_notin) simp
  then have eq: "str_find_char (?k @ '' ='' @ r) CHR ''='' 0 = Some (length ?k + 1)"
    by (simp del: str_find_char_0)
  have tk: "take (length ?k + 1) (?k @ '' ='' @ r) = ?k @ '' ''" "drop (length ?k + 1 + 1) (?k @ '' ='' @ r) = r"
    by simp_all
  have kk: "config_trim (?k @ '' '') = ?k"
    using k(2) unfolding config_trim_def by (subst trim_set_append) simp_all
  have vv: "config_trim r = ?v" using v by (cases "?v = []") (simp_all add: r_def config_trim_def)
  have hd: "hd (?k @ '' ='' @ r) = hd ?k" "?k @ '' ='' @ r \<noteq> []" using k(1) by simp_all
  show ?thesis
    unfolding parse_line_def Let_def t hd(1) eq option.case tk kk vv
    using assms hd(2) k(1) by (simp add: pair_ok_def)
qed

lemma parse_section:
  assumes "section_ok s"
  shows "parse_loop (section_lines s @ rest) n sect vals =
    parse_loop rest (n + length (section_lines s)) (fst s) (assign_all std_less (full_keys s) vals)"
proof -
  have ne: "fst s \<noteq> []" using assms by (simp add: section_ok_def)
  have pairs: "list_all pair_ok kvs \<Longrightarrow>
      parse_loop (map pair_line kvs @ rest) m (fst s) w =
      parse_loop rest (m + length kvs) (fst s)
        (assign_all std_less (map (\<lambda>kv. (fst s @ ''.'' @ fst kv, snd kv)) kvs) w)" for kvs m w
    by (induction kvs arbitrary: m w) (simp_all add: parse_pair_line ne assign_all_def)
  show ?thesis
    using assms pairs [of "snd s" "n + 1" vals] parse_section_line [OF assms, of sect vals]
    by (simp add: section_lines_def full_keys_def section_ok_def)
qed

lemma parse_sections:
  "list_all section_ok secs \<Longrightarrow>
    parse_loop (concat (map section_lines secs)) n sect vals =
      Inr (assign_all std_less (concat (map full_keys secs)) vals)"
proof (induction secs arbitrary: n sect vals)
  case (Cons s secs)
  then show ?case by (simp add: parse_section) (simp add: assign_all_def)
qed (simp add: assign_all_def)

lemma section_no_newline: "section_ok s \<Longrightarrow> l \<in> set (section_lines s) \<Longrightarrow> newline \<notin> set l"
  by (auto simp: section_ok_def section_lines_def pair_line_def pair_ok_def list_all_iff)

lemma config_lookup:
  assumes "list_all section_ok secs"
  shows "\<exists>cfg. config_parse (print_config secs) = Inr cfg \<and>
    (\<forall>key. map_find std_less key cfg =
      map_option snd (find (\<lambda>kv. fst kv = key) (rev (concat (map full_keys secs)))))"
proof -
  have "getlines (print_config secs) = concat (map section_lines secs)"
    unfolding print_config_def
    using assms by (intro getlines_lines) (auto simp: list_all_iff dest: section_no_newline)
  then have "config_parse (print_config secs) = Inr (assign_all std_less (concat (map full_keys secs)) [])"
    using assms by (simp add: config_parse_def parse_sections)
  then show ?thesis
    by (auto simp: std_map.find_assign_all split: option.splits)
qed

text \<open>
  C36. A printed configuration reads back: every key \<open>section.key\<close> has the value of its last
  assignment, and nothing else is set.
\<close>

theorem config_roundtrip:
  assumes "list_all section_ok secs"
  shows "\<exists>cfg. config_parse (print_config secs) = Inr cfg \<and>
    (\<forall>key. map_find std_less key cfg =
      map_option snd (find (\<lambda>kv. fst kv = key) (rev (concat (map full_keys secs)))))"
  using assms by (rule config_lookup)

definition demo_ini :: ini where
  "demo_ini = [(''model'', [(''path'', ''m.gguf'')]), (''server'', [(''port'', ''80''), (''port'', ''8080'')])]"

theorem config_roundtrip_witness:
  "\<exists>cfg. config_parse (print_config demo_ini) = Inr cfg \<and> map_find std_less ''server.port'' cfg = Some ''8080''"
proof -
  have "list_all section_ok demo_ini"
    by (simp add: demo_ini_def section_ok_def pair_ok_def config_trim_def trim_set_dropWhile)
  from config_roundtrip [OF this] show ?thesis
    by (auto simp: demo_ini_def full_keys_def)
qed

lemma parse_loop_error:
  "parse_loop ls n sect vals = Inl (ConfigError msg m) \<Longrightarrow>
    \<exists>i < length ls. m = n + i + 1 \<and> (\<exists>cfg. parse_loop (take i ls) n sect vals = Inr cfg) \<and>
      (\<exists>sect' vals'. parse_line (ls ! i) sect' vals' = Inl msg)"
proof (induction ls arbitrary: n sect vals)
  case (Cons l ls)
  show ?case
  proof (cases "parse_line l sect vals")
    case (Inl msg')
    with Cons.prems show ?thesis by (intro exI [of _ 0]) auto
  next
    case (Inr sv)
    obtain s1 v1 where sv: "sv = (s1, v1)" by (cases sv)
    with Inr Cons.prems have "parse_loop ls (n + 1) s1 v1 = Inl (ConfigError msg m)" by simp
    from Cons.IH [OF this] obtain i where "i < length ls" "m = n + 1 + i + 1"
      "\<exists>cfg. parse_loop (take i ls) (n + 1) s1 v1 = Inr cfg"
      "\<exists>sect' vals'. parse_line (ls ! i) sect' vals' = Inl msg" by blast
    with Inr sv show ?thesis by (intro exI [of _ "Suc i"]) simp
  qed
qed simp

text \<open>
  A parse error names the first bad line, counted from 1: the lines before it parse, and the
  message is the one that line gives.
\<close>

theorem config_error_line:
  assumes "config_parse input = Inl (ConfigError msg line)"
  shows "1 \<le> line \<and> line \<le> length (getlines input) \<and>
    (\<exists>cfg. parse_loop (take (line - 1) (getlines input)) 0 [] [] = Inr cfg) \<and>
    (\<exists>sect vals. parse_line (getlines input ! (line - 1)) sect vals = Inl msg)"
  using parse_loop_error [OF assms [unfolded config_parse_def]] by (elim exE conjE) (simp, blast)

theorem config_error_line_witness:
  "(\<exists>cfg. parse_loop (take 1 (getlines (''a = 1'' @ [newline] @ ''b''))) 0 [] [] = Inr cfg)"
proof -
  have "config_parse (''a = 1'' @ [newline] @ ''b'') =
      Inl (ConfigError (''expected '' @ quoted ''key = value'' @ '': b'') 2)"
    by code_simp
  from config_error_line [OF this] show ?thesis by simp
qed

end
