(* ===== verification/Cache_Serializer.thy ===== *)
theory Cache_Serializer
  imports Prelude
begin

text \<open>
  The byte primitives of the KV-cache serializer (\<open>src/src/cache/cache_serializer.cpp\<close>): the
  FNV-1a checksum and the compression envelope. The zstd library is a parameter: the three
  entry points the code calls, and whether the build has them (\<open>REAME_HAS_ZSTD\<close>).
\<close>

definition fnv_step :: "u64 \<Rightarrow> char \<Rightarrow> u64" where
  "fnv_step hash c = (hash XOR word_of_nat (of_char c)) * 0x100000001b3"

definition checksum :: "bytes \<Rightarrow> u64" where
  "checksum data = foldl fnv_step 0xcbf29ce484222325 data"

text \<open>
  \<open>ZSTD_compress\<close> gives the frame or an error code; \<open>ZSTD_getFrameContentSize\<close> is \<open>None\<close> for
  its error and unknown codes; \<open>ZSTD_decompress src cap\<close> gives the bytes written into a buffer
  of \<open>cap\<close> bytes, or an error code.
\<close>

record zstd_lib =
  has_zstd :: bool
  ZSTD_compress :: "bytes \<Rightarrow> bytes option"
  ZSTD_getFrameContentSize :: "bytes \<Rightarrow> nat option"
  ZSTD_decompress :: "bytes \<Rightarrow> nat \<Rightarrow> bytes option"

datatype cache_error = CacheError bytes

definition kFlagZstd :: char where "kFlagZstd = CHR ''Z''"
definition kFlagRaw :: char where "kFlagRaw = CHR ''R''"

definition compress :: "zstd_lib \<Rightarrow> bytes \<Rightarrow> cache_error + bytes" where
  "compress z data =
     (if has_zstd z
      then (case ZSTD_compress z data of
              None \<Rightarrow> Inl (CacheError ''zstd compression failed'')
            | Some frame \<Rightarrow> Inr (kFlagZstd # frame))
      else Inr (kFlagRaw # data))"

definition decompress :: "zstd_lib \<Rightarrow> bytes \<Rightarrow> cache_error + bytes" where
  "decompress z data =
     (case data of
        [] \<Rightarrow> Inl (CacheError ''empty compression envelope'')
      | flag # payload \<Rightarrow>
          if flag = kFlagRaw then Inr payload
          else if flag = kFlagZstd
          then (if has_zstd z
                then (case ZSTD_getFrameContentSize z payload of
                        None \<Rightarrow> Inl (CacheError ''corrupt zstd frame in cache entry'')
                      | Some raw_size \<Rightarrow>
                          (case ZSTD_decompress z payload raw_size of
                             None \<Rightarrow> Inl (CacheError ''zstd decompression failed'')
                           | Some out \<Rightarrow>
                               if length out \<noteq> raw_size
                               then Inl (CacheError ''zstd decompression failed'')
                               else Inr out))
                else Inl (CacheError ''cache entry is zstd-compressed but reame was built without zstd''))
          else Inl (CacheError (''unknown compression envelope flag '' @ quoted [flag])))"

text \<open>
  What the code relies on of zstd (its documented simple API): a frame made by
  \<open>ZSTD_compress\<close> records the size of its content and decompresses to it.
\<close>

definition zstd_ok :: "zstd_lib \<Rightarrow> bool" where
  "zstd_ok z \<longleftrightarrow> (\<forall>d f. ZSTD_compress z d = Some f \<longrightarrow>
     ZSTD_getFrameContentSize z f = Some (length d) \<and> ZSTD_decompress z f (length d) = Some d)"

text \<open>The build without zstd, and its identity envelope.\<close>

definition no_zstd :: zstd_lib where
  "no_zstd = \<lparr>has_zstd = False, ZSTD_compress = (\<lambda>_. None),
     ZSTD_getFrameContentSize = (\<lambda>_. None), ZSTD_decompress = (\<lambda>_ _. None)\<rparr>"

lemma kFlag_distinct [simp]: "kFlagZstd \<noteq> kFlagRaw" "kFlagRaw \<noteq> kFlagZstd"
  by (simp_all add: kFlagZstd_def kFlagRaw_def)

lemma decompress_raw [simp]: "decompress z (kFlagRaw # d) = Inr d"
  by (simp add: decompress_def)

lemma decompress_compress:
  "zstd_ok z \<Longrightarrow> compress z d = Inr e \<Longrightarrow> decompress z e = Inr d"
  by (auto simp: compress_def decompress_def zstd_ok_def split: if_splits option.splits)

lemma compress_no_zstd [simp]: "compress no_zstd d = Inr (kFlagRaw # d)"
  by (simp add: compress_def no_zstd_def)

lemma zstd_ok_no_zstd [simp]: "zstd_ok no_zstd"
  by (simp add: zstd_ok_def no_zstd_def)

section \<open>The checksum detects every single-byte change\<close>

lemma fnv_prime_cancel:
  assumes "a * 0x100000001b3 = b * (0x100000001b3 :: u64)"
  shows "a = b"
proof -
  have "(a * 0x100000001b3) * 0xce965057aff6957b = (b * 0x100000001b3) * 0xce965057aff6957b"
    by (simp only: assms)
  then have "a * (0x100000001b3 * 0xce965057aff6957b) = b * (0x100000001b3 * 0xce965057aff6957b)"
    by (simp only: mult.assoc)
  moreover have "(0x100000001b3 * 0xce965057aff6957b :: u64) = 1"
    by (simp add: word_eq_iff_unsigned)
  ultimately show ?thesis by (simp only: mult_1_right)
qed

lemma xor_cancel_right: "a XOR x = b XOR x \<Longrightarrow> a = (b :: 'a::len word)"
proof -
  assume "a XOR x = b XOR x"
  then have "(a XOR x) XOR x = (b XOR x) XOR x" by (simp only:)
  then show ?thesis by (simp add: xor.assoc)
qed

lemma word_of_char_inject: "(word_of_nat (of_char c) :: u64) = word_of_nat (of_char d) \<longleftrightarrow> c = d"
proof
  assume "(word_of_nat (of_char c) :: u64) = word_of_nat (of_char d)"
  then have "unat (word_of_nat (of_char c) :: u64) = unat (word_of_nat (of_char d) :: u64)" by simp
  then have "(of_char c :: nat) = of_char d"
    using of_char_lt_256 [of c] of_char_lt_256 [of d] by (simp add: unat_of_nat del: of_char_lt_256)
  then show "c = d" by simp
qed simp

lemma fnv_step_inject: "fnv_step h c = fnv_step h' c \<longleftrightarrow> h = h'"
  unfolding fnv_step_def by (auto dest!: fnv_prime_cancel xor_cancel_right)

lemma fnv_step_char_inject: "fnv_step h c = fnv_step h d \<longleftrightarrow> c = d"
  unfolding fnv_step_def
  by (auto simp: xor.commute [of h] word_of_char_inject dest!: fnv_prime_cancel xor_cancel_right)

lemma foldl_fnv_inject: "foldl fnv_step h s = foldl fnv_step h' s \<longleftrightarrow> h = h'"
  by (induction s arbitrary: h h') (simp_all add: fnv_step_inject)

text \<open>
  Corruption of one byte is always caught: two entries that differ in exactly one byte
  never have the same checksum (the FNV prime is odd, so every step is a permutation of the
  64-bit states).
\<close>

theorem checksum_detects_byte_change:
  assumes "c \<noteq> d"
  shows "checksum (xs @ c # ys) \<noteq> checksum (xs @ d # ys)"
  using assms by (simp add: checksum_def foldl_fnv_inject fnv_step_char_inject)

theorem checksum_detects_byte_change_witness:
  "CHR ''a'' \<noteq> CHR ''b'' \<and> checksum (''x'' @ CHR ''a'' # ''y'') \<noteq> checksum (''x'' @ CHR ''b'' # ''y'')"
  using checksum_detects_byte_change [of "CHR ''a''" "CHR ''b''" "''x''" "''y''"] by simp

end
