(* ===== verification/Disk_Store.thy ===== *)
theory Disk_Store
  imports Cache_Serializer "HOL-Library.AList"
begin

text \<open>
  The LRU byte store on disk (\<open>src/src/cache/disk_cache_store.cpp\<close>). The directory is a map from
  file names to contents; whether a write succeeds is an input of \<open>put\<close>. The index
  (\<open>std::map<std::string, Entry>\<close>) is an association list with distinct keys.

  \<open>peek\<close> is what a reader would get for a key: the abstract content of the store. The main
  results are the contract of the store as a lossy map: a stored value is read back, no
  operation ever makes a key return bytes that were not stored under it (hash collisions of
  the file names included), the byte budget holds after every \<open>put\<close>, and eviction follows
  the recency order.
\<close>

section \<open>State and operations\<close>

record Entry =
  e_path :: bytes
  e_size :: nat
  e_recency :: nat

record DiskCacheStore =
  ds_max_bytes :: nat
  ds_entries :: "(bytes \<times> Entry) list"
  ds_total_bytes :: nat
  ds_next_recency :: nat
  ds_files :: "bytes \<rightharpoonup> bytes"

definition kHeaderLen :: nat where "kHeaderLen = 4"

definition hex_digit :: "u64 \<Rightarrow> char" where
  "hex_digit v = ''0123456789abcdef'' ! unat (v AND 0xF)"

text \<open>\<open>out[i] = digits[v & 0xF]\<close> for \<open>i\<close> from 15 down to 0, shifting \<open>v\<close> right by 4.\<close>

definition hex64 :: "u64 \<Rightarrow> bytes" where
  "hex64 v = map (\<lambda>i. hex_digit (drop_bit (4 * (15 - i)) v)) [0..<16]"

definition entry_size :: "bytes \<Rightarrow> nat \<Rightarrow> nat" where
  "entry_size key payload = kHeaderLen + length key + payload"

definition path_of :: "bytes \<Rightarrow> bytes" where
  "path_of key = hex64 (checksum key) @ ''.kvc''"

text \<open>The bytes \<open>put\<close> writes: the key length, the key, the payload.\<close>

definition file_image :: "bytes \<Rightarrow> bytes \<Rightarrow> bytes" where
  "file_image key data = le_bytes 4 (word_of_nat (length key) :: u32) @ key @ data"

text \<open>Key stored in a file, with the rest of the file; \<open>None\<close> when a read falls short.\<close>

definition read_key :: "bytes \<Rightarrow> (bytes \<times> bytes) option" where
  "read_key content =
     (if length content < 4 then None
      else let key_len = unat (read_le (take 4 content) :: u32)
           in if length (drop 4 content) < key_len then None
              else Some (take key_len (drop 4 content), drop key_len (drop 4 content)))"

definition remove :: "DiskCacheStore \<Rightarrow> bytes \<Rightarrow> bool \<times> DiskCacheStore" where
  "remove s key =
     (case map_of (ds_entries s) key of
        None \<Rightarrow> (False, s)
      | Some e \<Rightarrow>
          (True, s\<lparr>ds_files := (ds_files s)(e_path e := None),
                   ds_total_bytes := ds_total_bytes s - e_size e,
                   ds_entries := AList.delete key (ds_entries s)\<rparr>))"

text \<open>\<open>std::min_element\<close> by recency: the first of the least.\<close>

fun min_recency :: "bytes \<times> Entry \<Rightarrow> (bytes \<times> Entry) list \<Rightarrow> bytes \<times> Entry" where
  "min_recency best [] = best"
| "min_recency best (x # xs) =
     min_recency (if e_recency (snd x) < e_recency (snd best) then x else best) xs"

lemma min_recency_in: "min_recency b xs \<in> set (b # xs)"
  by (induction b xs rule: min_recency.induct) auto

lemma remove_shrinks:
  "map_of (ds_entries s) k = Some e \<Longrightarrow> length (ds_entries (snd (remove s k))) < length (ds_entries s)"
proof -
  assume m: "map_of (ds_entries s) k = Some e"
  then have "(k, e) \<in> set (ds_entries s)" by (rule map_of_SomeD)
  then have "length (filter (\<lambda>(k', _). k \<noteq> k') (ds_entries s)) < length (ds_entries s)"
    by (auto intro: length_filter_less)
  with m show ?thesis by (simp add: remove_def AList.delete_eq)
qed

function evict_loop :: "DiskCacheStore \<Rightarrow> nat \<Rightarrow> DiskCacheStore" where
  "evict_loop s incoming =
     (case ds_entries s of
        [] \<Rightarrow> s
      | x # xs \<Rightarrow>
          if ds_max_bytes s < ds_total_bytes s + incoming
          then evict_loop (snd (remove s (fst (min_recency x xs)))) incoming
          else s)"
  by pat_completeness auto
termination
proof (relation "measure (\<lambda>(s, _). length (ds_entries s))")
  fix s :: DiskCacheStore and incoming :: nat and x xs
  assume e: "ds_entries s = x # xs"
  have "fst (min_recency x xs) \<in> fst ` set (ds_entries s)"
    using min_recency_in [of x xs] e by auto
  then obtain v where "map_of (ds_entries s) (fst (min_recency x xs)) = Some v"
    by (metis map_of_eq_None_iff not_None_eq)
  from remove_shrinks [OF this]
  show "((snd (remove s (fst (min_recency x xs))), incoming), s, incoming)
      \<in> measure (\<lambda>(s, _). length (ds_entries s))" by simp
qed simp

declare evict_loop.simps [simp del]

definition evict_until_fits :: "DiskCacheStore \<Rightarrow> nat \<Rightarrow> DiskCacheStore" where
  "evict_until_fits s incoming = (if ds_max_bytes s = 0 then s else evict_loop s incoming)"

text \<open>\<open>write_ok\<close>: whether the stream is good after the three writes (a full disk makes it bad).\<close>

definition put :: "bool \<Rightarrow> DiskCacheStore \<Rightarrow> bytes \<Rightarrow> bytes \<Rightarrow> bool \<times> DiskCacheStore" where
  "put write_ok s key data =
     (let incoming = entry_size key (length data)
      in if ds_max_bytes s \<noteq> 0 \<and> ds_max_bytes s < incoming then (False, s)
         else
           let s1 = snd (remove s key);
               s2 = evict_until_fits s1 incoming;
               path = path_of key
           in if \<not> write_ok then (False, s2\<lparr>ds_files := (ds_files s2)(path := None)\<rparr>)
              else (True, s2\<lparr>ds_files := (ds_files s2)(path \<mapsto> file_image key data),
                             ds_total_bytes := ds_total_bytes s2 + incoming,
                             ds_entries := AList.update key
                               \<lparr>e_path = path, e_size = incoming, e_recency = ds_next_recency s2\<rparr>
                               (ds_entries s2),
                             ds_next_recency := ds_next_recency s2 + 1\<rparr>))"

text \<open>What reading the file of an entry yields for the key.\<close>

definition read_entry :: "(bytes \<rightharpoonup> bytes) \<Rightarrow> bytes \<Rightarrow> Entry \<Rightarrow> bytes option" where
  "read_entry files key e =
     (case files (e_path e) of
        None \<Rightarrow> None
      | Some content \<Rightarrow>
          (case read_key content of
             None \<Rightarrow> None
           | Some (stored_key, rest) \<Rightarrow>
               if stored_key \<noteq> key then None
               else if length rest < e_size e - kHeaderLen - length key then None
               else Some (take (e_size e - kHeaderLen - length key) rest)))"

definition get :: "DiskCacheStore \<Rightarrow> bytes \<Rightarrow> bytes option \<times> DiskCacheStore" where
  "get s key =
     (case map_of (ds_entries s) key of
        None \<Rightarrow> (None, s)
      | Some e \<Rightarrow>
          (case read_entry (ds_files s) key e of
             None \<Rightarrow> (None, snd (remove s key))
           | Some payload \<Rightarrow>
               (Some payload,
                s\<lparr>ds_entries := AList.update key (e\<lparr>e_recency := ds_next_recency s\<rparr>) (ds_entries s),
                  ds_next_recency := ds_next_recency s + 1\<rparr>)))"

definition contains :: "DiskCacheStore \<Rightarrow> bytes \<Rightarrow> bool" where
  "contains s key \<longleftrightarrow> map_of (ds_entries s) key \<noteq> None"

function clear :: "DiskCacheStore \<Rightarrow> DiskCacheStore" where
  "clear s = (case ds_entries s of [] \<Rightarrow> s | x # _ \<Rightarrow> clear (snd (remove s (fst x))))"
  by pat_completeness auto
termination
proof (relation "measure (\<lambda>s. length (ds_entries s))")
  fix s :: DiskCacheStore and x xs
  assume "ds_entries s = x # xs"
  then have "map_of (ds_entries s) (fst x) = Some (snd x)" by (cases x) simp
  from remove_shrinks [OF this]
  show "(snd (remove s (fst x)), s) \<in> measure (\<lambda>s. length (ds_entries s))" by simp
qed simp

declare clear.simps [simp del]

definition size_bytes :: "DiskCacheStore \<Rightarrow> nat" where
  "size_bytes s = ds_total_bytes s"

definition count :: "DiskCacheStore \<Rightarrow> nat" where
  "count s = length (ds_entries s)"

section \<open>Opening a directory\<close>

text \<open>A directory item: its name, its content and its modification time.\<close>

record dir_item =
  it_name :: bytes
  it_regular :: bool
  it_content :: bytes
  it_mtime :: nat

definition has_kvc_extension :: "bytes \<Rightarrow> bool" where
  "has_kvc_extension name \<longleftrightarrow> length name > 4 \<and> drop (length name - 4) name = ''.kvc''"

text \<open>The key of an item the scan accepts.\<close>

definition item_key :: "dir_item \<Rightarrow> bytes option" where
  "item_key it =
     (if \<not> it_regular it \<or> \<not> has_kvc_extension (it_name it) then None
      else if length (it_content it) < 4 then None
      else if 4096 < unat (read_le (take 4 (it_content it)) :: u32) then None
      else map_option fst (read_key (it_content it)))"

definition scan_item :: "DiskCacheStore \<times> (nat \<times> bytes) list \<Rightarrow> dir_item
    \<Rightarrow> DiskCacheStore \<times> (nat \<times> bytes) list" where
  "scan_item st it =
     (case item_key it of
        None \<Rightarrow> st
      | Some key \<Rightarrow>
          let (s, found) = st;
              e = \<lparr>e_path = it_name it, e_size = length (it_content it), e_recency = 0\<rparr>
          in (s\<lparr>ds_total_bytes := ds_total_bytes s + e_size e,
                ds_entries := (if map_of (ds_entries s) key = None
                               then ds_entries s @ [(key, e)] else ds_entries s)\<rparr>,
              found @ [(it_mtime it, key)]))"

text \<open>\<open>std::sort\<close> on \<open>(mtime, key)\<close> pairs: by time, then by the unsigned bytes of the key.\<close>

fun lex_less :: "nat list \<Rightarrow> nat list \<Rightarrow> bool" where
  "lex_less _ [] \<longleftrightarrow> False"
| "lex_less [] (_ # _) \<longleftrightarrow> True"
| "lex_less (x # xs) (y # ys) \<longleftrightarrow> x < y \<or> (x = y \<and> lex_less xs ys)"

definition found_less :: "nat \<times> bytes \<Rightarrow> nat \<times> bytes \<Rightarrow> bool" where
  "found_less a b \<longleftrightarrow> fst a < fst b \<or>
     (fst a = fst b \<and> lex_less (map of_char (snd a)) (map of_char (snd b)))"

fun insert_found :: "nat \<times> bytes \<Rightarrow> (nat \<times> bytes) list \<Rightarrow> (nat \<times> bytes) list" where
  "insert_found x [] = [x]"
| "insert_found x (y # ys) = (if found_less y x then y # insert_found x ys else x # y # ys)"

definition sort_found :: "(nat \<times> bytes) list \<Rightarrow> (nat \<times> bytes) list" where
  "sort_found xs = foldr insert_found xs []"

definition seed_recency :: "DiskCacheStore \<Rightarrow> nat \<times> bytes \<Rightarrow> DiskCacheStore" where
  "seed_recency s f =
     (case map_of (ds_entries s) (snd f) of
        None \<Rightarrow> s
      | Some e \<Rightarrow>
          s\<lparr>ds_entries := AList.update (snd f) (e\<lparr>e_recency := ds_next_recency s\<rparr>) (ds_entries s),
            ds_next_recency := ds_next_recency s + 1\<rparr>)"

definition DiskCacheStore_open :: "nat \<Rightarrow> dir_item list \<Rightarrow> DiskCacheStore" where
  "DiskCacheStore_open max_bytes items =
     (let s0 = \<lparr>ds_max_bytes = max_bytes, ds_entries = [], ds_total_bytes = 0,
                ds_next_recency = 1,
                ds_files = map_of (map (\<lambda>it. (it_name it, it_content it)) (filter it_regular items))\<rparr>;
          (s1, found) = foldl scan_item (s0, []) items
      in foldl seed_recency s1 (sort_found found))"


section \<open>Well-formedness\<close>

definition store_wf :: "DiskCacheStore \<Rightarrow> bool" where
  "store_wf s \<longleftrightarrow>
     distinct (map fst (ds_entries s)) \<and>
     ds_total_bytes s = sum_list (map (e_size \<circ> snd) (ds_entries s)) \<and>
     (\<forall>x \<in> set (ds_entries s). e_recency (snd x) < ds_next_recency s) \<and>
     distinct (map (e_recency \<circ> snd) (ds_entries s))"

lemma delete_absent: "map_of xs k = None \<Longrightarrow> AList.delete k xs = xs"
  by (induction xs) (auto simp: AList.delete_eq split: if_splits)

lemma update_delete_perm:
  "distinct (map fst xs) \<Longrightarrow> map_of xs k = Some e \<Longrightarrow>
     sum_list (map (f \<circ> snd) xs) = f e + sum_list (map (f \<circ> snd) (AList.delete k xs))"
  for f :: "Entry \<Rightarrow> nat"
proof (induction xs)
  case (Cons x xs)
  show ?case
  proof (cases "fst x = k")
    case True
    with Cons.prems have "x = (k, e)" "map_of xs k = None"
      by (cases x, auto simp: map_of_eq_None_iff)+
    then show ?thesis by (simp add: delete_absent)
  next
    case False
    with Cons show ?thesis by (cases x) auto
  qed
qed simp

lemma set_delete: "set (AList.delete k xs) = {x \<in> set xs. fst x \<noteq> k}"
  by (auto simp: AList.delete_eq)

lemma distinct_map_delete:
  "distinct (map f xs) \<Longrightarrow> distinct (map f (AList.delete k xs))"
  by (simp add: AList.delete_eq distinct_map_filter)

lemma remove_wf [reame_inv]: "store_wf s \<Longrightarrow> store_wf (snd (remove s k))"
proof (cases "map_of (ds_entries s) k")
  case (Some e)
  assume wf: "store_wf s"
  then have "distinct (map fst (ds_entries s))" by (simp add: store_wf_def)
  from update_delete_perm [OF this Some, of e_size] wf Some show ?thesis
    by (auto simp: store_wf_def remove_def set_delete distinct_map_delete)
qed (simp add: remove_def)

lemma remove_max [simp]: "ds_max_bytes (snd (remove s k)) = ds_max_bytes s"
  by (simp add: remove_def split: option.split)

lemma remove_next [simp]: "ds_next_recency (snd (remove s k)) = ds_next_recency s"
  by (simp add: remove_def split: option.split)

lemma remove_entries: "ds_entries (snd (remove s k)) = AList.delete k (ds_entries s)"
  by (simp add: remove_def delete_absent split: option.split)

lemma remove_subset: "set (ds_entries (snd (remove s k))) \<subseteq> set (ds_entries s)"
  by (auto simp: remove_entries set_delete)

lemma remove_mapof [simp]: "map_of (ds_entries (snd (remove s k))) = (map_of (ds_entries s))(k := None)"
  by (simp add: remove_entries AList.delete_conv')

lemma min_recency_le: "x \<in> set (b # xs) \<Longrightarrow> e_recency (snd (min_recency b xs)) \<le> e_recency (snd x)"
  by (induction b xs arbitrary: x rule: min_recency.induct) (fastforce split: if_splits)+

text \<open>Induction over an eviction run: either it stops, or the least recent entry goes first.\<close>

lemma evict_loop_induct [case_names stop evict]:
  assumes "\<And>s. ds_entries s = [] \<or> ds_total_bytes s + n \<le> ds_max_bytes s \<Longrightarrow> P s"
    and "\<And>s x xs. ds_entries s = x # xs \<Longrightarrow> ds_max_bytes s < ds_total_bytes s + n \<Longrightarrow>
          P (snd (remove s (fst (min_recency x xs)))) \<Longrightarrow> P s"
  shows "P s"
proof (induction "length (ds_entries s)" arbitrary: s rule: less_induct)
  case less
  show ?case
  proof (cases "ds_entries s = [] \<or> ds_total_bytes s + n \<le> ds_max_bytes s")
    case False
    then obtain x xs where e: "ds_entries s = x # xs" by (cases "ds_entries s") auto
    then have "fst (min_recency x xs) \<in> fst ` set (ds_entries s)"
      using min_recency_in [of x xs] by auto
    then obtain v where "map_of (ds_entries s) (fst (min_recency x xs)) = Some v"
      by (metis map_of_eq_None_iff not_None_eq)
    from less [OF remove_shrinks [OF this]] assms(2) [OF e] False show ?thesis by simp
  qed (rule assms(1))
qed

lemma evict_loop_stop:
  "ds_entries s = [] \<or> ds_total_bytes s + n \<le> ds_max_bytes s \<Longrightarrow> evict_loop s n = s"
  by (auto simp: evict_loop.simps [of s] split: list.split)

lemma evict_loop_evict:
  "ds_entries s = x # xs \<Longrightarrow> ds_max_bytes s < ds_total_bytes s + n \<Longrightarrow>
     evict_loop s n = evict_loop (snd (remove s (fst (min_recency x xs)))) n"
  by (simp add: evict_loop.simps [of s])

lemmas evict_loop_steps = evict_loop_stop evict_loop_evict

lemma evict_loop_frame:
  "ds_max_bytes (evict_loop s n) = ds_max_bytes s \<and> ds_next_recency (evict_loop s n) = ds_next_recency s"
  by (induction s rule: evict_loop_induct [of n]) (simp_all add: evict_loop_steps)

lemma evict_loop_wf [reame_inv]: "store_wf s \<Longrightarrow> store_wf (evict_loop s n)"
  by (induction s rule: evict_loop_induct [of n]) (simp_all add: evict_loop_steps remove_wf)

lemma evict_loop_fits:
  "store_wf s \<Longrightarrow> n \<le> ds_max_bytes s \<Longrightarrow> ds_total_bytes (evict_loop s n) + n \<le> ds_max_bytes s"
proof (induction s rule: evict_loop_induct [of n])
  case (stop s)
  then show ?case by (auto simp: evict_loop_stop store_wf_def)
next
  case (evict s x xs)
  then show ?case by (simp add: evict_loop_evict remove_wf)
qed

lemma evict_loop_subset: "set (ds_entries (evict_loop s n)) \<subseteq> set (ds_entries s)"
proof (induction s rule: evict_loop_induct [of n])
  case (evict s x xs)
  then show ?case using remove_subset [of s] by (metis evict_loop_evict subset_trans)
qed (simp add: evict_loop_stop)

lemma evict_loop_lru:
  "store_wf s \<Longrightarrow> a \<in> set (ds_entries s) \<Longrightarrow> a \<notin> set (ds_entries (evict_loop s n)) \<Longrightarrow>
     b \<in> set (ds_entries (evict_loop s n)) \<Longrightarrow> e_recency (snd a) < e_recency (snd b)"
proof (induction s rule: evict_loop_induct [of n])
  case (stop s)
  then show ?case by (simp add: evict_loop_stop)
next
  case (evict s x xs)
  let ?m = "min_recency x xs"
  let ?s' = "snd (remove s (fst ?m))"
  have sub: "b \<in> set (ds_entries ?s')"
    using evict.prems(4) evict.hyps evict_loop_subset by (auto simp: evict_loop_evict)
  show ?case
  proof (cases "fst a = fst ?m")
    case True
    have "?m \<in> set (ds_entries s)" using min_recency_in [of x xs] evict.hyps by simp
    with True evict.prems(1,2) have am: "a = ?m"
      unfolding store_wf_def by (metis eq_key_imp_eq_value prod.collapse)
    have b: "b \<in> set (ds_entries s)" "b \<noteq> ?m" using sub by (auto simp: remove_entries set_delete)
    then have "e_recency (snd b) \<noteq> e_recency (snd ?m)"
      using evict.prems(1) \<open>?m \<in> set (ds_entries s)\<close>
      unfolding store_wf_def distinct_map inj_on_def by auto
    with min_recency_le [of b x xs] b evict.hyps am show ?thesis by fastforce
  next
    case False
    then have "a \<in> set (ds_entries ?s')"
      using evict.prems(2) by (simp add: remove_entries set_delete)
    with evict.IH evict.prems evict.hyps show ?thesis
      by (simp add: evict_loop_evict remove_wf)
  qed
qed


section \<open>What a reader sees\<close>

definition peek :: "DiskCacheStore \<Rightarrow> bytes \<rightharpoonup> bytes" where
  "peek s key = (case map_of (ds_entries s) key of
                   None \<Rightarrow> None | Some e \<Rightarrow> read_entry (ds_files s) key e)"

text \<open>Keys whose length fits the 32-bit header of the file.\<close>

definition ok_key :: "bytes \<Rightarrow> bool" where
  "ok_key key \<longleftrightarrow> length key < 2 ^ 32"

lemma length_file_image: "length (file_image key data) = 4 + length key + length data"
  by (simp add: file_image_def)

lemma read_key_file_image [simp]: "ok_key key \<Longrightarrow> read_key (file_image key data) = Some (key, data)"
  by (simp add: read_key_def file_image_def read_le_le_bytes ok_key_def unat_of_nat Let_def
      take_bit_word_eq_self)

lemma read_entry_delete:
  "read_entry (files(p := None)) k e = Some d \<Longrightarrow> read_entry files k e = Some d"
  by (auto simp: read_entry_def split: if_splits option.splits)

lemma read_entry_write:
  assumes "ok_key key" and "k \<noteq> key"
    and "read_entry (files(p \<mapsto> file_image key data)) k e = Some d"
  shows "read_entry files k e = Some d"
  using assms by (auto simp: read_entry_def split: if_splits option.splits)

lemma peek_delete_file: "peek (s\<lparr>ds_files := (ds_files s)(p := None)\<rparr>) \<subseteq>\<^sub>m peek s"
  by (auto simp: map_le_iff peek_def split: option.splits dest: read_entry_delete)

lemma remove_peek: "peek (snd (remove s k)) \<subseteq>\<^sub>m (peek s)(k := None)"
  by (auto simp: map_le_iff peek_def remove_def AList.delete_conv' split: option.splits if_splits
      dest: read_entry_delete)

lemma map_le_upd_None: "(m(k := None)) \<subseteq>\<^sub>m m"
  by (simp add: map_le_iff)

lemma remove_peek_le: "peek (snd (remove s k)) \<subseteq>\<^sub>m peek s"
  using remove_peek map_le_upd_None by (rule map_le_trans)

lemma evict_loop_peek: "peek (evict_loop s n) \<subseteq>\<^sub>m peek s"
proof (induction s rule: evict_loop_induct [of n])
  case (evict s x xs)
  then show ?case using remove_peek_le map_le_trans by (metis evict_loop_evict)
qed (simp add: evict_loop_stop)

lemma evict_peek: "peek (evict_until_fits s n) \<subseteq>\<^sub>m peek s"
  by (simp add: evict_until_fits_def evict_loop_peek)

lemma put_peek_same:
  "put w s key data = (True, s') \<Longrightarrow> ok_key key \<Longrightarrow> peek s' key = Some data"
  by (auto simp: put_def Let_def peek_def read_entry_def AList.update_conv' entry_size_def
      split: if_splits)

lemma put_peek_other:
  assumes "put w s key data = (b, s')" and "ok_key key" and "k \<noteq> key" and "peek s' k = Some d"
  shows "peek s k = Some d"
proof -
  define s2 where "s2 = evict_until_fits (snd (remove s key)) (entry_size key (length data))"
  have le: "peek s2 \<subseteq>\<^sub>m peek s"
    unfolding s2_def using evict_peek remove_peek_le by (rule map_le_trans)
  have "peek s k = Some d \<or> peek s2 k = Some d"
    using assms
    by (auto simp: put_def Let_def s2_def [symmetric] peek_def AList.update_conv'
        split: if_splits option.splits dest: read_entry_delete read_entry_write)
  with le show ?thesis by (auto dest: map_leD)
qed

lemma put_peek_fail:
  assumes "put w s key data = (False, s')"
  shows "peek s' \<subseteq>\<^sub>m peek s"
proof -
  define s2 where "s2 = evict_until_fits (snd (remove s key)) (entry_size key (length data))"
  have le: "peek s2 \<subseteq>\<^sub>m peek s"
    unfolding s2_def using evict_peek remove_peek_le by (rule map_le_trans)
  have "s' = s \<or> s' = s2\<lparr>ds_files := (ds_files s2)(path_of key := None)\<rparr>"
    using assms by (auto simp: put_def Let_def s2_def [symmetric] split: if_splits)
  then show ?thesis using le peek_delete_file map_le_trans by fastforce
qed

lemma read_entry_recency [simp]: "read_entry f k (e\<lparr>e_recency := r\<rparr>) = read_entry f k e"
  by (simp add: read_entry_def split: option.split)

lemma get_peek_hit: "get s k = (Some d, s') \<Longrightarrow> peek s' = peek s"
  by (auto simp: get_def peek_def AList.update_conv' fun_eq_iff split: option.splits if_splits)

lemma get_peek: "get s k = (r, s') \<Longrightarrow> r = peek s k \<and> peek s' \<subseteq>\<^sub>m peek s"
proof (cases r)
  case None
  assume "get s k = (r, s')"
  with None show ?thesis by (auto simp: get_def peek_def remove_peek_le split: option.splits)
next
  case (Some d)
  assume g: "get s k = (r, s')"
  with Some get_peek_hit [of s k d s'] have "peek s' = peek s" by simp
  with g Some show ?thesis by (auto simp: get_def peek_def [of s k] split: option.splits)
qed

section \<open>The contract of a lossy byte store\<close>

text \<open>
  What the clients of the store (the archive and the KV-cache manager) rely on: a value that
  was stored is read back, entries may disappear, and nothing is invented.
\<close>

locale lossy_store =
  fixes lookup :: "'s \<Rightarrow> bytes \<rightharpoonup> bytes"
    and s_put :: "bool \<Rightarrow> 's \<Rightarrow> bytes \<Rightarrow> bytes \<Rightarrow> bool \<times> 's"
    and s_get :: "'s \<Rightarrow> bytes \<Rightarrow> bytes option \<times> 's"
    and s_remove :: "'s \<Rightarrow> bytes \<Rightarrow> bool \<times> 's"
    and key_ok :: "bytes \<Rightarrow> bool"
  assumes put_same: "s_put w s k d = (True, s') \<Longrightarrow> key_ok k \<Longrightarrow> lookup s' k = Some d"
    and put_other: "s_put w s k d = (b, s') \<Longrightarrow> key_ok k \<Longrightarrow> k' \<noteq> k \<Longrightarrow>
          lookup s' k' = Some d' \<Longrightarrow> lookup s k' = Some d'"
    and put_fail: "s_put w s k d = (False, s') \<Longrightarrow> lookup s' \<subseteq>\<^sub>m lookup s"
    and get_spec: "s_get s k = (r, s') \<Longrightarrow> r = lookup s k \<and> lookup s' \<subseteq>\<^sub>m lookup s"
    and get_hit: "s_get s k = (Some d, s') \<Longrightarrow> lookup s' = lookup s"
    and remove_spec: "lookup (snd (s_remove s k)) \<subseteq>\<^sub>m (lookup s)(k := None)"
begin

text \<open>A ghost map bounds what the store can return: the coherence its clients keep.\<close>

definition coherent :: "(bytes \<rightharpoonup> bytes) \<Rightarrow> 's \<Rightarrow> bool" where
  "coherent g s \<longleftrightarrow> lookup s \<subseteq>\<^sub>m g"

lemma coherent_put:
  assumes "coherent g s" and "key_ok k" and "s_put w s k d = (b, s')"
  shows "coherent (if b then g(k \<mapsto> d) else g) s'"
proof (cases b)
  case True
  have "lookup s' \<subseteq>\<^sub>m g(k \<mapsto> d)"
    using assms True put_same [of w s k d s'] put_other [of w s k d b s']
    by (auto simp: coherent_def map_le_iff)
  with True show ?thesis by (simp add: coherent_def)
next
  case False
  with assms have "lookup s' \<subseteq>\<^sub>m lookup s" using put_fail by simp
  with assms(1) False show ?thesis by (auto simp: coherent_def intro: map_le_trans)
qed

lemma coherent_get: "coherent g s \<Longrightarrow> s_get s k = (r, s') \<Longrightarrow> coherent g s'"
  using get_spec map_le_trans unfolding coherent_def by blast

lemma coherent_get_value: "coherent g s \<Longrightarrow> s_get s k = (Some d, s') \<Longrightarrow> g k = Some d"
  using get_spec [of s k "Some d" s'] by (auto simp: coherent_def dest: map_leD [of _ _ k d])

lemma coherent_remove: "coherent g s \<Longrightarrow> coherent (g(k := None)) (snd (s_remove s k))"
  using remove_spec [of s k] unfolding coherent_def map_le_iff by (auto split: if_splits)

end

interpretation disk: lossy_store peek put get remove ok_key
proof
  show "put w s k d = (True, s') \<Longrightarrow> ok_key k \<Longrightarrow> peek s' k = Some d" for w s k d s'
    by (rule put_peek_same)
  show "put w s k d = (b, s') \<Longrightarrow> ok_key k \<Longrightarrow> k' \<noteq> k \<Longrightarrow> peek s' k' = Some d' \<Longrightarrow> peek s k' = Some d'"
    for w s k d b s' k' d' by (rule put_peek_other)
  show "put w s k d = (False, s') \<Longrightarrow> peek s' \<subseteq>\<^sub>m peek s" for w s k d s'
    by (rule put_peek_fail)
  show "get s k = (r, s') \<Longrightarrow> r = peek s k \<and> peek s' \<subseteq>\<^sub>m peek s" for s k r s'
    by (rule get_peek)
  show "get s k = (Some d, s') \<Longrightarrow> peek s' = peek s" for s k d s'
    by (rule get_peek_hit)
  show "peek (snd (remove s k)) \<subseteq>\<^sub>m (peek s)(k := None)" for s k
    by (rule remove_peek)
qed


section \<open>Every operation keeps the store well-formed and within budget\<close>

lemma evict_until_fits_wf [reame_inv]: "store_wf s \<Longrightarrow> store_wf (evict_until_fits s n)"
  by (simp add: evict_until_fits_def evict_loop_wf)

lemma evict_until_fits_frame [simp]:
  "ds_max_bytes (evict_until_fits s n) = ds_max_bytes s"
  "ds_next_recency (evict_until_fits s n) = ds_next_recency s"
  by (simp_all add: evict_until_fits_def evict_loop_frame)

lemma evict_until_fits_subset: "set (ds_entries (evict_until_fits s n)) \<subseteq> set (ds_entries s)"
  by (simp add: evict_until_fits_def evict_loop_subset)

lemma update_fresh: "map_of xs k = None \<Longrightarrow> AList.update k v xs = xs @ [(k, v)]"
  by (induction xs) (auto split: if_splits)

lemma evict_absent:
  "map_of (ds_entries s) k = None \<Longrightarrow> map_of (ds_entries (evict_until_fits s n)) k = None"
  using evict_until_fits_subset [of s n] by (fastforce simp: map_of_eq_None_iff)

lemma put_wf [reame_inv]: "store_wf s \<Longrightarrow> store_wf (snd (put w s key data))"
proof -
  assume wf: "store_wf s"
  define s2 where "s2 = evict_until_fits (snd (remove s key)) (entry_size key (length data))"
  have wf2: "store_wf s2" unfolding s2_def using wf by (intro evict_until_fits_wf remove_wf)
  have fresh: "map_of (ds_entries s2) key = None" unfolding s2_def by (rule evict_absent) simp
  have "key \<notin> fst ` set (ds_entries s2)" using fresh by (simp add: map_of_eq_None_iff)
  with wf wf2 show ?thesis
    by (auto simp: put_def Let_def s2_def [symmetric] store_wf_def update_fresh [OF fresh])
qed

lemma update_existing_sum:
  "distinct (map fst xs) \<Longrightarrow> map_of xs k = Some e \<Longrightarrow> f v = f e \<Longrightarrow>
     sum_list (map (f \<circ> snd) (AList.update k v xs)) = sum_list (map (f \<circ> snd) xs)"
  for f :: "Entry \<Rightarrow> nat"
  by (induction xs) (auto split: if_splits)

lemma update_existing_mem:
  "x \<in> set (AList.update k v xs) \<Longrightarrow> x \<in> set xs \<or> x = (k, v)"
  by (induction xs) (auto split: if_splits)

lemma update_existing_distinct:
  "distinct (map (f \<circ> snd) xs) \<Longrightarrow> f v \<notin> (f \<circ> snd) ` set xs \<Longrightarrow>
     distinct (map (f \<circ> snd) (AList.update k v xs))"
proof (induction xs)
  case (Cons x xs)
  have "f (snd x) \<notin> (f \<circ> snd) ` set (AList.update k v xs)"
  proof
    assume "f (snd x) \<in> (f \<circ> snd) ` set (AList.update k v xs)"
    then obtain y where y: "y \<in> set (AList.update k v xs)" "f (snd y) = f (snd x)" by auto
    from update_existing_mem [OF y(1)] y(2) Cons.prems show False by (auto simp: image_iff)
  qed
  with Cons show ?case by (cases x) auto
qed simp

lemma get_wf [reame_inv]: "store_wf s \<Longrightarrow> store_wf (snd (get s key))"
proof (cases "fst (get s key)")
  case None
  assume "store_wf s"
  with None show ?thesis by (auto simp: get_def remove_wf split: option.splits)
next
  case (Some d)
  assume wf: "store_wf s"
  from Some obtain e where e: "map_of (ds_entries s) key = Some e"
    and g: "snd (get s key) = s\<lparr>ds_entries := AList.update key (e\<lparr>e_recency := ds_next_recency s\<rparr>)
        (ds_entries s), ds_next_recency := ds_next_recency s + 1\<rparr>"
    by (auto simp: get_def split: option.splits)
  have "distinct (map (e_recency \<circ> snd)
      (AList.update key (e\<lparr>e_recency := ds_next_recency s\<rparr>) (ds_entries s)))"
    using wf by (intro update_existing_distinct) (auto simp: store_wf_def)
  moreover have "sum_list (map (e_size \<circ> snd)
      (AList.update key (e\<lparr>e_recency := ds_next_recency s\<rparr>) (ds_entries s))) =
      sum_list (map (e_size \<circ> snd) (ds_entries s))"
    using wf e by (intro update_existing_sum) (auto simp: store_wf_def)
  moreover have "e_recency (snd x) < ds_next_recency s + 1"
    if "x \<in> set (AList.update key (e\<lparr>e_recency := ds_next_recency s\<rparr>) (ds_entries s))" for x
    using that update_existing_mem [OF that] wf by (auto simp: store_wf_def)
  ultimately show ?thesis
    using wf g by (auto simp: store_wf_def AList.distinct_update)
qed

section \<open>Histories of operations\<close>

datatype store_op = Put bool bytes bytes | Get bytes | Remove bytes

fun op_ok :: "store_op \<Rightarrow> bool" where
  "op_ok (Put _ k _) = ok_key k"
| "op_ok _ = True"

text \<open>One operation on the store and on the ghost map of what was last stored under each key.\<close>

fun store_step :: "DiskCacheStore \<times> (bytes \<rightharpoonup> bytes) \<Rightarrow> store_op \<Rightarrow> DiskCacheStore \<times> (bytes \<rightharpoonup> bytes)"
where
  "store_step (s, g) (Put w k d) = (case put w s k d of (b, s') \<Rightarrow> (s', if b then g(k \<mapsto> d) else g))"
| "store_step (s, g) (Get k) = (snd (get s k), g)"
| "store_step (s, g) (Remove k) = (snd (remove s k), g(k := None))"

lemma store_step_inv:
  assumes "store_wf s" and "disk.coherent g s" and "op_ok x" and "store_step (s, g) x = (s', g')"
  shows "store_wf s' \<and> disk.coherent g' s'"
proof (cases x)
  case (Put w k d)
  obtain b s2 where p: "put w s k d = (b, s2)" by fastforce
  from put_wf [OF assms(1), of w k d] p disk.coherent_put [OF assms(2) _ p] Put assms(3,4)
  show ?thesis by (auto split: if_splits)
next
  case (Get k)
  with assms get_wf disk.coherent_get [OF assms(2), of k] show ?thesis
    by (cases "get s k") (auto, metis snd_conv)
next
  case (Remove k)
  with assms remove_wf disk.coherent_remove [OF assms(2), of k] show ?thesis by auto
qed

lemma store_run_inv:
  "store_wf s \<Longrightarrow> disk.coherent g s \<Longrightarrow> list_all op_ok ops \<Longrightarrow>
     foldl store_step (s, g) ops = (s', g') \<Longrightarrow> store_wf s' \<and> disk.coherent g' s'"
proof (induction ops arbitrary: s g)
  case (Cons x ops)
  obtain s2 g2 where st: "store_step (s, g) x = (s2, g2)" by fastforce
  from store_step_inv [OF Cons.prems(1,2) _ st] Cons.prems(3)
  have "store_wf s2" "disk.coherent g2 s2" by simp_all
  with Cons st show ?case by simp
qed simp

definition empty_store :: "nat \<Rightarrow> DiskCacheStore" where
  "empty_store m = DiskCacheStore_open m []"

lemma empty_store_inv: "store_wf (empty_store m)" "disk.coherent Map.empty (empty_store m)"
  by (simp_all add: empty_store_def DiskCacheStore_open_def sort_found_def store_wf_def
      disk.coherent_def map_le_iff peek_def)


section \<open>Properties\<close>

text \<open>
  A successful \<open>put\<close> is read back: \<open>get\<close> returns the bytes just stored, whatever the
  store held before and whatever was evicted to make room.
\<close>

theorem put_get_roundtrip:
  assumes "put w s key data = (True, s')" and "ok_key key"
  shows "fst (get s' key) = Some data"
proof -
  obtain r s2 where g: "get s' key = (r, s2)" by fastforce
  from disk.get_spec [OF g] disk.put_same [OF assms] g show ?thesis by simp
qed

theorem put_get_roundtrip_witness:
  "put True (empty_store 100) ''k'' ''v'' = (True, snd (put True (empty_store 100) ''k'' ''v'')) \<and>
   fst (get (snd (put True (empty_store 100) ''k'' ''v'')) ''k'') = Some ''v''"
proof -
  have p: "put True (empty_store 100) ''k'' ''v'' = (True, snd (put True (empty_store 100) ''k'' ''v''))"
    by (simp add: put_def Let_def empty_store_def DiskCacheStore_open_def entry_size_def kHeaderLen_def
        sort_found_def)
  have k: "ok_key ''k''" by (simp add: ok_key_def)
  show ?thesis using p put_get_roundtrip [OF p k] by simp
qed

text \<open>
  C14. The store never invents data. After any sequence of operations on a fresh store
  (failed writes, evictions and file-name hash collisions included), whatever \<open>get\<close> returns
  for a key is the value last stored under that key and not removed since.
\<close>

theorem store_returns_last_stored:
  assumes "list_all op_ok ops" and "foldl store_step (empty_store m, Map.empty) ops = (s, g)"
    and "fst (get s key) = Some d"
  shows "g key = Some d"
proof -
  from store_run_inv [OF empty_store_inv assms(1,2)] have "disk.coherent g s" by simp
  moreover obtain s2 where "get s key = (Some d, s2)" using assms(3) by (cases "get s key") auto
  ultimately show ?thesis by (rule disk.coherent_get_value)
qed

theorem store_returns_last_stored_witness:
  "\<exists>s g. foldl store_step (empty_store 0, Map.empty) [Put True ''k'' ''a'', Put True ''k'' ''b''] = (s, g) \<and>
     fst (get s ''k'') = Some ''b'' \<and> g ''k'' = Some ''b''"
proof -
  let ?ops = "[Put True ''k'' ''a'', Put True ''k'' ''b'']"
  have ok: "list_all op_ok ?ops" by (simp add: ok_key_def)
  have put0: "\<exists>s'. put True s ''k'' d = (True, s') \<and> ds_max_bytes s' = 0" if "ds_max_bytes s = 0" for s d
    using that by (simp add: put_def Let_def)
  have m: "ds_max_bytes (empty_store 0) = 0"
    by (simp add: empty_store_def DiskCacheStore_open_def sort_found_def)
  then obtain s1 where p1: "put True (empty_store 0) ''k'' ''a'' = (True, s1)" "ds_max_bytes s1 = 0"
    using put0 by blast
  then obtain s2 where p2: "put True s1 ''k'' ''b'' = (True, s2)" using put0 by blast
  obtain g where run: "foldl store_step (empty_store 0, Map.empty) ?ops = (s2, g)"
    using p1(1) p2 by simp
  obtain r s3 where g3: "get s2 ''k'' = (r, s3)" by fastforce
  have "fst (get s2 ''k'') = Some ''b''"
    using disk.get_spec [OF g3] disk.put_same [OF p2] g3 by (simp add: ok_key_def)
  with run store_returns_last_stored [OF ok run this] show ?thesis by blast
qed

text \<open>
  The byte budget: after a successful \<open>put\<close> into a well-formed store with a budget, the
  accounted bytes are the sum of the entry sizes and do not exceed the budget.
\<close>

theorem put_within_budget:
  assumes "store_wf s" and "ds_max_bytes s \<noteq> 0" and "put w s key data = (True, s')"
  shows "size_bytes s' = sum_list (map (e_size \<circ> snd) (ds_entries s')) \<and>
         size_bytes s' \<le> ds_max_bytes s'"
proof -
  let ?n = "entry_size key (length data)"
  let ?s1 = "snd (remove s key)"
  have n: "?n \<le> ds_max_bytes s" using assms by (auto simp: put_def Let_def split: if_splits)
  have "ds_total_bytes (evict_loop ?s1 ?n) + ?n \<le> ds_max_bytes s"
    using evict_loop_fits [OF remove_wf [OF assms(1)]] n by (simp add: remove_max)
  then have "ds_total_bytes s' \<le> ds_max_bytes s'"
    using assms(2,3) by (auto simp: put_def Let_def evict_until_fits_def evict_loop_frame
        split: if_splits)
  moreover have "store_wf s'" using put_wf [OF assms(1), of w key data] assms(3) by simp
  ultimately show ?thesis by (simp add: store_wf_def size_bytes_def)
qed

theorem put_within_budget_witness:
  "\<exists>s'. put True (empty_store 100) ''k'' ''v'' = (True, s') \<and> size_bytes s' \<le> 100"
proof -
  let ?s' = "snd (put True (empty_store 100) ''k'' ''v'')"
  have m: "ds_max_bytes (empty_store 100) = 100"
    by (simp add: empty_store_def DiskCacheStore_open_def sort_found_def)
  then have p: "put True (empty_store 100) ''k'' ''v'' = (True, ?s')"
    by (simp add: put_def Let_def entry_size_def kHeaderLen_def)
  have "size_bytes ?s' \<le> ds_max_bytes ?s'"
    using put_within_budget [OF empty_store_inv(1) _ p] m by simp
  moreover have "ds_max_bytes ?s' = 100" using m by (simp add: put_def Let_def)
  ultimately show ?thesis using p by auto
qed

text \<open>
  Eviction is least-recently-used: an entry that a successful \<open>put\<close> dropped to make room
  was used less recently than every entry that survived.
\<close>

theorem put_evicts_lru:
  assumes "store_wf s" and "put w s key data = (True, s')"
    and "a \<in> set (ds_entries s)" and "fst a \<noteq> key" and "a \<notin> set (ds_entries s')"
    and "b \<in> set (ds_entries s')" and "fst b \<noteq> key"
  shows "e_recency (snd a) < e_recency (snd b)"
proof -
  let ?n = "entry_size key (length data)"
  let ?s1 = "snd (remove s key)"
  let ?s2 = "evict_until_fits ?s1 ?n"
  have e: "ds_entries s' = ds_entries ?s2 @ [(key, \<lparr>e_path = path_of key, e_size = ?n,
      e_recency = ds_next_recency ?s2\<rparr>)]"
    using assms(2) update_fresh [OF evict_absent [of ?s1 key ?n]]
    by (auto simp: put_def Let_def split: if_splits)
  have a: "a \<in> set (ds_entries ?s1)" using assms(3,4) by (simp add: remove_entries set_delete)
  have a2: "a \<notin> set (ds_entries ?s2)" and b2: "b \<in> set (ds_entries ?s2)" using assms(5-7) e by auto
  show ?thesis
    using evict_loop_lru [OF remove_wf [OF assms(1)] a] a a2 b2
    by (auto simp: evict_until_fits_def split: if_splits)
qed


theorem put_evicts_lru_witness:
  "let ea = (''a'', \<lparr>e_path = ''pa'', e_size = 5, e_recency = 1\<rparr>);
       eb = (''b'', \<lparr>e_path = ''pb'', e_size = 5, e_recency = 2\<rparr>);
       s = \<lparr>ds_max_bytes = 12, ds_entries = [ea, eb], ds_total_bytes = 10, ds_next_recency = 3,
            ds_files = Map.empty\<rparr>;
       s' = snd (put True s ''c'' [])
   in put True s ''c'' [] = (True, s') \<and> ea \<notin> set (ds_entries s') \<and> eb \<in> set (ds_entries s') \<and>
      e_recency (snd ea) < e_recency (snd eb)"
proof -
  define ea where "ea = (''a'', \<lparr>e_path = ''pa'', e_size = 5, e_recency = 1\<rparr>)"
  define eb where "eb = (''b'', \<lparr>e_path = ''pb'', e_size = 5, e_recency = 2\<rparr>)"
  define s where "s = \<lparr>ds_max_bytes = 12, ds_entries = [ea, eb], ds_total_bytes = 10,
    ds_next_recency = 3, ds_files = Map.empty\<rparr>"
  have wf: "store_wf s" by (simp add: s_def ea_def eb_def store_wf_def)
  have p: "put True s ''c'' [] = (True, snd (put True s ''c'' []))"
    by (simp add: s_def put_def Let_def entry_size_def kHeaderLen_def)
  have "ds_entries (snd (put True s ''c'' [])) =
      [eb, (''c'', \<lparr>e_path = path_of ''c'', e_size = 5, e_recency = 3\<rparr>)]"
    by (simp add: s_def ea_def eb_def put_def Let_def entry_size_def kHeaderLen_def remove_def
        evict_until_fits_def evict_loop.simps)
  then have e: "ea \<notin> set (ds_entries (snd (put True s ''c'' [])))"
    "eb \<in> set (ds_entries (snd (put True s ''c'' [])))"
    by (simp_all add: ea_def eb_def)
  have "e_recency (snd ea) < e_recency (snd eb)"
    by (rule put_evicts_lru [OF wf p _ _ e(1) e(2)]) (simp_all add: s_def ea_def eb_def)
  with p e show ?thesis unfolding Let_def ea_def [symmetric] eb_def [symmetric] s_def [symmetric]
    by blast
qed

section \<open>Restart\<close>

definition item_payload :: "dir_item \<Rightarrow> bytes" where
  "item_payload it = (case read_key (it_content it) of None \<Rightarrow> [] | Some (_, rest) \<Rightarrow> rest)"

lemma seed_recency_frame:
  "ds_files (foldl seed_recency s fs) = ds_files s \<and>
   map_option (\<lambda>e. (e_path e, e_size e)) (map_of (ds_entries (foldl seed_recency s fs)) k) =
     map_option (\<lambda>e. (e_path e, e_size e)) (map_of (ds_entries s) k)"
proof (induction fs arbitrary: s)
  case (Cons f fs)
  have "ds_files (seed_recency s f) = ds_files s \<and>
      map_option (\<lambda>e. (e_path e, e_size e)) (map_of (ds_entries (seed_recency s f)) k) =
      map_option (\<lambda>e. (e_path e, e_size e)) (map_of (ds_entries s) k)"
    by (auto simp: seed_recency_def AList.update_conv' split: option.splits)
  with Cons.IH [of "seed_recency s f"] show ?case by simp
qed simp

lemma read_entry_cong:
  "e_path e = e_path e' \<Longrightarrow> e_size e = e_size e' \<Longrightarrow> read_entry f k e = read_entry f k e'"
  by (simp add: read_entry_def split: option.split)

lemma peek_seed_recency: "peek (foldl seed_recency s fs) k = peek s k"
  using seed_recency_frame [of s fs k]
  by (auto simp: peek_def map_option_case split: option.splits intro!: read_entry_cong)

lemma scan_item_unfold:
  "item_key it = None \<Longrightarrow> scan_item st it = st"
  "item_key it = Some k \<Longrightarrow> scan_item (s, fnd) it =
     (s\<lparr>ds_total_bytes := ds_total_bytes s + length (it_content it),
        ds_entries := (if map_of (ds_entries s) k = None
          then ds_entries s @ [(k, \<lparr>e_path = it_name it, e_size = length (it_content it), e_recency = 0\<rparr>)]
          else ds_entries s)\<rparr>, fnd @ [(it_mtime it, k)])"
  by (simp_all add: scan_item_def Let_def)

lemma scan_item_frame: "ds_files (fst (foldl scan_item (s, fnd) items)) = ds_files s"
proof (induction items arbitrary: s fnd)
  case (Cons it items)
  show ?case by (cases "item_key it") (simp_all add: scan_item_unfold Cons.IH)
qed simp

lemma scan_keeps:
  "map_of (ds_entries s) k = Some e \<Longrightarrow>
     map_of (ds_entries (fst (foldl scan_item (s, fnd) items))) k = Some e"
proof (induction items arbitrary: s fnd)
  case (Cons it items)
  then show ?case by (cases "item_key it") (auto simp: scan_item_unfold intro!: Cons.IH)
qed simp

lemma scan_finds:
  assumes "it \<in> set items" and "item_key it = Some k"
    and "\<And>it'. it' \<in> set items \<Longrightarrow> item_key it' = Some k \<Longrightarrow> it' = it"
    and "map_of (ds_entries s) k = None"
  shows "map_of (ds_entries (fst (foldl scan_item (s, fnd) items))) k =
           Some \<lparr>e_path = it_name it, e_size = length (it_content it), e_recency = 0\<rparr>"
  using assms
proof (induction items arbitrary: s fnd)
  case (Cons x items)
  show ?case
  proof (cases "x = it")
    case True
    let ?e = "\<lparr>e_path = it_name it, e_size = length (it_content it), e_recency = 0\<rparr>"
    obtain s1 f1 where st: "scan_item (s, fnd) x = (s1, f1)" by fastforce
    have "map_of (ds_entries s1) k = Some ?e"
      using st True Cons.prems(2,4) by (auto simp: scan_item_unfold map_add_Some_iff)
    from scan_keeps [OF this, of f1 items] st show ?thesis by simp
  next
    case False
    with Cons.prems have k: "item_key x \<noteq> Some k" "it \<in> set items" by auto
    obtain s1 f1 where st: "scan_item (s, fnd) x = (s1, f1)" by fastforce
    have none: "map_of (ds_entries s1) k = None"
      using st k Cons.prems(4) by (cases "item_key x") (auto simp: scan_item_unfold split: if_splits)
    have "map_of (ds_entries (fst (foldl scan_item (s1, f1) items))) k =
        Some \<lparr>e_path = it_name it, e_size = length (it_content it), e_recency = 0\<rparr>"
      by (rule Cons.IH [OF k(2) Cons.prems(2) _ none]) (auto intro: Cons.prems(3))
    with st show ?thesis by simp
  qed
qed simp


text \<open>
  What the files hold: every payload on disk satisfies \<open>P\<close> for the key beside it, whether the index knows the file
  or not. No operation but \<open>put\<close> adds a file, so this survives a restart on the same directory.
\<close>

definition files_hold :: "(bytes \<Rightarrow> bytes \<Rightarrow> bool) \<Rightarrow> (bytes \<rightharpoonup> bytes) \<Rightarrow> bool" where
  "files_hold P files \<longleftrightarrow> (\<forall>p c k r. files p = Some c \<and> read_key c = Some (k, r) \<longrightarrow> P k r)"

lemma files_holdD: "files_hold P files \<Longrightarrow> files p = Some c \<Longrightarrow> read_key c = Some (k, r) \<Longrightarrow> P k r"
  by (auto simp: files_hold_def)

lemma files_hold_le: "files_hold P files \<Longrightarrow> files' \<subseteq>\<^sub>m files \<Longrightarrow> files_hold P files'"
  unfolding files_hold_def by (blast dest: map_leD)

lemma files_hold_mono: "files_hold P files \<Longrightarrow> (\<And>k r. P k r \<Longrightarrow> P' k r) \<Longrightarrow> files_hold P' files"
  unfolding files_hold_def by blast

lemma remove_files: "ds_files (snd (remove s k)) \<subseteq>\<^sub>m ds_files s"
  by (simp add: remove_def map_le_upd_None split: option.split)

lemma evict_loop_files: "ds_files (evict_loop s n) \<subseteq>\<^sub>m ds_files s"
  by (induction s rule: evict_loop_induct [of n]) (auto simp: evict_loop_steps intro: map_le_trans [OF _ remove_files])

lemma evict_files: "ds_files (evict_until_fits s n) \<subseteq>\<^sub>m ds_files s"
  by (simp add: evict_until_fits_def evict_loop_files)

lemma get_files: "get s k = (r, s') \<Longrightarrow> ds_files s' \<subseteq>\<^sub>m ds_files s"
  using remove_files [of s k] by (auto simp: get_def split: option.splits)

lemma put_files_hold:
  assumes "files_hold P (ds_files s)" and "ok_key key" and "P key data" and "put w s key data = (b, s')"
  shows "files_hold P (ds_files s')"
proof -
  let ?s2 = "evict_until_fits (snd (remove s key)) (entry_size key (length data))"
  have h: "files_hold P (ds_files ?s2)" by (rule files_hold_le [OF assms(1) map_le_trans [OF evict_files remove_files]])
  have "files_hold P ((ds_files ?s2)(path_of key := None))" by (rule files_hold_le [OF h map_le_upd_None])
  moreover have "files_hold P ((ds_files ?s2)(path_of key \<mapsto> file_image key data))"
    using h assms(2,3) by (auto simp: files_hold_def)
  ultimately show ?thesis using assms(1,4) by (auto simp: put_def Let_def split: if_splits)
qed

lemma scan_entries:
  assumes "map_of (ds_entries (fst (foldl scan_item (s, fnd) items))) k = Some e"
  shows "map_of (ds_entries s) k = Some e \<or>
    (\<exists>it \<in> set items. item_key it = Some k \<and> e = \<lparr>e_path = it_name it, e_size = length (it_content it), e_recency = 0\<rparr>)"
  using assms
proof (induction items arbitrary: s fnd)
  case (Cons it items)
  obtain s1 f1 where st: "scan_item (s, fnd) it = (s1, f1)" by fastforce
  from Cons.prems st have m: "map_of (ds_entries (fst (foldl scan_item (s1, f1) items))) k = Some e" by simp
  have s1: "map_of (ds_entries s1) k = Some e \<Longrightarrow> map_of (ds_entries s) k = Some e \<or>
      item_key it = Some k \<and> e = \<lparr>e_path = it_name it, e_size = length (it_content it), e_recency = 0\<rparr>"
    using st by (cases "item_key it") (auto simp: scan_item_unfold map_add_Some_iff split: if_splits)
  from Cons.IH [OF m] s1 show ?case by auto
qed simp

text \<open>Opening a directory finds nothing but payloads of its files.\<close>

lemma open_files: "ds_files (DiskCacheStore_open m items) = map_of (map (\<lambda>it. (it_name it, it_content it)) (filter it_regular items))"
proof -
  obtain s1 fnd where "foldl scan_item (\<lparr>ds_max_bytes = m, ds_entries = [], ds_total_bytes = 0, ds_next_recency = 1,
      ds_files = map_of (map (\<lambda>it. (it_name it, it_content it)) (filter it_regular items))\<rparr>, []) items = (s1, fnd)" by fastforce
  moreover from scan_item_frame [of "\<lparr>ds_max_bytes = m, ds_entries = [], ds_total_bytes = 0, ds_next_recency = 1,
      ds_files = map_of (map (\<lambda>it. (it_name it, it_content it)) (filter it_regular items))\<rparr>" "[]" items] this
  have "ds_files s1 = map_of (map (\<lambda>it. (it_name it, it_content it)) (filter it_regular items))" by simp
  ultimately show ?thesis using seed_recency_frame [of s1] by (simp add: DiskCacheStore_open_def)
qed

lemma open_holds:
  assumes "files_hold P (ds_files (DiskCacheStore_open m items))" and "distinct (map it_name items)"
    and "peek (DiskCacheStore_open m items) k = Some d"
  shows "P k d"
proof -
  let ?files = "map_of (map (\<lambda>it. (it_name it, it_content it)) (filter it_regular items))"
  let ?s0 = "\<lparr>ds_max_bytes = m, ds_entries = [], ds_total_bytes = 0, ds_next_recency = 1, ds_files = ?files\<rparr>"
  obtain s1 fnd where sc: "foldl scan_item (?s0, []) items = (s1, fnd)" by fastforce
  have f: "ds_files s1 = ?files" using scan_item_frame [of ?s0 "[]" items] sc by simp
  have "peek (DiskCacheStore_open m items) k = peek s1 k" using sc by (simp add: DiskCacheStore_open_def peek_seed_recency)
  with assms(3) obtain e where e: "map_of (ds_entries s1) k = Some e" "read_entry ?files k e = Some d"
    by (auto simp: peek_def f split: option.splits)
  from scan_entries [of ?s0 "[]" items k e] e(1) sc obtain it where it: "it \<in> set items" "item_key it = Some k"
    "e = \<lparr>e_path = it_name it, e_size = length (it_content it), e_recency = 0\<rparr>" by auto
  have "distinct (map fst (map (\<lambda>it. (it_name it, it_content it)) (filter it_regular items)))"
    using assms(2) by (simp add: comp_def distinct_map_filter)
  moreover have "it_regular it" using it(2) by (auto simp: item_key_def split: if_splits)
  ultimately have c: "?files (it_name it) = Some (it_content it)"
    using it(1) by (auto simp: image_iff intro!: map_of_is_SomeI bexI [of _ it])
  with e(2) it(3) obtain r where r: "read_key (it_content it) = Some (k, r)"
    and d: "d = take (length (it_content it) - kHeaderLen - length k) r"
    by (auto simp: read_entry_def split: option.splits if_splits)
  have "length r = length (it_content it) - kHeaderLen - length k"
    using r by (auto simp: read_key_def Let_def kHeaderLen_def split: if_splits)
  then have "d = r" using d by simp
  with files_holdD [OF assms(1) c [folded open_files [of m]] r] show ?thesis by simp
qed

text \<open>
  Entries survive a restart: opening a directory that holds the file of a key (at most
  4096 bytes, one file per name and per key) makes \<open>get\<close> return the bytes \<open>put\<close> wrote.
\<close>

theorem restart_preserves_entries:
  assumes "it \<in> set items" and "it_regular it" and "it_name it = path_of key"
    and "it_content it = file_image key data" and "length key \<le> 4096"
    and "distinct (map it_name items)"
    and "\<forall>it' \<in> set items. item_key it' = Some key \<longrightarrow> it' = it"
  shows "fst (get (DiskCacheStore_open m items) key) = Some data"
proof -
  have ok: "ok_key key" using assms(5) by (simp add: ok_key_def)
  have ext: "has_kvc_extension (path_of key)" by (simp add: has_kvc_extension_def path_of_def hex64_def)
  have len: "unat (read_le (take 4 (file_image key data)) :: u32) = length key"
    using assms(5) by (simp add: file_image_def read_le_le_bytes take_bit_word_eq_self unat_of_nat)
  have k: "item_key it = Some key"
    using assms(2-5) ext ok len by (simp add: item_key_def) (simp add: file_image_def)
  define s0 where "s0 = \<lparr>ds_max_bytes = m, ds_entries = [], ds_total_bytes = 0, ds_next_recency = 1,
    ds_files = map_of (map (\<lambda>it. (it_name it, it_content it)) (filter it_regular items))\<rparr>"
  obtain s1 found where sc: "foldl scan_item (s0, []) items = (s1, found)" by fastforce
  have e: "map_of (ds_entries s1) key =
      Some \<lparr>e_path = path_of key, e_size = length (file_image key data), e_recency = 0\<rparr>"
    using scan_finds [OF assms(1) k, of s0 "[]"] assms(3,4,7) sc by (simp add: s0_def)
  have "distinct (map fst (map (\<lambda>it. (it_name it, it_content it)) (filter it_regular items)))"
    using assms(6) by (simp add: comp_def distinct_map_filter)
  then have "ds_files s0 (path_of key) = Some (file_image key data)"
    using assms(1-4) by (auto simp: s0_def image_iff intro!: map_of_is_SomeI bexI [of _ it])
  then have f: "ds_files s1 (path_of key) = Some (file_image key data)"
    using scan_item_frame [of s0 "[]" items] sc by simp
  have "peek s1 key = Some data"
    using e f ok length_file_image [of key data]
    by (simp add: peek_def read_entry_def kHeaderLen_def)
  then have "peek (DiskCacheStore_open m items) key = Some data"
    unfolding DiskCacheStore_open_def Let_def s0_def [symmetric] sc by (simp add: peek_seed_recency)
  with disk.get_spec show ?thesis by (metis prod.collapse)
qed


theorem restart_preserves_entries_witness:
  "fst (get (DiskCacheStore_open 0
      [\<lparr>it_name = path_of ''k'', it_regular = True, it_content = file_image ''k'' ''v'', it_mtime = 7\<rparr>])
      ''k'') = Some ''v''"
  by (rule restart_preserves_entries [where it = "\<lparr>it_name = path_of ''k'', it_regular = True,
      it_content = file_image ''k'' ''v'', it_mtime = 7\<rparr>"]) simp_all

text \<open>
  A key longer than 4096 bytes is stored but not found again: \<open>put\<close> accepts it and
  writes its file, and opening that directory later indexes nothing, so the entry is lost
  and its bytes are outside the budget.
\<close>

theorem long_key_lost_on_restart:
  assumes "4096 < length key" and "length key < 2 ^ 32"
  shows "\<exists>s. put True (empty_store 0) key data = (True, s) \<and> fst (get s key) = Some data \<and>
             ds_files s = [path_of key \<mapsto> file_image key data] \<and>
             (let r = DiskCacheStore_open m [\<lparr>it_name = path_of key, it_regular = True,
                        it_content = file_image key data, it_mtime = t\<rparr>]
              in \<not> contains r key \<and> size_bytes r = 0)"
proof -
  have ok: "ok_key key" using assms by (simp add: ok_key_def)
  have len: "unat (read_le (take 4 (file_image key data)) :: u32) = length key"
    using assms(2) by (simp add: file_image_def read_le_le_bytes take_bit_word_eq_self unat_of_nat)
  let ?it = "\<lparr>it_name = path_of key, it_regular = True, it_content = file_image key data, it_mtime = t\<rparr>"
  have k: "item_key ?it = None" using assms(1) len by (simp add: item_key_def)
  have r: "\<not> contains (DiskCacheStore_open m [?it]) key" "size_bytes (DiskCacheStore_open m [?it]) = 0"
    by (simp_all add: DiskCacheStore_open_def scan_item_unfold(1) [OF k] sort_found_def contains_def
        size_bytes_def)
  obtain s where p: "put True (empty_store 0) key data = (True, s)"
    and f: "ds_files s = [path_of key \<mapsto> file_image key data]"
    by (simp add: put_def Let_def empty_store_def DiskCacheStore_open_def sort_found_def
        evict_until_fits_def remove_def)
  obtain rr s2 where g: "get s key = (rr, s2)" by fastforce
  from disk.get_spec [OF g] disk.put_same [OF p ok] g have "fst (get s key) = Some data" by simp
  with p f r show ?thesis by (auto simp: Let_def)
qed

theorem long_key_lost_on_restart_witness:
  "4096 < length (replicate 5000 CHR ''k'') \<and>
   (\<exists>s. put True (empty_store 0) (replicate 5000 CHR ''k'') ''v'' = (True, s) \<and>
        fst (get s (replicate 5000 CHR ''k'')) = Some ''v'')"
  using long_key_lost_on_restart [of "replicate 5000 CHR ''k''" "''v''"] by (auto simp: Let_def)

end
