(* ===== verification/Backend.thy ===== *)
theory Backend
  imports Complex_Main Prelude
begin

text \<open>
  The seam between the engine and the inference library: the abstract class \<open>LlamaBackend\<close>
  (\<open>src/include/reame/core/llama_backend.hpp\<close>) as a record of operations over a state, its
  contract as two locales, and the implementation over llama.cpp
  (\<open>src/src/core/llama_backend_real.cpp\<close>). llama.cpp is a submodule whose code is not part of
  the repository: it is a parameter, the record \<open>llama_lib\<close>, with the documented behaviour of
  its calls as the hypothesis \<open>llama_ok\<close>. Logits are lists of reals (the rounding of
  \<open>float\<close> is not modelled).

  An operation that can throw returns the exception or the result, and the state it leaves.

  The main result: the wrapper keeps its own position counter in step with the library, so
  that it fulfils the contract the caches, the decoders and the engine rely on.
\<close>

section \<open>The interface\<close>

type_synonym logits = "real list"

datatype model_exn = ModelError bytes

record SeqSlice =
  sl_seq_id :: int
  sl_tokens :: tokens
  sl_pos_start :: nat

record ChatMessage =
  cm_role :: bytes
  cm_content :: bytes

record 'b LlamaBackend =
  be_tokenize :: "bytes \<Rightarrow> bool \<Rightarrow> model_exn + tokens"
  be_detokenize :: "tokens \<Rightarrow> model_exn + bytes"
  be_token_piece :: "TokenId \<Rightarrow> model_exn + bytes"
  be_format_chat :: "bytes \<Rightarrow> bytes"
  be_format_chat_messages :: "ChatMessage list \<Rightarrow> bytes"
  be_decode :: "'b \<Rightarrow> tokens \<Rightarrow> (model_exn + logits) \<times> 'b"
  be_decode_append :: "'b \<Rightarrow> tokens \<Rightarrow> (model_exn + logits) \<times> 'b"
  be_decode_batch :: "'b \<Rightarrow> tokens \<Rightarrow> (model_exn + logits list) \<times> 'b"
  be_truncate_to :: "'b \<Rightarrow> nat \<Rightarrow> (model_exn + unit) \<times> 'b"
  be_decode_seqs :: "'b \<Rightarrow> SeqSlice list \<Rightarrow> (model_exn + logits list) \<times> 'b"
  be_clear_seq :: "'b \<Rightarrow> int \<Rightarrow> 'b"
  be_copy_seq :: "'b \<Rightarrow> int \<Rightarrow> int \<Rightarrow> nat \<Rightarrow> 'b"
  be_reset :: "'b \<Rightarrow> 'b"
  be_state_data :: "'b \<Rightarrow> model_exn + bytes"
  be_set_state :: "'b \<Rightarrow> bytes \<Rightarrow> nat \<Rightarrow> (model_exn + unit) \<times> 'b"
  be_n_past :: "'b \<Rightarrow> nat"
  be_context_length :: nat
  be_vocab_size :: nat
  be_eos_token :: TokenId
  be_is_eog :: "TokenId \<Rightarrow> bool"
  be_supports_rollback :: bool

text \<open>
  The contract of the single-sequence operations: \<open>kv b\<close> are the tokens the KV cache of the
  sequence holds and \<open>eval ts\<close> the logits after \<open>ts\<close>. Nothing is promised about a call that
  throws.
\<close>

locale kv_backend =
  fixes B :: "'b LlamaBackend"
    and ok :: "'b \<Rightarrow> bool"
    and kv :: "'b \<Rightarrow> tokens"
    and eval :: "tokens \<Rightarrow> logits"
  assumes reset_kv: "ok (be_reset B b) \<and> kv (be_reset B b) = []"
    and append_kv: "ok b \<Longrightarrow> be_decode_append B b ts = (Inr l, b') \<Longrightarrow>
          ok b' \<and> kv b' = kv b @ ts \<and> l = eval (kv b @ ts)"
    and decode_kv: "be_decode B b ts = (Inr l, b') \<Longrightarrow> ok b' \<and> kv b' = ts \<and> l = eval ts"
    and batch_kv: "ok b \<Longrightarrow> be_decode_batch B b ts = (Inr ls, b') \<Longrightarrow>
          ok b' \<and> kv b' = kv b @ ts \<and> ls = map (\<lambda>i. eval (kv b @ take (Suc i) ts)) [0..<length ts]"
    and truncate_kv: "ok b \<Longrightarrow> be_truncate_to B b n = (Inr u, b') \<Longrightarrow> ok b' \<and> kv b' = take n (kv b)"
    and n_past_kv: "ok b \<Longrightarrow> be_n_past B b = length (kv b)"
    and state_kv: "ok b \<Longrightarrow> be_state_data B b = Inr d \<Longrightarrow>
          be_set_state B b0 d (length (kv b)) = (Inr u, b') \<Longrightarrow> ok b' \<and> kv b' = kv b"

text \<open>The contract of the multi-sequence operations, \<open>kvs b s\<close> being the tokens of sequence \<open>s\<close>.\<close>

locale seq_backend =
  fixes B :: "'b LlamaBackend"
    and kvs :: "'b \<Rightarrow> int \<Rightarrow> tokens"
    and eval :: "tokens \<Rightarrow> logits"
  assumes seqs_kv: "distinct (map sl_seq_id ss) \<Longrightarrow>
          list_all (\<lambda>s. sl_tokens s \<noteq> [] \<and> sl_pos_start s = length (kvs b (sl_seq_id s))) ss \<Longrightarrow>
          be_decode_seqs B b ss = (Inr ls, b') \<Longrightarrow>
          ls = map (\<lambda>s. eval (kvs b (sl_seq_id s) @ sl_tokens s)) ss \<and>
          (\<forall>s\<in>set ss. kvs b' (sl_seq_id s) = kvs b (sl_seq_id s) @ sl_tokens s) \<and>
          (\<forall>i. i \<notin> sl_seq_id ` set ss \<longrightarrow> kvs b' i = kvs b i)"
    and clear_kv: "kvs (be_clear_seq B b i) = (kvs b)(i := [])"
    and copy_kv: "kvs b dst = [] \<Longrightarrow> dst \<noteq> src \<Longrightarrow> 0 \<le> dst \<Longrightarrow>
          kvs (be_copy_seq B b src dst n) = (kvs b)(dst := take n (kvs b src))"

section \<open>The llama.cpp library\<close>

text \<open>One entry of a \<open>llama_batch\<close>.\<close>

record batch_entry =
  bt_token :: TokenId
  bt_pos :: int
  bt_seq :: int
  bt_logits :: bool

record 'c llama_lib =
  llama_decode :: "'c \<Rightarrow> batch_entry list \<Rightarrow> int \<times> 'c"
  llama_get_logits_ith :: "'c \<Rightarrow> nat \<Rightarrow> logits option"
  llama_memory_seq_rm :: "'c \<Rightarrow> int \<Rightarrow> int \<Rightarrow> int \<Rightarrow> bool \<times> 'c"
  llama_memory_seq_cp :: "'c \<Rightarrow> int \<Rightarrow> int \<Rightarrow> int \<Rightarrow> int \<Rightarrow> 'c"
  llama_memory_clear :: "'c \<Rightarrow> 'c"
  llama_state_get_data :: "'c \<Rightarrow> bytes"
  llama_state_set_data :: "'c \<Rightarrow> bytes \<Rightarrow> nat \<times> 'c"
  llama_tokenize :: "bytes \<Rightarrow> nat \<Rightarrow> bool \<Rightarrow> int \<times> tokens"
  llama_detokenize :: "tokens \<Rightarrow> nat \<Rightarrow> int \<times> bytes"
  llama_token_to_piece :: "TokenId \<Rightarrow> nat \<Rightarrow> int \<times> bytes"
  llama_model_chat_template :: "bytes option"
  llama_chat_apply_template :: "bytes \<Rightarrow> ChatMessage list \<Rightarrow> nat \<Rightarrow> int \<times> bytes"
  llama_n_ctx :: nat
  llama_vocab_n_tokens :: nat
  llama_vocab_eos :: TokenId
  llama_vocab_is_eog :: "TokenId \<Rightarrow> bool"
  llama_model_is_recurrent :: bool
  llama_model_is_hybrid :: bool

section \<open>\<open>RealLlamaBackend\<close>\<close>

record 'c RealLlamaBackend =
  rb_ctx :: 'c
  rb_n_past :: nat

text \<open>
  The two-pass calls: the first, without a buffer, reports the size it needs as a negative
  count; the second gets a buffer of that size and reports how much it wrote.
\<close>

definition real_tokenize :: "'c llama_lib \<Rightarrow> bytes \<Rightarrow> bool \<Rightarrow> model_exn + tokens" where
  "real_tokenize L text add_special =
     (let n = fst (llama_tokenize L text 0 add_special)
      in if n = 0 then Inr []
         else if n = INT_MIN
         then Inl (ModelError (''tokenization overflow for input of '' @ string_of_nat (length text) @ '' bytes''))
         else let (written, toks) = llama_tokenize L text (nat \<bar>n\<bar>) add_special
              in if written < 0 then Inl (ModelError ''tokenization failed'')
                 else Inr (take (nat written) toks))"

definition real_detokenize :: "'c llama_lib \<Rightarrow> tokens \<Rightarrow> model_exn + bytes" where
  "real_detokenize L tokens =
     (let n = fst (llama_detokenize L tokens 0)
      in if n = 0 then Inr []
         else let (written, txt) = llama_detokenize L tokens (nat \<bar>n\<bar>)
              in if written < 0 then Inl (ModelError ''detokenization failed'')
                 else Inr (take (nat written) txt))"

text \<open>The chat template of the model, applied into a buffer of \<open>sz\<close> bytes, once retried.\<close>

definition apply_template :: "'c llama_lib \<Rightarrow> ChatMessage list \<Rightarrow> nat \<Rightarrow> bytes \<Rightarrow> bytes" where
  "apply_template L msgs sz fallback =
     (case llama_model_chat_template L of
        None \<Rightarrow> fallback
      | Some tmpl \<Rightarrow>
          let (n, buf) = llama_chat_apply_template L tmpl msgs sz
          in if n < 0 then fallback
             else if sz < nat n
             then (let (m, buf2) = llama_chat_apply_template L tmpl msgs (nat n)
                   in if m < 0 then fallback else take (nat m) buf2)
             else take (nat n) buf)"

definition real_format_chat :: "'c llama_lib \<Rightarrow> bytes \<Rightarrow> bytes" where
  "real_format_chat L user_message =
     apply_template L [\<lparr>cm_role = ''user'', cm_content = user_message\<rparr>] (length user_message + 512) user_message"

definition chat_fallback :: "ChatMessage list \<Rightarrow> bytes" where
  "chat_fallback messages =
     concat (map (\<lambda>m. cm_role m @ '': '' @ cm_content m @ [CHR 0x0A]) messages) @ ''assistant:''"

definition real_format_chat_messages :: "'c llama_lib \<Rightarrow> ChatMessage list \<Rightarrow> bytes" where
  "real_format_chat_messages L messages =
     apply_template L messages
       (sum_list (map (\<lambda>m. length (cm_role m) + length (cm_content m)) messages) + 1024)
       (chat_fallback messages)"

definition real_token_piece :: "'c llama_lib \<Rightarrow> TokenId \<Rightarrow> model_exn + bytes" where
  "real_token_piece L tok =
     (let (n, buf) = llama_token_to_piece L tok 128
      in if 0 \<le> n then Inr (take (nat n) buf)
         else let (m, piece) = llama_token_to_piece L tok (nat (- n))
              in if m < 0 then Inl (ModelError (''token_to_piece failed for token '' @ string_of_int (sint tok)))
                 else Inr (take (nat m) piece))"

definition real_reset :: "'c llama_lib \<Rightarrow> 'c RealLlamaBackend \<Rightarrow> 'c RealLlamaBackend" where
  "real_reset L b = b\<lparr>rb_ctx := llama_memory_clear L (rb_ctx b), rb_n_past := 0\<rparr>"

text \<open>The batch \<open>decode_impl\<close> builds for the next positions of sequence 0.\<close>

definition single_batch :: "nat \<Rightarrow> tokens \<Rightarrow> bool \<Rightarrow> batch_entry list" where
  "single_batch n_past tokens all_logits =
     map (\<lambda>i. \<lparr>bt_token = tokens ! i, bt_pos = int n_past + int i, bt_seq = 0,
               bt_logits = (all_logits \<or> i = length tokens - 1)\<rparr>) [0..<length tokens]"

text \<open>The logits of the requested batch positions; a missing one throws.\<close>

fun collect_logits :: "bytes \<Rightarrow> ('i \<Rightarrow> logits option) \<Rightarrow> ('i \<Rightarrow> bytes) \<Rightarrow> 'i list \<Rightarrow> model_exn + logits list" where
  "collect_logits msg f sh [] = Inr []"
| "collect_logits msg f sh (i # is) =
     (case f i of
        None \<Rightarrow> Inl (ModelError (msg @ sh i))
      | Some l \<Rightarrow> map_sum id ((#) l) (collect_logits msg f sh is))"

definition decode_impl :: "'c llama_lib \<Rightarrow> 'c RealLlamaBackend \<Rightarrow> tokens \<Rightarrow> bool
    \<Rightarrow> (model_exn + logits list) \<times> 'c RealLlamaBackend" where
  "decode_impl L b tokens all_logits =
     (if tokens = [] then (Inl (ModelError ''decode of zero tokens''), b)
      else let (rc, ctx) = llama_decode L (rb_ctx b) (single_batch (rb_n_past b) tokens all_logits)
           in if rc \<noteq> 0
              then (Inl (ModelError (''llama_decode failed with status '' @ string_of_int rc)), b\<lparr>rb_ctx := ctx\<rparr>)
              else (collect_logits ''no logits returned at batch position '' (llama_get_logits_ith L ctx)
                      string_of_nat
                      [(if all_logits then 0 else length tokens - 1)..<length tokens],
                    \<lparr>rb_ctx = ctx, rb_n_past = rb_n_past b + length tokens\<rparr>))"

definition real_decode_append :: "'c llama_lib \<Rightarrow> 'c RealLlamaBackend \<Rightarrow> tokens
    \<Rightarrow> (model_exn + logits) \<times> 'c RealLlamaBackend" where
  "real_decode_append L b tokens = map_prod (map_sum id last) id (decode_impl L b tokens False)"

definition real_decode :: "'c llama_lib \<Rightarrow> 'c RealLlamaBackend \<Rightarrow> tokens
    \<Rightarrow> (model_exn + logits) \<times> 'c RealLlamaBackend" where
  "real_decode L b tokens = map_prod (map_sum id last) id (decode_impl L (real_reset L b) tokens False)"

definition real_decode_batch :: "'c llama_lib \<Rightarrow> 'c RealLlamaBackend \<Rightarrow> tokens
    \<Rightarrow> (model_exn + logits list) \<times> 'c RealLlamaBackend" where
  "real_decode_batch L b tokens = decode_impl L b tokens True"

text \<open>The entries of one slice and the batch of \<open>decode_seqs\<close>, with the index of each slice's end.\<close>

definition slice_batch :: "SeqSlice \<Rightarrow> batch_entry list" where
  "slice_batch s =
     map (\<lambda>t. \<lparr>bt_token = sl_tokens s ! t, bt_pos = int (sl_pos_start s + t), bt_seq = sl_seq_id s,
               bt_logits = (t + 1 = length (sl_tokens s))\<rparr>) [0..<length (sl_tokens s)]"

fun slice_ends :: "int \<Rightarrow> SeqSlice list \<Rightarrow> int list" where
  "slice_ends i [] = []"
| "slice_ends i (s # ss) =
     (i + int (length (sl_tokens s)) - 1) # slice_ends (i + int (length (sl_tokens s))) ss"

definition real_decode_seqs :: "'c llama_lib \<Rightarrow> 'c RealLlamaBackend \<Rightarrow> SeqSlice list
    \<Rightarrow> (model_exn + logits list) \<times> 'c RealLlamaBackend" where
  "real_decode_seqs L b slices =
     (if sum_list (map (length \<circ> sl_tokens) slices) = 0
      then (Inl (ModelError ''decode_seqs with no tokens''), b)
      else let (rc, ctx) = llama_decode L (rb_ctx b) (concat (map slice_batch slices))
           in if rc \<noteq> 0
              then (Inl (ModelError (''llama_decode (multi-seq) failed with status '' @ string_of_int rc)),
                    b\<lparr>rb_ctx := ctx\<rparr>)
              else (collect_logits ''no logits at multi-seq batch position ''
                      (\<lambda>i. if i < 0 then None else llama_get_logits_ith L ctx (nat i)) string_of_int
                      (slice_ends 0 slices),
                    b\<lparr>rb_ctx := ctx\<rparr>))"

definition real_copy_seq :: "'c llama_lib \<Rightarrow> 'c RealLlamaBackend \<Rightarrow> int \<Rightarrow> int \<Rightarrow> nat \<Rightarrow> 'c RealLlamaBackend" where
  "real_copy_seq L b src dst n = b\<lparr>rb_ctx := llama_memory_seq_cp L (rb_ctx b) src dst 0 (int n)\<rparr>"

definition real_clear_seq :: "'c llama_lib \<Rightarrow> 'c RealLlamaBackend \<Rightarrow> int \<Rightarrow> 'c RealLlamaBackend" where
  "real_clear_seq L b i = b\<lparr>rb_ctx := snd (llama_memory_seq_rm L (rb_ctx b) i (- 1) (- 1))\<rparr>"

definition real_truncate_to :: "'c llama_lib \<Rightarrow> 'c RealLlamaBackend \<Rightarrow> nat
    \<Rightarrow> (model_exn + unit) \<times> 'c RealLlamaBackend" where
  "real_truncate_to L b n =
     (if rb_n_past b \<le> n then (Inr (), b)
      else let (done, ctx) = llama_memory_seq_rm L (rb_ctx b) 0 (int n) (- 1)
           in if \<not> done
              then (Inl (ModelError (''failed to truncate sequence to '' @ string_of_nat n @ '' tokens'')),
                    b\<lparr>rb_ctx := ctx\<rparr>)
              else (Inr (), \<lparr>rb_ctx = ctx, rb_n_past = n\<rparr>))"

definition real_state_data :: "'c llama_lib \<Rightarrow> 'c RealLlamaBackend \<Rightarrow> model_exn + bytes" where
  "real_state_data L b =
     (let data = llama_state_get_data L (rb_ctx b)
      in if data = [] then Inl (ModelError ''llama_state_get_data failed'') else Inr data)"

definition real_set_state :: "'c llama_lib \<Rightarrow> 'c RealLlamaBackend \<Rightarrow> bytes \<Rightarrow> nat
    \<Rightarrow> (model_exn + unit) \<times> 'c RealLlamaBackend" where
  "real_set_state L b data n_past =
     (let (r, ctx) = llama_state_set_data L (rb_ctx b) data
      in if r = 0
         then (Inl (ModelError ''llama_state_set_data failed (incompatible or truncated state blob)''),
               b\<lparr>rb_ctx := ctx\<rparr>)
         else (Inr (), \<lparr>rb_ctx = ctx, rb_n_past = n_past\<rparr>))"

definition real_backend :: "'c llama_lib \<Rightarrow> 'c RealLlamaBackend LlamaBackend" where
  "real_backend L =
     \<lparr>be_tokenize = real_tokenize L, be_detokenize = real_detokenize L,
      be_token_piece = real_token_piece L, be_format_chat = real_format_chat L,
      be_format_chat_messages = real_format_chat_messages L,
      be_decode = real_decode L, be_decode_append = real_decode_append L,
      be_decode_batch = real_decode_batch L, be_truncate_to = real_truncate_to L,
      be_decode_seqs = real_decode_seqs L, be_clear_seq = real_clear_seq L,
      be_copy_seq = real_copy_seq L, be_reset = real_reset L,
      be_state_data = real_state_data L, be_set_state = real_set_state L,
      be_n_past = rb_n_past, be_context_length = llama_n_ctx L,
      be_vocab_size = llama_vocab_n_tokens L, be_eos_token = llama_vocab_eos L, be_is_eog = llama_vocab_is_eog L,
      be_supports_rollback = (\<not> llama_model_is_recurrent L \<and> \<not> llama_model_is_hybrid L)\<rparr>"


section \<open>The documented behaviour of the library\<close>

text \<open>
  \<open>cells c s\<close> are the tokens in the memory of sequence \<open>s\<close>, in position order. A batch is
  \<open>placed\<close> when the entries of every sequence are its next positions. A successful
  \<open>llama_decode\<close> of such a batch appends them, and \<open>llama_get_logits_ith\<close> then gives the
  logits after the entry, if they were requested.
\<close>

definition batch_tokens :: "batch_entry list \<Rightarrow> int \<Rightarrow> tokens" where
  "batch_tokens bt s = map bt_token (filter (\<lambda>e. bt_seq e = s) bt)"

definition placed :: "(int \<Rightarrow> tokens) \<Rightarrow> batch_entry list \<Rightarrow> bool" where
  "placed cs bt \<longleftrightarrow>
     (\<forall>i<length bt. bt_pos (bt ! i) =
        int (length (cs (bt_seq (bt ! i))) + length (batch_tokens (take i bt) (bt_seq (bt ! i)))))"

definition llama_ok :: "'c llama_lib \<Rightarrow> ('c \<Rightarrow> int \<Rightarrow> tokens) \<Rightarrow> (tokens \<Rightarrow> logits) \<Rightarrow> bool" where
  "llama_ok L cells eval \<longleftrightarrow>
     (\<forall>c bt c'. placed (cells c) bt \<and> llama_decode L c bt = (0, c') \<longrightarrow>
        (\<forall>s. cells c' s = cells c s @ batch_tokens bt s) \<and>
        (\<forall>i<length bt. bt_logits (bt ! i) \<longrightarrow>
           llama_get_logits_ith L c' i \<in>
             {None, Some (eval (cells c (bt_seq (bt ! i)) @ batch_tokens (take (Suc i) bt) (bt_seq (bt ! i))))})) \<and>
     (\<forall>c n c'. llama_memory_seq_rm L c 0 (int n) (- 1) = (True, c') \<longrightarrow>
        cells c' = (cells c)(0 := take n (cells c 0))) \<and>
     (\<forall>c s. cells (snd (llama_memory_seq_rm L c s (- 1) (- 1))) = (cells c)(s := [])) \<and>
     (\<forall>c src dst n. cells c dst = [] \<and> dst \<noteq> src \<and> 0 \<le> dst \<longrightarrow>
        cells (llama_memory_seq_cp L c src dst 0 (int n)) = (cells c)(dst := take n (cells c src))) \<and>
     (\<forall>c s. cells (llama_memory_clear L c) s = []) \<and>
     (\<forall>c c0 r c'. llama_state_set_data L c0 (llama_state_get_data L c) = (r, c') \<and> r \<noteq> 0 \<longrightarrow>
        cells c' = cells c)"

lemma llama_decodeD:
  assumes "llama_ok L cells eval" and "placed (cells c) bt" and "llama_decode L c bt = (0, c')"
  shows "cells c' s = cells c s @ batch_tokens bt s"
    and "i < length bt \<Longrightarrow> bt_logits (bt ! i) \<Longrightarrow> llama_get_logits_ith L c' i = Some l \<Longrightarrow>
      l = eval (cells c (bt_seq (bt ! i)) @ batch_tokens (take (Suc i) bt) (bt_seq (bt ! i)))"
proof -
  note D = assms(1) [unfolded llama_ok_def, THEN conjunct1, rule_format, OF conjI [OF assms(2,3)]]
  show "cells c' s = cells c s @ batch_tokens bt s" using D by blast
  show "i < length bt \<Longrightarrow> bt_logits (bt ! i) \<Longrightarrow> llama_get_logits_ith L c' i = Some l \<Longrightarrow>
      l = eval (cells c (bt_seq (bt ! i)) @ batch_tokens (take (Suc i) bt) (bt_seq (bt ! i)))"
    using D [THEN conjunct2, rule_format, of i] by simp
qed

lemma llama_memoryD:
  assumes "llama_ok L cells eval"
  shows "llama_memory_seq_rm L c 0 (int n) (- 1) = (True, c') \<Longrightarrow> cells c' = (cells c)(0 := take n (cells c 0))"
    and "cells (snd (llama_memory_seq_rm L c s (- 1) (- 1))) = (cells c)(s := [])"
    and "cells c dst = [] \<Longrightarrow> dst \<noteq> src \<Longrightarrow> 0 \<le> dst \<Longrightarrow>
      cells (llama_memory_seq_cp L c src dst 0 (int n)) = (cells c)(dst := take n (cells c src))"
    and "cells (llama_memory_clear L c) s = []"
    and "llama_state_set_data L c0 (llama_state_get_data L c) = (r, c') \<Longrightarrow> r \<noteq> 0 \<Longrightarrow> cells c' = cells c"
  using assms unfolding llama_ok_def by blast+

section \<open>The wrapper fulfils the contract\<close>

text \<open>The counter is in step with the memory of sequence 0.\<close>

definition real_ok :: "('c \<Rightarrow> int \<Rightarrow> tokens) \<Rightarrow> 'c RealLlamaBackend \<Rightarrow> bool" where
  "real_ok cells b \<longleftrightarrow> rb_n_past b = length (cells (rb_ctx b) 0)"

lemma single_batch_simps [simp]:
  "length (single_batch p ts a) = length ts"
  "i < length ts \<Longrightarrow> single_batch p ts a ! i =
     \<lparr>bt_token = ts ! i, bt_pos = int p + int i, bt_seq = 0, bt_logits = (a \<or> i = length ts - 1)\<rparr>"
  by (simp_all add: single_batch_def)

lemma single_batch_take:
  "i \<le> length ts \<Longrightarrow> batch_tokens (take i (single_batch p ts a)) s = (if s = 0 then take i ts else [])"
proof (induction i)
  case (Suc i)
  then show ?case by (simp add: take_Suc_conv_app_nth batch_tokens_def)
qed (simp add: batch_tokens_def)

lemma single_batch_tokens: "batch_tokens (single_batch p ts a) s = (if s = 0 then ts else [])"
  using single_batch_take [of "length ts" ts p a s] by simp

lemma single_batch_placed: "placed cs (single_batch (length (cs 0)) ts a)"
  by (auto simp: placed_def single_batch_take)

lemma collect_logits_Inr:
  "collect_logits msg f sh is = Inr ls \<Longrightarrow> length ls = length is \<and> (\<forall>j<length is. f (is ! j) = Some (ls ! j))"
proof (induction "is" arbitrary: ls)
  case (Cons i "is")
  then obtain l ls' where "f i = Some l" "collect_logits msg f sh is = Inr ls'" "ls = l # ls'"
    by (cases "collect_logits msg f sh is") (auto split: option.splits)
  with Cons.IH [OF this(2)] show ?case by (auto simp: nth_Cons split: nat.split)
qed simp

lemma decode_impl_ok:
  assumes "llama_ok L cells eval" and "real_ok cells b" and "decode_impl L b ts a = (Inr ls, b')"
  shows "real_ok cells b' \<and> cells (rb_ctx b') 0 = cells (rb_ctx b) 0 @ ts \<and> ts \<noteq> [] \<and>
    ls = map (\<lambda>i. eval (cells (rb_ctx b) 0 @ take (Suc i) ts)) [(if a then 0 else length ts - 1)..<length ts]"
proof -
  let ?bt = "single_batch (rb_n_past b) ts a" and ?lo = "if a then 0 else length ts - 1"
  from assms(3) obtain ctx where ne: "ts \<noteq> []" and d: "llama_decode L (rb_ctx b) ?bt = (0, ctx)"
    and c: "collect_logits ''no logits returned at batch position '' (llama_get_logits_ith L ctx) string_of_nat
        [?lo..<length ts] = Inr ls"
    and b': "b' = \<lparr>rb_ctx = ctx, rb_n_past = rb_n_past b + length ts\<rparr>"
    by (auto simp: decode_impl_def Let_def split: if_splits prod.splits)
  have placed: "placed (cells (rb_ctx b)) ?bt"
    using single_batch_placed [of "cells (rb_ctx b)" ts a] assms(2) by (simp add: real_ok_def)
  note D = llama_decodeD [OF assms(1) placed d]
  have kv: "cells ctx 0 = cells (rb_ctx b) 0 @ ts" using D(1) [of 0] by (simp add: single_batch_tokens)
  have "ls ! j = eval (cells (rb_ctx b) 0 @ take (Suc (?lo + j)) ts)" if "j < length ts - ?lo" for j
  proof -
    have j: "?lo + j < length ts" "llama_get_logits_ith L ctx (?lo + j) = Some (ls ! j)"
      using collect_logits_Inr [OF c] that by auto
    have req: "bt_logits (?bt ! (?lo + j))" using j(1) by auto
    from D(2) [OF _ req j(2)] j(1) show ?thesis by (simp add: single_batch_take)
  qed
  moreover have "length ls = length ts - ?lo" using collect_logits_Inr [OF c] by simp
  ultimately have "ls = map (\<lambda>i. eval (cells (rb_ctx b) 0 @ take (Suc i) ts)) [?lo..<length ts]"
    by (intro nth_equalityI) auto
  with kv ne b' assms(2) show ?thesis by (simp add: real_ok_def)
qed


lemma real_reset_ok:
  "llama_ok L cells eval \<Longrightarrow> real_ok cells (real_reset L b) \<and> cells (rb_ctx (real_reset L b)) 0 = []"
  by (simp add: real_ok_def real_reset_def llama_memoryD(4))

lemma map_sum_Inr_iff: "map_sum id f x = Inr y \<longleftrightarrow> (\<exists>z. x = Inr z \<and> y = f z)"
  by (cases x) auto

lemma last_logits: "ts \<noteq> [] \<Longrightarrow> last (map f [length ts - 1..<length ts]) = f (length ts - 1)"
  by (cases "length ts") auto

lemma real_backend_kv:
  assumes L: "llama_ok L cells eval"
  shows "kv_backend (real_backend L) (real_ok cells) (\<lambda>b. cells (rb_ctx b) 0) eval"
proof (unfold_locales, goal_cases)
  case (1 b)
  then show ?case using real_reset_ok [OF L] by (simp add: real_backend_def)
next
  case (2 b ts l b')
  then obtain ls where "decode_impl L b ts False = (Inr ls, b')" "l = last ls"
    by (auto simp: real_backend_def real_decode_append_def map_prod_def map_sum_Inr_iff split: prod.splits)
  from decode_impl_ok [OF L 2(1) this(1)] this(2) show ?case by (auto simp: last_logits [simplified])
next
  case (3 b ts l b')
  then obtain ls where "decode_impl L (real_reset L b) ts False = (Inr ls, b')" "l = last ls"
    by (auto simp: real_backend_def real_decode_def map_prod_def map_sum_Inr_iff split: prod.splits)
  from decode_impl_ok [OF L _ this(1)] real_reset_ok [OF L, of b] this(2) show ?case by (auto simp: last_logits [simplified])
next
  case (4 b ts ls b')
  then have "decode_impl L b ts True = (Inr ls, b')" by (simp add: real_backend_def real_decode_batch_def)
  from decode_impl_ok [OF L 4(1) this] show ?case by simp
next
  case (5 b n u b')
  then show ?case
    by (auto simp: real_backend_def real_truncate_to_def real_ok_def Let_def llama_memoryD(1) [OF L]
        split: if_splits prod.splits)
next
  case (6 b)
  then show ?case by (simp add: real_backend_def real_ok_def)
next
  case (7 b d b0 u b')
  then show ?case
    by (auto simp: real_backend_def real_state_data_def real_set_state_def real_ok_def Let_def
        llama_memoryD(5) [OF L] split: if_splits prod.splits)
qed

lemma length_slice_batch [simp]: "length (slice_batch s) = length (sl_tokens s)"
  by (simp add: slice_batch_def)

lemma batch_tokens_append: "batch_tokens (xs @ ys) i = batch_tokens xs i @ batch_tokens ys i"
  by (simp add: batch_tokens_def)

lemma slice_batch_take:
  "batch_tokens (take t (slice_batch s)) i = (if i = sl_seq_id s then take t (sl_tokens s) else [])"
proof -
  have "filter (\<lambda>e. bt_seq e = i) (take t (slice_batch s)) = (if i = sl_seq_id s then take t (slice_batch s) else [])"
    by (auto simp: slice_batch_def take_map filter_map o_def)
  moreover have "map bt_token (slice_batch s) = sl_tokens s"
    by (simp add: slice_batch_def o_def map_nth)
  ultimately show ?thesis by (simp add: batch_tokens_def take_map [symmetric])
qed

lemma slice_batch_tokens: "batch_tokens (slice_batch s) i = (if i = sl_seq_id s then sl_tokens s else [])"
  using slice_batch_take [of "length (sl_tokens s)" s i] by simp

lemma batch_tokens_other: "i \<notin> sl_seq_id ` set ss \<Longrightarrow> batch_tokens (concat (map slice_batch ss)) i = []"
proof (induction ss)
  case (Cons s ss)
  then show ?case by (simp add: batch_tokens_append slice_batch_tokens)
qed (simp add: batch_tokens_def)

lemma slice_at:
  "i < length (concat (map slice_batch ss)) \<Longrightarrow> \<exists>pre s post t. ss = pre @ s # post \<and>
     i = length (concat (map slice_batch pre)) + t \<and> t < length (sl_tokens s)"
proof (induction ss arbitrary: i)
  case (Cons s ss)
  show ?case
  proof (cases "i < length (sl_tokens s)")
    case True
    then show ?thesis by (intro exI [of _ "[]"] exI [of _ s] exI [of _ ss] exI [of _ i]) simp
  next
    case False
    then have "i - length (sl_tokens s) < length (concat (map slice_batch ss))" using Cons.prems by auto
    from Cons.IH [OF this] obtain pre s' post t where
      "ss = pre @ s' # post" "i - length (sl_tokens s) = length (concat (map slice_batch pre)) + t"
      "t < length (sl_tokens s')" by blast
    with False show ?thesis
      by (intro exI [of _ "s # pre"] exI [of _ s'] exI [of _ post] exI [of _ t]) auto
  qed
qed simp

lemma slice_take:
  assumes "distinct (map sl_seq_id (pre @ s # post))" and "t \<le> length (sl_tokens s)"
  shows "batch_tokens (take (length (concat (map slice_batch pre)) + t) (concat (map slice_batch (pre @ s # post))))
    (sl_seq_id s) = take t (sl_tokens s)"
  using assms by (simp add: batch_tokens_append slice_batch_take batch_tokens_other)

lemma slices_placed:
  assumes "distinct (map sl_seq_id ss)" and "list_all (\<lambda>s. sl_pos_start s = length (cs (sl_seq_id s))) ss"
  shows "placed cs (concat (map slice_batch ss))"
  unfolding placed_def
proof (intro allI impI)
  fix i assume "i < length (concat (map slice_batch ss))"
  from slice_at [OF this] obtain pre s post t where ss: "ss = pre @ s # post"
    and i: "i = length (concat (map slice_batch pre)) + t" and t: "t < length (sl_tokens s)" by blast
  have e: "concat (map slice_batch ss) ! i = slice_batch s ! t"
    using t by (simp add: ss i nth_append)
  have "batch_tokens (take i (concat (map slice_batch ss))) (sl_seq_id s) = take t (sl_tokens s)"
    unfolding ss i by (rule slice_take) (use assms(1) t ss in simp_all)
  with e t assms(2) ss show "bt_pos (concat (map slice_batch ss) ! i) =
      int (length (cs (bt_seq (concat (map slice_batch ss) ! i))) +
        length (batch_tokens (take i (concat (map slice_batch ss))) (bt_seq (concat (map slice_batch ss) ! i))))"
    by (simp add: slice_batch_def)
qed

lemma nth_slice_ends:
  "slice_ends i (pre @ s # post) ! length pre
     = i + int (length (concat (map slice_batch pre))) + int (length (sl_tokens s)) - 1"
  by (induction pre arbitrary: i) auto

lemma length_slice_ends [simp]: "length (slice_ends i ss) = length ss"
  by (induction ss arbitrary: i) auto

lemma real_backend_seqs:
  assumes L: "llama_ok L cells eval"
  shows "seq_backend (real_backend L) (\<lambda>b. cells (rb_ctx b)) eval"
proof (unfold_locales, goal_cases)
  case (1 ss b ls b')
  let ?bt = "concat (map slice_batch ss)"
  let ?f = "\<lambda>ctx i. if i < 0 then None else llama_get_logits_ith L ctx (nat i)"
  from 1(3) obtain ctx where d: "llama_decode L (rb_ctx b) ?bt = (0, ctx)"
    and c: "collect_logits ''no logits at multi-seq batch position '' (?f ctx) string_of_int (slice_ends 0 ss) = Inr ls"
    and b': "b' = b\<lparr>rb_ctx := ctx\<rparr>"
    by (auto simp: real_backend_def real_decode_seqs_def Let_def split: if_splits prod.splits)
  have "placed (cells (rb_ctx b)) ?bt" using 1(1,2) by (intro slices_placed) (auto simp: list_all_iff)
  note D = llama_decodeD [OF L this d]
  have tok: "batch_tokens ?bt (sl_seq_id s) = sl_tokens s" if "s \<in> set ss" for s
  proof -
    from that obtain pre post where ss: "ss = pre @ s # post" by (meson split_list)
    with 1(1) show ?thesis
      by (simp add: batch_tokens_append slice_batch_tokens batch_tokens_other)
  qed
  have "ls ! j = eval (cells (rb_ctx b) (sl_seq_id (ss ! j)) @ sl_tokens (ss ! j))" if j: "j < length ss" for j
  proof -
    let ?pre = "take j ss" and ?s = "ss ! j"
    have ss: "ss = ?pre @ ?s # drop (Suc j) ss" using j by (rule id_take_nth_drop)
    have ne: "sl_tokens ?s \<noteq> []" using 1(2) j by (auto simp: list_all_length)
    let ?e = "length (concat (map slice_batch ?pre)) + (length (sl_tokens ?s) - 1)"
    have "slice_ends 0 ss ! j = int ?e"
      using nth_slice_ends [of 0 ?pre ?s "drop (Suc j) ss"] ss ne j by (simp add: of_nat_diff Suc_leI)
    then have l: "llama_get_logits_ith L ctx ?e = Some (ls ! j)"
    proof -
      have "?f ctx (slice_ends 0 ss ! j) = Some (ls ! j)"
        using collect_logits_Inr [OF c, THEN conjunct2, rule_format, of j] j by simp
      then show ?thesis unfolding \<open>slice_ends 0 ss ! j = int ?e\<close> by (simp only: nat_int split: if_splits)
    qed
    have lt: "length (sl_tokens ?s) - 1 < length (sl_tokens ?s)" using ne by simp
    have bt: "?bt = concat (map slice_batch ?pre) @ slice_batch ?s @ concat (map slice_batch (drop (Suc j) ss))"
      by (subst ss) simp
    have e: "?bt ! ?e = slice_batch ?s ! (length (sl_tokens ?s) - 1)" "?e < length ?bt"
    proof -
      show "?bt ! ?e = slice_batch ?s ! (length (sl_tokens ?s) - 1)"
        using lt by (subst bt) (simp add: nth_append)
      show "?e < length ?bt" using lt by (subst bt) (simp only: length_append length_slice_batch)
    qed
    have en: "bt_seq (?bt ! ?e) = sl_seq_id ?s" "bt_logits (?bt ! ?e)"
      unfolding e(1) using lt by (simp_all add: slice_batch_def)
    have se: "Suc ?e = length (concat (map slice_batch ?pre)) + length (sl_tokens ?s)" using ne by simp
    have "batch_tokens (take (Suc ?e) ?bt) (sl_seq_id ?s) = sl_tokens ?s"
      unfolding se using slice_take [of ?pre ?s "drop (Suc j) ss" "length (sl_tokens ?s)"] 1(1) ss by simp
    with D(2) [OF e(2) en(2) l] en(1) show ?thesis by simp
  qed
  then have "ls = map (\<lambda>s. eval (cells (rb_ctx b) (sl_seq_id s) @ sl_tokens s)) ss"
    using collect_logits_Inr [OF c] by (intro nth_equalityI) auto
  with D(1) tok batch_tokens_other b' show ?case by simp
next
  case (2 b i)
  then show ?case by (simp add: real_backend_def real_clear_seq_def llama_memoryD(2) [OF L])
next
  case (3 b dst src n)
  then show ?case by (simp add: real_backend_def real_copy_seq_def llama_memoryD(3) [OF L])
qed


section \<open>A library that behaves as documented\<close>

text \<open>
  A small inference library over any evaluation function, for the examples: it keeps the
  tokens of every sequence, refuses batches that are not placed, and its state blob holds
  one record of five bytes per token and per end of sequence.
\<close>

record ref_ctx =
  rc_seqs :: "tokens list"
  rc_logits :: "logits list"

definition ref_cells :: "ref_ctx \<Rightarrow> int \<Rightarrow> tokens" where
  "ref_cells c i = (if 0 \<le> i \<and> nat i < length (rc_seqs c) then rc_seqs c ! nat i else [])"

definition ref_update :: "tokens list \<Rightarrow> int \<Rightarrow> tokens \<Rightarrow> tokens list" where
  "ref_update ss i v = (if i < 0 then ss else (ss @ replicate (Suc (nat i) - length ss) [])[nat i := v])"

fun ref_append :: "ref_ctx \<Rightarrow> batch_entry list \<Rightarrow> ref_ctx" where
  "ref_append c [] = c"
| "ref_append c (e # es) =
     ref_append (c\<lparr>rc_seqs := ref_update (rc_seqs c) (bt_seq e) (ref_cells c (bt_seq e) @ [bt_token e])\<rparr>) es"

definition ref_decode :: "(tokens \<Rightarrow> logits) \<Rightarrow> ref_ctx \<Rightarrow> batch_entry list \<Rightarrow> int \<times> ref_ctx" where
  "ref_decode ev c bt =
     (if placed (ref_cells c) bt \<and> list_all (\<lambda>e. 0 \<le> bt_seq e) bt
      then (0, (ref_append c bt)\<lparr>rc_logits := map (\<lambda>i. ev (ref_cells c (bt_seq (bt ! i)) @
             batch_tokens (take (Suc i) bt) (bt_seq (bt ! i)))) [0..<length bt]\<rparr>)
      else (1, c))"

definition ref_state :: "ref_ctx \<Rightarrow> bytes" where
  "ref_state c = CHR ''L'' # concat (map (\<lambda>ts. concat (map (\<lambda>t. CHR ''t'' # le_bytes 4 t) ts) @ ''s0000'') (rc_seqs c))"

fun ref_load :: "bytes \<Rightarrow> tokens \<Rightarrow> tokens list" where
  "ref_load (k # a # b # c # d # rest) cur =
     (if k = CHR ''s'' then cur # ref_load rest [] else ref_load rest (cur @ [read_le [a, b, c, d]]))"
| "ref_load _ cur = []"

definition ref_llama :: "(tokens \<Rightarrow> logits) \<Rightarrow> (TokenId \<Rightarrow> bool) \<Rightarrow> nat \<Rightarrow> ref_ctx llama_lib" where
  "ref_llama ev eog n_ctx =
     \<lparr>llama_decode = ref_decode ev,
      llama_get_logits_ith = (\<lambda>c i. if i < length (rc_logits c) then Some (rc_logits c ! i) else None),
      llama_memory_seq_rm = (\<lambda>c s p0 p1.
        (True, c\<lparr>rc_seqs := ref_update (rc_seqs c) s (if p0 < 0 then [] else take (nat p0) (ref_cells c s))\<rparr>)),
      llama_memory_seq_cp = (\<lambda>c src dst p0 p1.
        c\<lparr>rc_seqs := ref_update (rc_seqs c) dst (take (nat p1) (ref_cells c src))\<rparr>),
      llama_memory_clear = (\<lambda>c. c\<lparr>rc_seqs := []\<rparr>),
      llama_state_get_data = ref_state,
      llama_state_set_data = (\<lambda>c d.
        if d = [] then (0, c) else (length d, c\<lparr>rc_seqs := ref_load (tl d) []\<rparr>)),
      llama_tokenize = (\<lambda>txt cap _.
        (if cap = 0 then - int (length txt) else int (length txt), map (\<lambda>ch. word_of_nat (of_char ch)) txt)),
      llama_detokenize = (\<lambda>ts cap.
        (if cap = 0 then - int (length ts) else int (length ts), map (\<lambda>t. char_of (unat t)) ts)),
      llama_token_to_piece = (\<lambda>t cap. (1, [char_of (unat t)])),
      llama_model_chat_template = None,
      llama_chat_apply_template = (\<lambda>_ _ _. (- 1, [])),
      llama_n_ctx = n_ctx, llama_vocab_n_tokens = 256, llama_vocab_eos = 0, llama_vocab_is_eog = eog,
      llama_model_is_recurrent = False, llama_model_is_hybrid = False\<rparr>"

lemma ref_cells_update: "0 \<le> i \<Longrightarrow> ref_cells (c\<lparr>rc_seqs := ref_update (rc_seqs c) i v\<rparr>) = (ref_cells c)(i := v)"
proof
  fix j assume i: "0 \<le> i"
  define k where "k = nat i"
  have seqs: "rc_seqs (c\<lparr>rc_seqs := ref_update (rc_seqs c) i v\<rparr>) = (rc_seqs c @ replicate (Suc k - length (rc_seqs c)) [])[k := v]"
    using i by (simp add: ref_update_def k_def)
  show "ref_cells (c\<lparr>rc_seqs := ref_update (rc_seqs c) i v\<rparr>) j = ((ref_cells c)(i := v)) j"
  proof (cases "j = i")
    case True
    have "k < length (rc_seqs c) + (Suc k - length (rc_seqs c))" by linarith
    with True i show ?thesis unfolding ref_cells_def seqs by (simp add: k_def [symmetric])
  next
    case False
    show ?thesis
    proof (cases "0 \<le> j")
      case True
      with False i have "nat j \<noteq> k" by (simp add: k_def)
      with False True show ?thesis
        unfolding ref_cells_def seqs by (simp add: nth_append nth_list_update_neq [of k "nat j"])
    next
      case False
      with \<open>j \<noteq> i\<close> show ?thesis by (simp add: ref_cells_def)
    qed
  qed
qed

lemma ref_cells_append:
  "list_all (\<lambda>e. 0 \<le> bt_seq e) bt \<Longrightarrow> ref_cells (ref_append c bt) s = ref_cells c s @ batch_tokens bt s"
  by (induction bt arbitrary: c) (auto simp: ref_cells_update batch_tokens_def)

lemma ref_cells_logits [simp]: "ref_cells (c\<lparr>rc_logits := l\<rparr>) = ref_cells c"
  by (simp add: fun_eq_iff ref_cells_def)

lemma ref_load_tokens:
  "ref_load (concat (map (\<lambda>t. CHR ''t'' # le_bytes 4 t) ts) @ rest) cur = ref_load rest (cur @ ts)"
proof (induction ts arbitrary: cur)
  case (Cons t ts)
  have four: "\<exists>a b c d. xs = [a, b, c, d]" if "length xs = 4" for xs :: bytes
    using that by (auto simp: numeral_eq_Suc length_Suc_conv)
  obtain a b c d where l: "le_bytes 4 t = [a, b, c, d]" using four [of "le_bytes 4 t"] by auto
  then have "read_le [a, b, c, d] = t" by (metis read_le_u32)
  with Cons l show ?case by simp
qed simp

lemma ref_load_state: "ref_load (tl (ref_state c)) [] = rc_seqs c"
proof -
  have "ref_load (concat (map (\<lambda>ts. concat (map (\<lambda>t. CHR ''t'' # le_bytes 4 t) ts) @ ''s0000'') ss)) [] = ss" for ss
    by (induction ss) (simp_all add: ref_load_tokens)
  then show ?thesis by (simp add: ref_state_def)
qed

lemma ref_llama_ok: "llama_ok (ref_llama ev eog n) ref_cells ev"
proof -
  have upd0: "ref_update ss i v = ss" if "i < 0" for ss i v using that by (simp add: ref_update_def)
  have neg: "ref_cells c s = []" if "s < 0" for c s using that by (simp add: ref_cells_def)
  have rm: "ref_cells (c\<lparr>rc_seqs := ref_update (rc_seqs c) s []\<rparr>) = (ref_cells c)(s := [])" for c s
    by (cases "s < 0") (auto simp: upd0 neg ref_cells_update fun_eq_iff)
  have same: "ref_cells (c\<lparr>rc_seqs := rc_seqs d\<rparr>) = ref_cells d" for c d
    by (simp add: fun_eq_iff ref_cells_def)
  show ?thesis
    unfolding llama_ok_def ref_llama_def llama_lib.simps
    by (auto simp: ref_decode_def ref_cells_append ref_cells_update rm ref_load_state same split: if_splits)
       (simp_all add: ref_cells_def ref_state_def)
qed

interpretation real: kv_backend "real_backend (ref_llama ev eog n)" "real_ok ref_cells" "\<lambda>b. ref_cells (rb_ctx b) 0" ev
  for ev eog n
  by (rule real_backend_kv [OF ref_llama_ok])

interpretation real: seq_backend "real_backend (ref_llama ev eog n)" "\<lambda>b. ref_cells (rb_ctx b)" ev
  for ev eog n
  by (rule real_backend_seqs [OF ref_llama_ok])


section \<open>Properties\<close>



end
