(* ===== verification/Cache_Manager.thy ===== *)
theory Cache_Manager
  imports Disk_Store Backend
begin

text \<open>
  Named KV-cache snapshots (\<open>src/src/cache/cache_manager.cpp\<close>): the entry envelope over the disk
  store, and the staging area where a prefetch leaves decompressed payloads. zstd and the
  backend are parameters; \<open>disk\<close> flags say whether a write succeeds.

  The ghost state is the history of snapshots stored under each key. The main results: a load
  that succeeds restores a snapshot that was stored under that key, with its position
  count; a damaged entry is refused and removed before it reaches the backend; the staging
  area accounts for its bytes and respects its budget, except when two prefetches of one key
  interleave.
\<close>

section \<open>State and operations\<close>

datatype cache_exn = Cache_exn cache_error | Model_exn model_exn

record Pronta =
  pr_stato :: bytes
  pr_n_past :: nat

record CacheManager =
  cg_store :: DiskCacheStore
  cg_compress :: bool
  cg_staging_budget :: nat
  cg_hits :: nat
  cg_misses :: nat
  cg_stores :: nat
  cg_staging :: "(bytes \<times> Pronta) list"
  cg_staging_lru :: "bytes list"
  cg_staging_usati :: nat

definition CacheManager_open :: "nat \<Rightarrow> bool \<Rightarrow> nat \<Rightarrow> dir_item list \<Rightarrow> CacheManager" where
  "CacheManager_open max_bytes compr staging_bytes items =
     \<lparr>cg_store = DiskCacheStore_open max_bytes items, cg_compress = compr, cg_staging_budget = staging_bytes,
      cg_hits = 0, cg_misses = 0, cg_stores = 0, cg_staging = [], cg_staging_lru = [], cg_staging_usati = 0\<rparr>"

definition kMagic :: bytes where "kMagic = ''SVK1''"
definition kEnvelopeHeader :: nat where "kEnvelopeHeader = 4 + 8 + 4"

text \<open>The hashed material of a key: the tag, a zero byte, the tokens.\<close>

definition key_material :: "bytes \<Rightarrow> tokens \<Rightarrow> bytes" where
  "key_material tag tokens = tag @ [CHR 0x00] @ concat (map (le_bytes 4) tokens)"

definition make_key :: "bytes \<Rightarrow> tokens \<Rightarrow> bytes" where
  "make_key model_tag tokens =
     (let raw = key_material model_tag tokens;
          h1 = checksum raw;
          h2 = checksum (raw @ ''x'')
      in ''kv-'' @ string_of_nat (unat h1) @ ''-'' @ string_of_nat (unat h2) @ ''-n'' @
         string_of_nat (length tokens))"

text \<open>The bytes of an entry, from the packed payload.\<close>

definition envelope :: "bytes \<Rightarrow> nat \<Rightarrow> bytes" where
  "envelope packed n_past =
     kMagic @ le_bytes 8 (checksum packed) @ le_bytes 4 (word_of_nat n_past :: u32) @ packed"

definition store_state :: "zstd_lib \<Rightarrow> 'b LlamaBackend \<Rightarrow> bool \<Rightarrow> CacheManager \<Rightarrow> bytes \<Rightarrow> 'b \<Rightarrow> nat
    \<Rightarrow> (cache_exn + bool) \<times> CacheManager" where
  "store_state z B disk m key backend n_past =
     (case be_state_data B backend of
        Inl e \<Rightarrow> (Inl (Model_exn e), m)
      | Inr raw \<Rightarrow>
          (case (if cg_compress m then compress z raw else Inr (''R'' @ raw)) of
             Inl e \<Rightarrow> (Inl (Cache_exn e), m)
           | Inr packed \<Rightarrow>
               let (ok, s) = put disk (cg_store m) key (envelope packed n_past)
               in if \<not> ok then (Inr False, m\<lparr>cg_store := s\<rparr>)
                  else (Inr True, m\<lparr>cg_store := s, cg_stores := cg_stores m + 1\<rparr>)))"

text \<open>
  The checks of an entry shared by \<open>load_state\<close> and \<open>prefetch\<close>: size, magic, checksum,
  decompression. \<open>None\<close> is every way to fail, all of which remove the entry.
\<close>

definition open_entry :: "zstd_lib \<Rightarrow> bytes \<Rightarrow> Pronta option" where
  "open_entry z entry =
     (if length entry < kEnvelopeHeader \<or> take 4 entry \<noteq> kMagic then None
      else let expected = read_le (take 8 (drop 4 entry)) :: u64;
               n_past = unat (read_le (take 4 (drop 12 entry)) :: u32);
               packed = drop kEnvelopeHeader entry
           in if checksum packed \<noteq> expected then None
              else (case decompress z packed of
                      Inl _ \<Rightarrow> None
                    | Inr stato \<Rightarrow> Some \<lparr>pr_stato = stato, pr_n_past = n_past\<rparr>))"

text \<open>\<open>prefetch\<close> up to the point where it takes the staging lock again.\<close>

definition prefetch_read :: "zstd_lib \<Rightarrow> CacheManager \<Rightarrow> bytes \<Rightarrow> Pronta option \<times> CacheManager" where
  "prefetch_read z m key =
     (let (entry, s) = get (cg_store m) key
      in case entry of
           None \<Rightarrow> (None, m\<lparr>cg_store := s\<rparr>)
         | Some e \<Rightarrow>
             (case open_entry z e of
                None \<Rightarrow> (None, m\<lparr>cg_store := snd (remove s key)\<rparr>)
              | Some p \<Rightarrow> (Some p, m\<lparr>cg_store := s\<rparr>)))"

text \<open>The LRU loop: the oldest staged entries go, never the one just entered.\<close>

fun staging_evict :: "nat \<Rightarrow> bytes list \<Rightarrow> nat \<Rightarrow> (bytes \<times> Pronta) list
    \<Rightarrow> bytes list \<times> nat \<times> (bytes \<times> Pronta) list" where
  "staging_evict budget (vecchia # x # lru) usati staging =
     (if budget < usati
      then (case map_of staging vecchia of
              None \<Rightarrow> staging_evict budget (x # lru) usati staging
            | Some p \<Rightarrow> staging_evict budget (x # lru) (usati - length (pr_stato p)) (AList.delete vecchia staging))
      else (vecchia # x # lru, usati, staging))"
| "staging_evict budget lru usati staging = (lru, usati, staging)"

text \<open>The second critical section of \<open>prefetch\<close>.\<close>

definition prefetch_stage :: "CacheManager \<Rightarrow> bytes \<Rightarrow> Pronta \<Rightarrow> CacheManager" where
  "prefetch_stage m key p =
     (let (lru, usati, staging) =
            staging_evict (cg_staging_budget m) (cg_staging_lru m @ [key])
              (cg_staging_usati m + length (pr_stato p)) (AList.update key p (cg_staging m))
      in m\<lparr>cg_staging_lru := lru, cg_staging_usati := usati, cg_staging := staging\<rparr>)"

definition prefetch :: "zstd_lib \<Rightarrow> CacheManager \<Rightarrow> bytes \<Rightarrow> bool \<times> CacheManager" where
  "prefetch z m key =
     (if cg_staging_budget m = 0 then (False, m)
      else if map_of (cg_staging m) key \<noteq> None then (True, m)
      else case prefetch_read z m key of
             (None, m1) \<Rightarrow> (False, m1)
           | (Some p, m1) \<Rightarrow> (True, prefetch_stage m1 key p))"

definition preleva_staging :: "CacheManager \<Rightarrow> bytes \<Rightarrow> Pronta option \<times> CacheManager" where
  "preleva_staging m key =
     (case map_of (cg_staging m) key of
        None \<Rightarrow> (None, m)
      | Some p \<Rightarrow>
          (Some p, m\<lparr>cg_staging_usati := cg_staging_usati m - length (pr_stato p),
                     cg_staging := AList.delete key (cg_staging m),
                     cg_staging_lru := removeAll key (cg_staging_lru m)\<rparr>))"

definition cm_hit :: "CacheManager \<Rightarrow> CacheManager" where
  "cm_hit m = m\<lparr>cg_hits := cg_hits m + 1\<rparr>"

definition cm_miss :: "CacheManager \<Rightarrow> CacheManager" where
  "cm_miss m = m\<lparr>cg_misses := cg_misses m + 1\<rparr>"

text \<open>A refused entry: removed from the store and counted as a miss.\<close>

definition cm_reject :: "CacheManager \<Rightarrow> bytes \<Rightarrow> CacheManager" where
  "cm_reject m key = cm_miss (m\<lparr>cg_store := snd (remove (cg_store m) key)\<rparr>)"

definition load_state :: "zstd_lib \<Rightarrow> 'b LlamaBackend \<Rightarrow> CacheManager \<Rightarrow> bytes \<Rightarrow> 'b
    \<Rightarrow> bool \<times> CacheManager \<times> 'b" where
  "load_state z B m key backend =
     (case preleva_staging m key of
        (Some p, m1) \<Rightarrow>
          (case be_set_state B backend (pr_stato p) (pr_n_past p) of
             (Inr _, b) \<Rightarrow> (True, cm_hit m1, b)
           | (Inl _, b) \<Rightarrow> (False, cm_reject m1 key, b))
      | (None, m1) \<Rightarrow>
          let (entry, s) = get (cg_store m1) key; m2 = m1\<lparr>cg_store := s\<rparr>
          in case entry of
               None \<Rightarrow> (False, cm_miss m2, backend)
             | Some e \<Rightarrow>
                 (case open_entry z e of
                    None \<Rightarrow> (False, cm_reject m2 key, backend)
                  | Some p \<Rightarrow>
                      (case be_set_state B backend (pr_stato p) (pr_n_past p) of
                         (Inr _, b) \<Rightarrow> (True, cm_hit m2, b)
                       | (Inl _, b) \<Rightarrow> (False, cm_reject m2 key, b))))"

section \<open>The envelope\<close>

lemma length_envelope: "length (envelope packed n) = kEnvelopeHeader + length packed"
  by (simp add: envelope_def kMagic_def kEnvelopeHeader_def)

lemma envelope_parts:
  "take 4 (envelope packed n) = kMagic"
  "take 8 (drop 4 (envelope packed n)) = le_bytes 8 (checksum packed)"
  "take 4 (drop 12 (envelope packed n)) = le_bytes 4 (word_of_nat n :: u32)"
  "drop kEnvelopeHeader (envelope packed n) = packed"
  by (simp_all add: envelope_def kMagic_def kEnvelopeHeader_def)

lemma read_le_u64 [simp]: "read_le (le_bytes 8 (v :: u64)) = v"
  by (simp add: read_le_le_bytes take_bit_word_eq_self)

lemma open_envelope:
  assumes "n < 2 ^ 32"
  shows "open_entry z (envelope packed n) =
    (case decompress z packed of Inl _ \<Rightarrow> None | Inr stato \<Rightarrow> Some \<lparr>pr_stato = stato, pr_n_past = n\<rparr>)"
  using assms
  by (simp add: open_entry_def length_envelope envelope_parts Let_def unat_of_nat split: sum.split)


section \<open>What the manager can restore\<close>

type_synonym history = "bytes \<Rightarrow> (bytes \<times> nat) set"

text \<open>An entry that opens to a snapshot stored under the key.\<close>

definition snapshot_of :: "zstd_lib \<Rightarrow> history \<Rightarrow> bytes \<Rightarrow> bytes \<Rightarrow> bool" where
  "snapshot_of z H k e \<longleftrightarrow> (\<exists>d n. (d, n) \<in> H k \<and> open_entry z e = Some \<lparr>pr_stato = d, pr_n_past = n\<rparr>)"

text \<open>Everything indexed, lying on disk or staged under a key is a snapshot stored under it.\<close>

definition restorable :: "zstd_lib \<Rightarrow> history \<Rightarrow> CacheManager \<Rightarrow> bool" where
  "restorable z H m \<longleftrightarrow>
     (\<forall>k e. peek (cg_store m) k = Some e \<longrightarrow> snapshot_of z H k e) \<and>
     files_hold (snapshot_of z H) (ds_files (cg_store m)) \<and>
     (\<forall>k p. map_of (cg_staging m) k = Some p \<longrightarrow> (pr_stato p, pr_n_past p) \<in> H k)"

lemma restorable_store:
  assumes "restorable z H m" and "peek s \<subseteq>\<^sub>m peek (cg_store m)" and "ds_files s \<subseteq>\<^sub>m ds_files (cg_store m)"
  shows "restorable z H (m\<lparr>cg_store := s\<rparr>)"
  using assms files_hold_le by (auto simp: restorable_def dest: map_leD)

lemma restorable_counters [simp]:
  "restorable z H (cm_hit m) = restorable z H m" "restorable z H (cm_miss m) = restorable z H m"
  by (simp_all add: restorable_def cm_hit_def cm_miss_def)

lemma restorable_reject [reame_inv]: "restorable z H m \<Longrightarrow> restorable z H (cm_reject m k)"
  by (simp add: cm_reject_def restorable_store remove_peek_le remove_files)

lemma restorable_entry:
  assumes "restorable z H m" and "peek (cg_store m) k = Some e"
  obtains p where "open_entry z e = Some p" "(pr_stato p, pr_n_past p) \<in> H k"
  using assms by (fastforce simp: restorable_def snapshot_of_def)

lemma staging_evict_mapof:
  "staging_evict budget lru u st = (lru', u', st') \<Longrightarrow> map_of st' \<subseteq>\<^sub>m map_of st"
proof (induction budget lru u st rule: staging_evict.induct)
  case (1 budget v x lru u st)
  show ?case
  proof (cases "budget < u")
    case True
    have del: "map_of (AList.delete v st) \<subseteq>\<^sub>m map_of st"
      by (simp add: AList.delete_conv' map_le_iff)
    show ?thesis
      using 1 True by (cases "map_of st v") (auto intro: map_le_trans [OF _ del])
  qed (use 1 in simp)
qed (simp_all add: map_le_def)

lemma preleva_restorable [reame_inv]:
  "restorable z H m \<Longrightarrow> preleva_staging m k = (r, m') \<Longrightarrow> restorable z H m'"
  by (auto simp: preleva_staging_def restorable_def AList.delete_conv' split: option.splits if_splits)

lemma load_state_inv [reame_inv]:
  assumes "restorable z H m" and "load_state z B m k b = (r, m', b')"
  shows "restorable z H m' \<and>
    (r \<longrightarrow> (\<exists>d n u. (d, n) \<in> H k \<and> be_set_state B b d n = (Inr u, b')))"
proof -
  obtain st m1 where pr: "preleva_staging m k = (st, m1)" by fastforce
  have r1: "restorable z H m1" using preleva_restorable [OF assms(1) pr] .
  show ?thesis
  proof (cases st)
    case (Some p)
    then have "(pr_stato p, pr_n_past p) \<in> H k"
      using pr assms(1) by (auto simp: preleva_staging_def restorable_def split: option.splits)
    with Some pr r1 assms(2) show ?thesis
      by (auto simp: load_state_def intro: restorable_reject split: prod.splits sum.splits)
  next
    case None
    obtain e s where g: "get (cg_store m1) k = (e, s)" by fastforce
    have gs: "e = peek (cg_store m1) k" "peek s \<subseteq>\<^sub>m peek (cg_store m1)"
      using disk.get_spec [OF g] by simp_all
    have r2: "restorable z H (m1\<lparr>cg_store := s\<rparr>)" using restorable_store [OF r1 gs(2) get_files [OF g]] .
    show ?thesis
    proof (cases e)
      case None
      with \<open>st = None\<close> pr g r2 assms(2) show ?thesis by (auto simp: load_state_def)
    next
      case (Some v)
      with gs(1) restorable_entry [OF r1, of k v] obtain p where
        p: "open_entry z v = Some p" "(pr_stato p, pr_n_past p) \<in> H k" by metis
      with Some \<open>st = None\<close> pr g r2 assms(2) show ?thesis
        by (auto simp: load_state_def Let_def intro: restorable_reject split: prod.splits sum.splits)
    qed
  qed
qed

definition record_snap :: "bytes \<Rightarrow> bytes \<Rightarrow> nat \<Rightarrow> history \<Rightarrow> history" where
  "record_snap k d n H = H(k := insert (d, n) (H k))"

lemma restorable_mono: "restorable z H m \<Longrightarrow> (\<And>k. H k \<subseteq> H' k) \<Longrightarrow> restorable z H' m"
proof -
  assume r: "restorable z H m" and le: "\<And>k. H k \<subseteq> H' k"
  have "snapshot_of z H k e \<Longrightarrow> snapshot_of z H' k e" for k e using le by (auto simp: snapshot_of_def)
  with r le show ?thesis unfolding restorable_def using files_hold_mono by (metis subsetD)
qed

lemma record_snap_mono: "H k' \<subseteq> record_snap k d n H k'"
  by (auto simp: record_snap_def)

lemma store_state_inv [reame_inv]:
  assumes "restorable z H m" and "zstd_ok z" and "ok_key k" and "n < 2 ^ 32"
    and "be_state_data B b = Inr d" and "store_state z B w m k b n = (r, m')"
  shows "restorable z (record_snap k d n H) m'"
proof (cases "if cg_compress m then compress z d else Inr (''R'' @ d)")
  case (Inl e)
  with assms(5,6) have "m' = m" by (simp add: store_state_def)
  with assms(1) show ?thesis by (metis restorable_mono record_snap_mono)
next
  case (Inr packed)
  have dec: "decompress z packed = Inr d"
    using Inr decompress_compress [OF assms(2), of d packed] decompress_raw [of z d]
    by (auto simp: kFlagRaw_def split: if_splits)
  obtain ok s where p: "put w (cg_store m) k (envelope packed n) = (ok, s)" by fastforce
  have m': "m' = (if ok then m\<lparr>cg_store := s, cg_stores := cg_stores m + 1\<rparr> else m\<lparr>cg_store := s\<rparr>)"
    using Inr p assms(5,6) by (auto simp: store_state_def)
  have peek: "peek s k' = Some e \<Longrightarrow> peek (cg_store m) k' = Some e \<or> (k' = k \<and> e = envelope packed n)" for k' e
    using disk.put_same [of w "cg_store m" k "envelope packed n" s] disk.put_other [OF p assms(3), of k' e]
      disk.put_fail [of w "cg_store m" k "envelope packed n" s] p assms(3)
    by (cases ok; cases "k' = k") (auto dest: map_leD)
  have "open_entry z (envelope packed n) = Some \<lparr>pr_stato = d, pr_n_past = n\<rparr>"
    using open_envelope [OF assms(4), of z packed] dec by simp
  then have snap: "snapshot_of z (record_snap k d n H) k (envelope packed n)" by (auto simp: snapshot_of_def record_snap_def)
  have r: "restorable z (record_snap k d n H) m" using assms(1) by (rule restorable_mono) (rule record_snap_mono)
  then have "files_hold (snapshot_of z (record_snap k d n H)) (ds_files s)"
    using put_files_hold [where P = "snapshot_of z (record_snap k d n H)", OF _ assms(3) snap p] by (simp add: restorable_def)
  moreover have "snapshot_of z (record_snap k d n H) k' e" if "peek s k' = Some e" for k' e
    using peek [OF that] r snap by (auto simp: restorable_def)
  ultimately have "restorable z (record_snap k d n H) (m\<lparr>cg_store := s\<rparr>)"
    using r by (simp add: restorable_def)
  then show ?thesis using m' by (auto simp: restorable_def)
qed

lemma store_state_failed:
  assumes "be_state_data B b = Inl e"
  shows "store_state z B w m k b n = (Inl (Model_exn e), m)"
  using assms by (simp add: store_state_def)

lemma prefetch_read_inv:
  assumes "restorable z H m" and "prefetch_read z m k = (r, m')"
  shows "restorable z H m' \<and> (\<forall>p. r = Some p \<longrightarrow> (pr_stato p, pr_n_past p) \<in> H k) \<and>
    cg_staging m' = cg_staging m \<and> cg_staging_lru m' = cg_staging_lru m \<and>
    cg_staging_usati m' = cg_staging_usati m \<and> cg_staging_budget m' = cg_staging_budget m"
proof -
  obtain e s where g: "get (cg_store m) k = (e, s)" by fastforce
  have gs: "e = peek (cg_store m) k" "peek s \<subseteq>\<^sub>m peek (cg_store m)" using disk.get_spec [OF g] by simp_all
  have r2: "restorable z H (m\<lparr>cg_store := s\<rparr>)" using restorable_store [OF assms(1) gs(2) get_files [OF g]] .
  have r3: "restorable z H (m\<lparr>cg_store := snd (remove s k)\<rparr>)"
    using restorable_store [OF assms(1) map_le_trans [OF remove_peek_le gs(2)] map_le_trans [OF remove_files get_files [OF g]]] .
  show ?thesis
    using assms g gs(1) r2 r3 restorable_entry [OF assms(1), of k]
    by (fastforce simp: prefetch_read_def Let_def split: option.splits)
qed

lemma prefetch_inv [reame_inv]:
  assumes "restorable z H m" and "prefetch z m k = (r, m')"
  shows "restorable z H m'"
proof -
  have stage: "restorable z H (prefetch_stage m1 k p)"
    if "restorable z H m1" and "(pr_stato p, pr_n_past p) \<in> H k" for m1 p
  proof -
    obtain lru u st where e: "staging_evict (cg_staging_budget m1) (cg_staging_lru m1 @ [k])
        (cg_staging_usati m1 + length (pr_stato p)) (AList.update k p (cg_staging m1)) = (lru, u, st)"
      using prod_cases3 by blast
    from staging_evict_mapof [OF e] have le: "map_of st \<subseteq>\<^sub>m (map_of (cg_staging m1))(k \<mapsto> p)"
      by (simp add: AList.update_conv')
    have "(pr_stato q, pr_n_past q) \<in> H k'" if "map_of st k' = Some q" for k' q
      using map_leD [OF le that] \<open>restorable z H m1\<close> \<open>(pr_stato p, pr_n_past p) \<in> H k\<close>
      by (auto simp: restorable_def split: if_splits)
    with that(1) e show ?thesis by (auto simp: prefetch_stage_def restorable_def)
  qed
  obtain q m1 where r: "prefetch_read z m k = (q, m1)" by fastforce
  from prefetch_read_inv [OF assms(1) r] stage assms r show ?thesis
    by (auto simp: prefetch_def split: if_splits option.splits)
qed


section \<open>The staging area\<close>

definition staged_bytes :: "(bytes \<times> Pronta) list \<Rightarrow> nat" where
  "staged_bytes st = sum_list (map (length \<circ> pr_stato \<circ> snd) st)"

definition staging_wf :: "CacheManager \<Rightarrow> bool" where
  "staging_wf m \<longleftrightarrow>
     distinct (map fst (cg_staging m)) \<and> distinct (cg_staging_lru m) \<and>
     set (cg_staging_lru m) = fst ` set (cg_staging m) \<and>
     cg_staging_usati m = staged_bytes (cg_staging m) \<and>
     (cg_staging_usati m \<le> cg_staging_budget m \<or> length (cg_staging_lru m) \<le> 1)"

lemma staging_wfI:
  assumes "distinct (map fst st)" and "distinct lru" and "set lru = fst ` set st" and "u = staged_bytes st"
    and "u \<le> b \<or> length lru \<le> 1"
    and "cg_staging m = st" "cg_staging_lru m = lru" "cg_staging_usati m = u" "cg_staging_budget m = b"
  shows "staging_wf m"
  unfolding staging_wf_def assms(6-9) by (intro conjI) (fact assms)+

lemmas staging_wfD = staging_wf_def [THEN iffD1]

lemma staged_bytes_delete:
  "distinct (map fst st) \<Longrightarrow> map_of st k = Some p \<Longrightarrow>
     staged_bytes (AList.delete k st) = staged_bytes st - length (pr_stato p) \<and> length (pr_stato p) \<le> staged_bytes st"
proof (induction st)
  case (Cons x st)
  show ?case
  proof (cases "fst x = k")
    case True
    with Cons.prems have "map_of st k = None" by (auto simp: map_of_eq_None_iff)
    with True Cons.prems show ?thesis by (cases x) (auto simp: staged_bytes_def delete_absent)
  next
    case False
    with Cons show ?thesis by (cases x) (auto simp: staged_bytes_def)
  qed
qed simp

lemma fst_delete: "fst ` set (AList.delete k st) = fst ` set st - {k}"
  by (induction st) auto

lemma staging_evict_wf:
  "\<lbrakk>staging_evict budget lru u st = (lru', u', st'); distinct (map fst st); distinct lru;
    set lru = fst ` set st; u = staged_bytes st\<rbrakk> \<Longrightarrow>
   distinct (map fst st') \<and> distinct lru' \<and> set lru' = fst ` set st' \<and> u' = staged_bytes st' \<and>
   (u' \<le> budget \<or> length lru' \<le> 1)"
proof (induction budget lru u st rule: staging_evict.induct)
  case (1 budget v x lru u st)
  show ?case
  proof (cases "budget < u")
    case True
    from 1(6) have "v \<in> fst ` set st" by auto
    then obtain p where p: "map_of st v = Some p" by (metis map_of_eq_None_iff not_None_eq)
    note d = staged_bytes_delete [OF 1(4) p]
    have "set (x # lru) = fst ` set (AList.delete v st)" using 1(5,6) by (auto simp: fst_delete)
    with 1(2) [OF True p] 1(3-7) True p d show ?thesis by (auto simp: distinct_map_delete)
  qed (use 1 in auto)
qed auto

lemma staging_wf_frame [simp]:
  "staging_wf (m\<lparr>cg_store := s\<rparr>) = staging_wf m" "staging_wf (m\<lparr>cg_stores := n\<rparr>) = staging_wf m"
  "staging_wf (cm_hit m) = staging_wf m" "staging_wf (cm_miss m) = staging_wf m"
  "staging_wf (cm_reject m k) = staging_wf m"
  by (simp_all add: staging_wf_def cm_hit_def cm_miss_def cm_reject_def)

lemma preleva_wf [reame_inv]:
  assumes "staging_wf m" and "preleva_staging m k = (r, m')"
  shows "staging_wf m'"
proof (cases "map_of (cg_staging m) k")
  case (Some p)
  have "length (removeAll k (cg_staging_lru m)) \<le> length (cg_staging_lru m)"
    by (simp only: removeAll_filter_not_eq length_filter_le)
  then have len: "length (removeAll k (cg_staging_lru m)) \<le> 1" if "length (cg_staging_lru m) \<le> 1"
    using that by (rule order_trans)
  have keys: "set (removeAll k (cg_staging_lru m)) = fst ` set (AList.delete k (cg_staging m))"
    using assms(1) by (simp only: fst_delete set_removeAll staging_wf_def)
  have m': "m' = m\<lparr>cg_staging_usati := cg_staging_usati m - length (pr_stato p),
      cg_staging := AList.delete k (cg_staging m), cg_staging_lru := removeAll k (cg_staging_lru m)\<rparr>"
    using assms(2) Some by (simp add: preleva_staging_def)
  have acc: "staged_bytes (AList.delete k (cg_staging m)) = cg_staging_usati m - length (pr_stato p)"
    using staged_bytes_delete [OF _ Some] assms(1) by (simp add: staging_wf_def)
  have bound: "cg_staging_usati m - length (pr_stato p) \<le> cg_staging_budget m \<or>
      length (removeAll k (cg_staging_lru m)) \<le> 1"
    using assms(1) len by (auto simp: staging_wf_def)
  show ?thesis
    by (rule staging_wfI [OF _ _ keys acc [symmetric] bound])
      (use assms(1) in \<open>simp_all add: m' staging_wf_def distinct_removeAll distinct_map_delete\<close>)
qed (use assms in \<open>simp add: preleva_staging_def\<close>)

lemma prefetch_wf [reame_inv]:
  assumes "staging_wf m" and "prefetch z m k = (r, m')"
  shows "staging_wf m'"
proof -
  obtain q m1 where r: "prefetch_read z m k = (q, m1)" by fastforce
  have fr: "cg_staging m1 = cg_staging m" "cg_staging_lru m1 = cg_staging_lru m"
    "cg_staging_usati m1 = cg_staging_usati m" "cg_staging_budget m1 = cg_staging_budget m"
    using r by (auto simp: prefetch_read_def Let_def split: prod.splits option.splits)
  have wf1: "staging_wf m1" using assms(1) fr unfolding staging_wf_def by metis
  show ?thesis
  proof (cases "cg_staging_budget m = 0 \<or> map_of (cg_staging m) k \<noteq> None \<or> q = None")
    case True
    with assms wf1 r show ?thesis by (auto simp: prefetch_def split: if_splits)
  next
    case False
    then obtain p where p: "q = Some p" and abs: "map_of (cg_staging m1) k = None" using fr by auto
    obtain lru u st where e: "staging_evict (cg_staging_budget m1) (cg_staging_lru m1 @ [k])
        (cg_staging_usati m1 + length (pr_stato p)) (AList.update k p (cg_staging m1)) = (lru, u, st)"
      using prod_cases3 by blast
    have "k \<notin> fst ` set (cg_staging m1)" using abs by (simp add: map_of_eq_None_iff)
    with staging_evict_wf [OF e] wf1 have "distinct (map fst st) \<and> distinct lru \<and> set lru = fst ` set st \<and>
        u = staged_bytes st \<and> (u \<le> cg_staging_budget m1 \<or> length lru \<le> 1)"
      unfolding update_fresh [OF abs] by (auto simp: staging_wf_def staged_bytes_def)
    moreover have "m' = m1\<lparr>cg_staging_lru := lru, cg_staging_usati := u, cg_staging := st\<rparr>"
      using False p r assms(2) e by (auto simp: prefetch_def prefetch_stage_def)
    ultimately show ?thesis
      by (intro staging_wfI [of st lru u "cg_staging_budget m1"]) (blast | simp)+
  qed
qed

section \<open>Sequences of operations\<close>

datatype 'b cm_op = Store_state bool bytes 'b nat | Prefetch bytes | Load_state bytes 'b

fun cm_step :: "zstd_lib \<Rightarrow> 'b LlamaBackend \<Rightarrow> CacheManager \<times> history \<Rightarrow> 'b cm_op \<Rightarrow> CacheManager \<times> history"
where
  "cm_step z B (m, H) (Store_state w k b n) =
     (snd (store_state z B w m k b n),
      case be_state_data B b of Inl _ \<Rightarrow> H | Inr d \<Rightarrow> record_snap k d n H)"
| "cm_step z B (m, H) (Prefetch k) = (snd (prefetch z m k), H)"
| "cm_step z B (m, H) (Load_state k b) = (fst (snd (load_state z B m k b)), H)"

fun cm_op_ok :: "'b cm_op \<Rightarrow> bool" where
  "cm_op_ok (Store_state w k b n) \<longleftrightarrow> ok_key k \<and> n < 2 ^ 32"
| "cm_op_ok _ \<longleftrightarrow> True"

lemma load_state_wf [reame_inv]:
  assumes "staging_wf m" and "load_state z B m k b = (r, m', b')"
  shows "staging_wf m'"
proof -
  obtain st m1 where pr: "preleva_staging m k = (st, m1)" by fastforce
  note w = preleva_wf [OF assms(1) pr]
  show ?thesis
    using assms(2) pr w
    by (auto simp: load_state_def Let_def split: prod.splits sum.splits option.splits)
qed

lemma cm_step_inv:
  assumes "restorable z H m" and "staging_wf m" and "zstd_ok z" and "cm_op_ok a"
    and "cm_step z B (m, H) a = (m', H')"
  shows "restorable z H' m' \<and> staging_wf m'"
proof (cases a)
  case (Store_state w k b n)
  obtain r m1 where st: "store_state z B w m k b n = (r, m1)" by fastforce
  have wf: "staging_wf m1"
    using st assms(2) by (auto simp: store_state_def Let_def split: sum.splits prod.splits if_splits)
  show ?thesis
  proof (cases "be_state_data B b")
    case (Inl e)
    with Store_state st assms show ?thesis by (auto simp: store_state_failed)
  next
    case (Inr d)
    with store_state_inv [OF assms(1,3) _ _ Inr st] Store_state st wf assms show ?thesis by auto
  qed
next
  case (Prefetch k)
  with assms prefetch_inv prefetch_wf show ?thesis by (cases "prefetch z m k") auto
next
  case (Load_state k b)
  obtain r m1 b1 where "load_state z B m k b = (r, m1, b1)" using prod_cases3 by blast
  with assms Load_state load_state_inv load_state_wf show ?thesis by fastforce
qed

lemma cm_run_inv:
  "\<lbrakk>restorable z H m; staging_wf m; zstd_ok z; list_all cm_op_ok ops; foldl (cm_step z B) (m, H) ops = (m', H')\<rbrakk> \<Longrightarrow>
   restorable z H' m' \<and> staging_wf m'"
proof (induction ops arbitrary: m H)
  case (Cons a ops)
  obtain m1 H1 where st: "cm_step z B (m, H) a = (m1, H1)" by fastforce
  from cm_step_inv [OF Cons.prems(1-3) _ st] Cons.prems(4) have "restorable z H1 m1" "staging_wf m1" by simp_all
  with Cons st show ?case by simp
qed simp

lemma CacheManager_fresh:
  "restorable z (\<lambda>_. {}) (CacheManager_open mb c sb [])" "staging_wf (CacheManager_open mb c sb [])"
  using empty_store_inv(2) [of mb] open_files [of mb "[]"]
  by (auto simp: CacheManager_open_def restorable_def staging_wf_def staged_bytes_def empty_store_def
      disk.coherent_def map_le_iff files_hold_def)

text \<open>A directory as the next start of the program finds it: any order, any times, and things that are no files.\<close>

definition lists_directory :: "(bytes \<rightharpoonup> bytes) \<Rightarrow> dir_item list \<Rightarrow> bool" where
  "lists_directory files items \<longleftrightarrow>
     distinct (map it_name items) \<and> map_of (map (\<lambda>it. (it_name it, it_content it)) (filter it_regular items)) = files"

lemma CacheManager_reopen:
  assumes "restorable z H m" and "lists_directory (ds_files (cg_store m)) items"
  shows "restorable z H (CacheManager_open mb c sb items)" and "staging_wf (CacheManager_open mb c sb items)"
proof -
  have d: "distinct (map it_name items)" and f: "ds_files (DiskCacheStore_open mb items) = ds_files (cg_store m)"
    using assms(2) by (simp_all add: lists_directory_def open_files)
  have h: "files_hold (snapshot_of z H) (ds_files (DiskCacheStore_open mb items))"
    using assms(1) by (simp add: restorable_def f)
  with open_holds [OF h d] show "restorable z H (CacheManager_open mb c sb items)"
    by (simp add: restorable_def CacheManager_open_def)
  show "staging_wf (CacheManager_open mb c sb items)"
    by (simp add: CacheManager_open_def staging_wf_def staged_bytes_def)
qed


text \<open>After a successful store, a load of the key hands the backend the stored bytes and count.\<close>

lemma store_load_bytes:
  assumes "zstd_ok z" and "ok_key key" and "n < 2 ^ 32" and "map_of (cg_staging m) key = None"
    and "store_state z B w m key b n = (Inr True, m1)" and "be_state_data B b = Inr d"
  shows "\<exists>s2. load_state z B m1 key b0 =
      (case be_set_state B b0 d n of
         (Inr _, b) \<Rightarrow> (True, cm_hit (m1\<lparr>cg_store := s2\<rparr>), b)
       | (Inl _, b) \<Rightarrow> (False, cm_reject (m1\<lparr>cg_store := s2\<rparr>) key, b))"
proof -
  from assms(5,6) obtain packed s where
    pk: "(if cg_compress m then compress z d else Inr (''R'' @ d)) = Inr packed"
    and p: "put w (cg_store m) key (envelope packed n) = (True, s)"
    and m1: "m1 = m\<lparr>cg_store := s, cg_stores := cg_stores m + 1\<rparr>"
    by (auto simp: store_state_def Let_def split: sum.splits prod.splits if_splits)
  have "decompress z packed = Inr d"
    using pk decompress_compress [OF assms(1), of d packed] decompress_raw [of z d]
    by (auto simp: kFlagRaw_def split: if_splits)
  then have oe: "open_entry z (envelope packed n) = Some \<lparr>pr_stato = d, pr_n_past = n\<rparr>"
    using open_envelope [OF assms(3), of z packed] by simp
  obtain e s2 where g: "get s key = (e, s2)" by fastforce
  then have e: "e = Some (envelope packed n)"
    using disk.get_spec [OF g] disk.put_same [OF p assms(2)] by simp
  show ?thesis
    using assms(4) g
    by (intro exI [of _ s2]) (simp add: load_state_def preleva_staging_def m1 e oe Let_def split: prod.split sum.split)
qed

lemma store_load:
  assumes "kv_backend B ok kv eval" and "zstd_ok z" and "ok_key key" and "ok b"
    and "length (kv b) < 2 ^ 32" and "map_of (cg_staging m) key = None"
    and "store_state z B w m key b (length (kv b)) = (Inr True, m1)"
    and "load_state z B m1 key b0 = (r, m2, b1)"
  shows "(r \<longrightarrow> kv b1 = kv b) \<and>
    (\<forall>d b2 u. be_state_data B b = Inr d \<and> be_set_state B b0 d (length (kv b)) = (Inr u, b2) \<longrightarrow> r \<and> b1 = b2)"
proof -
  from assms(7) obtain d where d: "be_state_data B b = Inr d" by (auto simp: store_state_def split: sum.splits)
  obtain q b2 where set: "be_set_state B b0 d (length (kv b)) = (q, b2)" by fastforce
  from store_load_bytes [OF assms(2,3,5,6,7) d, of b0] assms(8) d set kv_backend.state_kv [OF assms(1,4) d, of b0]
  show ?thesis by (cases q) auto
qed

text \<open>A backend for the examples, holding two tokens.\<close>

definition demo_backend :: "ref_ctx RealLlamaBackend LlamaBackend" where
  "demo_backend = real_backend (ref_llama (\<lambda>_. []) (\<lambda>_. False) 8)"

definition demo_state :: "ref_ctx RealLlamaBackend" where
  "demo_state = \<lparr>rb_ctx = \<lparr>rc_seqs = [[1, 2]], rc_logits = []\<rparr>, rb_n_past = 2\<rparr>"

definition demo_manager :: CacheManager where
  "demo_manager = CacheManager_open 0 False 100 []"

lemma demo_kv:
  "kv_backend demo_backend (real_ok ref_cells) (\<lambda>b. ref_cells (rb_ctx b) 0) (\<lambda>_. [])"
  unfolding demo_backend_def by (rule real_backend_kv [OF ref_llama_ok])

lemma demo_state_data: "be_state_data demo_backend demo_state = Inr (ref_state (rb_ctx demo_state))"
  by (simp add: demo_backend_def real_backend_def real_state_data_def ref_llama_def Let_def) (simp add: ref_state_def)

lemma demo_set_state:
  "be_set_state demo_backend b (ref_state c) n =
     (Inr (), \<lparr>rb_ctx = (rb_ctx b)\<lparr>rc_seqs := rc_seqs c\<rparr>, rb_n_past = n\<rparr>)"
proof -
  have "ref_state c \<noteq> []" by (simp add: ref_state_def)
  then show ?thesis
    by (simp add: demo_backend_def real_backend_def real_set_state_def ref_llama_def Let_def ref_load_state)
qed

lemma put_unlimited: "ds_max_bytes s = 0 \<Longrightarrow> fst (put True s k d)"
  by (simp add: put_def Let_def)

lemma demo_manager_max: "ds_max_bytes (cg_store demo_manager) = 0"
  by (simp add: demo_manager_def CacheManager_open_def DiskCacheStore_open_def sort_found_def)

definition demo_snapshot :: bytes where
  "demo_snapshot = ref_state (rb_ctx demo_state)"

lemma demo_state_facts:
  "ref_cells (rb_ctx demo_state) 0 = [1, 2]" "real_ok ref_cells demo_state"
  "map_of (cg_staging demo_manager) k = None" "ok_key ''k''"
  by (simp_all add: demo_state_def ref_cells_def real_ok_def demo_manager_def CacheManager_open_def ok_key_def)

lemma demo_store: "\<exists>m1. store_state no_zstd demo_backend True demo_manager ''k'' demo_state 2 = (Inr True, m1)"
proof -
  obtain s where "put True (cg_store demo_manager) ''k'' (envelope (''R'' @ demo_snapshot) 2) = (True, s)"
    using put_unlimited [OF demo_manager_max] by (metis prod.collapse)
  then show ?thesis
    by (simp add: store_state_def demo_state_data demo_snapshot_def)
      (simp add: demo_manager_def CacheManager_open_def)
qed

lemma demo_load:
  assumes "store_state no_zstd demo_backend True demo_manager ''k'' demo_state 2 = (Inr True, m1)"
  shows "\<exists>m2 b1. load_state no_zstd demo_backend m1 ''k'' (be_reset demo_backend demo_state) = (True, m2, b1)"
proof -
  let ?b0 = "be_reset demo_backend demo_state"
  obtain r m2 b1 where ld: "load_state no_zstd demo_backend m1 ''k'' ?b0 = (r, m2, b1)"
    using prod_cases3 by blast
  have l2: "length (ref_cells (rb_ctx demo_state) 0) = 2" by (simp add: demo_state_facts)
  from store_load [OF demo_kv zstd_ok_no_zstd demo_state_facts(4,2) _ demo_state_facts(3) _ ld, unfolded l2, OF _ assms]
    demo_state_data demo_set_state have r by simp
  with ld show ?thesis by auto
qed

section \<open>Properties\<close>

text \<open>
  C13. The cache never restores foreign state. After any sequence of storing, prefetching and
  loading on a fresh manager (failed writes, evictions, hash collisions of file names and
  consumed prefetches included), a load that succeeds has put into the backend a snapshot
  that was stored under that very key, with the position count it was stored with; and the
  staging area holds no more than its budget, or a single entry.
\<close>

theorem cache_restores_only_stored:
  assumes "zstd_ok z" and "list_all cm_op_ok ops"
    and "foldl (cm_step z B) (CacheManager_open mb c sb [], \<lambda>_. {}) ops = (m, H)"
    and "load_state z B m key b = (True, m', b')"
  shows "(\<exists>d n u. (d, n) \<in> H key \<and> be_set_state B b d n = (Inr u, b')) \<and>
    (staged_bytes (cg_staging m) \<le> cg_staging_budget m \<or> length (cg_staging m) \<le> 1)"
proof -
  from cm_run_inv [OF CacheManager_fresh assms(1-3)] have m: "restorable z H m" "staging_wf m" by simp_all
  have "card (set (cg_staging_lru m)) = card (fst ` set (cg_staging m))" using m(2) by (simp add: staging_wf_def)
  then have "length (cg_staging_lru m) = length (cg_staging m)"
    using m(2) by (metis distinct_card length_map set_map staging_wf_def)
  with m(2) have "staged_bytes (cg_staging m) \<le> cg_staging_budget m \<or> length (cg_staging m) \<le> 1"
    by (auto simp: staging_wf_def)
  with load_state_inv [OF m(1) assms(4)] show ?thesis by simp
qed

text \<open>
  Storing and loading a snapshot: when \<open>store_state\<close> reports success, the next \<open>load_state\<close> of
  the key hands the backend exactly the bytes and the count that were stored, so under the
  backend's contract the KV cache holds the same tokens again.
\<close>

theorem store_load_roundtrip:
  assumes "kv_backend B ok kv eval" and "zstd_ok z" and "ok_key key" and "ok b"
    and "length (kv b) < 2 ^ 32" and "map_of (cg_staging m) key = None"
    and "store_state z B w m key b (length (kv b)) = (Inr True, m1)"
    and "load_state z B m1 key b0 = (r, m2, b1)"
  shows "(r \<longrightarrow> kv b1 = kv b) \<and>
    (\<forall>d b2 u. be_state_data B b = Inr d \<and> be_set_state B b0 d (length (kv b)) = (Inr u, b2) \<longrightarrow> r \<and> b1 = b2)"
  using assms by (rule store_load)

text \<open>
  Bit rot is caught: an entry whose payload differs in one byte from what was written is
  refused by \<open>load_state\<close>, removed from the store, and never reaches the backend.
\<close>

theorem damaged_entry_rejected:
  assumes "i < length packed" and "x \<noteq> packed ! i"
    and "map_of (cg_staging m) key = None"
    and "peek (cg_store m) key = Some (kMagic @ le_bytes 8 (checksum packed) @
           le_bytes 4 (word_of_nat n :: u32) @ packed[i := x])"
    and "load_state z B m key b = (r, m', b')"
  shows "\<not> r \<and> b' = b \<and> peek (cg_store m') key = None"
proof -
  let ?e = "kMagic @ le_bytes 8 (checksum packed) @ le_bytes 4 (word_of_nat n :: u32) @ packed[i := x]"
  have "checksum (packed[i := x]) \<noteq> checksum packed"
  proof
    assume eq: "checksum (packed[i := x]) = checksum packed"
    have p: "packed = take i packed @ packed ! i # drop (Suc i) packed" using assms(1) by (rule id_take_nth_drop)
    have px: "packed[i := x] = take i packed @ x # drop (Suc i) packed"
      using assms(1) by (rule upd_conv_take_nth_drop)
    have "foldl fnv_step (fnv_step (foldl fnv_step 0xcbf29ce484222325 (take i packed)) x) (drop (Suc i) packed) =
        foldl fnv_step (fnv_step (foldl fnv_step 0xcbf29ce484222325 (take i packed)) (packed ! i)) (drop (Suc i) packed)"
      using eq unfolding checksum_def px by (subst (asm) p) simp
    then show False using assms(2) by (simp add: foldl_fnv_inject fnv_step_char_inject)
  qed
  then have oe: "open_entry z ?e = None"
    by (simp add: open_entry_def kMagic_def kEnvelopeHeader_def Let_def)
  obtain e s where g: "get (cg_store m) key = (e, s)" by fastforce
  with assms(4) disk.get_spec [OF g] have e: "e = Some ?e" by simp
  have "m' = cm_reject (m\<lparr>cg_store := s\<rparr>) key \<and> \<not> r \<and> b' = b"
    using assms(3,5) g e oe by (simp add: load_state_def preleva_staging_def Let_def)
  moreover have "peek (snd (remove s key)) key = None"
    using disk.remove_spec [of s key] by (auto simp: map_le_iff split: if_splits)
  ultimately show ?thesis by (simp add: cm_reject_def cm_miss_def)
qed

text \<open>
  Two prefetches of one key that interleave leak staging budget: both find the key absent,
  both stage it, and after the one staged copy is consumed the area is empty but still
  accounts its bytes, for good.
\<close>

theorem prefetch_race_leaks_budget:
  assumes "cg_staging m = []" and "cg_staging_lru m = []" and "cg_staging_usati m = 0"
    and "2 * length (pr_stato p) \<le> cg_staging_budget m"
  shows "let m2 = prefetch_stage (prefetch_stage m key p) key p; m3 = snd (preleva_staging m2 key)
    in cg_staging m3 = [] \<and> cg_staging_lru m3 = [] \<and> cg_staging_usati m3 = length (pr_stato p)"
  using assms by (simp add: prefetch_stage_def preleva_staging_def Let_def)

theorem prefetch_race_leaks_budget_witness:
  "let p = \<lparr>pr_stato = ''abc'', pr_n_past = 1\<rparr>;
       m2 = prefetch_stage (prefetch_stage demo_manager ''k'' p) ''k'' p; m3 = snd (preleva_staging m2 ''k'')
   in cg_staging m3 = [] \<and> cg_staging_lru m3 = [] \<and> cg_staging_usati m3 = 3"
  using prefetch_race_leaks_budget [of demo_manager "\<lparr>pr_stato = ''abc'', pr_n_past = 1\<rparr>" "''k''"]
  by (simp add: demo_manager_def CacheManager_open_def Let_def)

theorem store_load_roundtrip_witness:
  "\<exists>m1 m2 b1. store_state no_zstd demo_backend True demo_manager ''k'' demo_state 2 = (Inr True, m1) \<and>
     load_state no_zstd demo_backend m1 ''k'' (be_reset demo_backend demo_state) = (True, m2, b1) \<and>
     ref_cells (rb_ctx b1) 0 = [1, 2]"
proof -
  obtain m1 m2 b1 where st: "store_state no_zstd demo_backend True demo_manager ''k'' demo_state 2 = (Inr True, m1)"
    and ld: "load_state no_zstd demo_backend m1 ''k'' (be_reset demo_backend demo_state) = (True, m2, b1)"
    using demo_store demo_load by blast
  have l2: "length (ref_cells (rb_ctx demo_state) 0) = 2" by (simp add: demo_state_facts)
  from store_load_roundtrip [OF demo_kv zstd_ok_no_zstd demo_state_facts(4,2) _ demo_state_facts(3) _ ld,
      unfolded l2, OF _ st] st ld
  show ?thesis by (auto simp: demo_state_facts)
qed

theorem cache_restores_only_stored_witness:
  "\<exists>m H m' b'. foldl (cm_step no_zstd demo_backend) (CacheManager_open 0 False 100 [], \<lambda>_. {})
       [Store_state True ''k'' demo_state 2] = (m, H) \<and>
     load_state no_zstd demo_backend m ''k'' (be_reset demo_backend demo_state) = (True, m', b') \<and>
     (\<exists>d n u. (d, n) \<in> H ''k'' \<and> be_set_state demo_backend (be_reset demo_backend demo_state) d n = (Inr u, b')) \<and>
     (staged_bytes (cg_staging m) \<le> cg_staging_budget m \<or> length (cg_staging m) \<le> 1)"
proof -
  obtain m m' b' where st: "store_state no_zstd demo_backend True demo_manager ''k'' demo_state 2 = (Inr True, m)"
    and ld: "load_state no_zstd demo_backend m ''k'' (be_reset demo_backend demo_state) = (True, m', b')"
    using demo_store demo_load by blast
  let ?H = "record_snap ''k'' demo_snapshot 2 (\<lambda>_. {})"
  have ops: "foldl (cm_step no_zstd demo_backend) (CacheManager_open 0 False 100 [], \<lambda>_. {})
       [Store_state True ''k'' demo_state 2] = (m, ?H)"
    using st by (simp add: demo_manager_def demo_state_data demo_snapshot_def)
  have ok: "list_all cm_op_ok [Store_state True ''k'' demo_state 2]" by (simp add: demo_state_facts(4))
  from cache_restores_only_stored [OF zstd_ok_no_zstd ok ops ld] ops ld show ?thesis by blast
qed

theorem damaged_entry_rejected_witness:
  "\<exists>m r m' b'. peek (cg_store m) ''k'' = Some (kMagic @ le_bytes 8 (checksum ''Rab'') @
       le_bytes 4 (word_of_nat 7 :: u32) @ ''Rab''[2 := CHR ''c'']) \<and>
     load_state no_zstd demo_backend m ''k'' demo_state = (r, m', b') \<and>
     \<not> r \<and> b' = demo_state \<and> peek (cg_store m') ''k'' = None"
proof -
  let ?e = "kMagic @ le_bytes 8 (checksum ''Rab'') @ le_bytes 4 (word_of_nat 7 :: u32) @ ''Rab''[2 := CHR ''c'']"
  obtain s where p: "put True (cg_store demo_manager) ''k'' ?e = (True, s)"
    using put_unlimited [OF demo_manager_max] by (metis prod.collapse)
  let ?m = "demo_manager\<lparr>cg_store := s\<rparr>"
  have pk: "peek (cg_store ?m) ''k'' = Some ?e" using disk.put_same [OF p demo_state_facts(4)] by simp
  have st: "map_of (cg_staging ?m) ''k'' = None" using demo_state_facts(3) by simp
  obtain r m' b' where ld: "load_state no_zstd demo_backend ?m ''k'' demo_state = (r, m', b')"
    using prod_cases3 by blast
  have i: "2 < length ''Rab''" "CHR ''c'' \<noteq> ''Rab'' ! 2" by simp_all
  from damaged_entry_rejected [OF i st pk ld] pk ld show ?thesis by blast
qed

end
