(* ===== verification/Prefix_Cache.thy ===== *)
theory Prefix_Cache
  imports Cache_Manager
begin

text \<open>
  The shared-prefix KV cache (\<open>src/src/cache/prefix_cache.cpp\<close>): snapshots at every block
  boundary of a prompt, restored for any prompt with the same prefix.

  The main result: whatever was cached before, \<open>prefill\<close> leaves the backend holding exactly
  the requested prefix, or throws; the proof rests on the contract of the backend, on the
  snapshots being restorable, and on the keys of the prefixes in use not colliding.
\<close>

section \<open>Operations\<close>

record PrefixCache =
  px_model_tag :: bytes
  px_block_tokens :: nat

definition PrefixCache_init :: "bytes \<Rightarrow> int \<Rightarrow> PrefixCache" where
  "PrefixCache_init tag block_tokens = \<lparr>px_model_tag = tag, px_block_tokens = nat (max block_tokens 1)\<rparr>"

text \<open>\<open>for (b = block; b < size; b += block)\<close>; the block is at least 1.\<close>

function block_marks :: "nat \<Rightarrow> nat \<Rightarrow> nat \<Rightarrow> nat list" where
  "block_marks block b sz = (if b < sz then b # block_marks block (b + max block 1) sz else [])"
  by pat_completeness auto
termination
  by (relation "measure (\<lambda>(_, b, sz). sz - b)") auto

declare block_marks.simps [simp del]

definition boundaries :: "PrefixCache \<Rightarrow> nat \<Rightarrow> nat list" where
  "boundaries p sz =
     block_marks (px_block_tokens p) (px_block_tokens p) sz @ (if 0 < sz then [sz] else [])"

definition key_for :: "PrefixCache \<Rightarrow> tokens \<Rightarrow> nat \<Rightarrow> bytes" where
  "key_for p prefix n =
     (let raw = key_material (px_model_tag p) (take n prefix);
          h1 = checksum raw;
          h2 = checksum (raw @ ''x'')
      in ''pfx-'' @ string_of_nat (unat h1) @ ''-'' @ string_of_nat (unat h2) @ ''-n'' @ string_of_nat n)"

text \<open>The search for the longest cached boundary.\<close>

fun restore_longest :: "zstd_lib \<Rightarrow> 'b LlamaBackend \<Rightarrow> PrefixCache \<Rightarrow> tokens \<Rightarrow> nat list \<Rightarrow> CacheManager \<Rightarrow> 'b
    \<Rightarrow> nat \<times> CacheManager \<times> 'b" where
  "restore_longest z B p prefix [] m backend = (0, m, backend)"
| "restore_longest z B p prefix (mark # marks) m backend =
     (case load_state z B m (key_for p prefix mark) backend of
        (True, m1, b1) \<Rightarrow> (mark, m1, b1)
      | (False, m1, b1) \<Rightarrow> restore_longest z B p prefix marks m1 b1)"

text \<open>The block-wise decoding of the remainder; \<open>disk b\<close>: whether the write at boundary \<open>b\<close> succeeds.\<close>

fun decode_blocks :: "zstd_lib \<Rightarrow> 'b LlamaBackend \<Rightarrow> (nat \<Rightarrow> bool) \<Rightarrow> PrefixCache \<Rightarrow> tokens \<Rightarrow> nat \<Rightarrow> nat \<Rightarrow> nat list
    \<Rightarrow> CacheManager \<Rightarrow> 'b \<Rightarrow> (cache_exn + unit) \<times> CacheManager \<times> 'b" where
  "decode_blocks z B disk p prefix restored pos [] m backend = (Inr (), m, backend)"
| "decode_blocks z B disk p prefix restored pos (b # marks) m backend =
     (if b \<le> restored then decode_blocks z B disk p prefix restored pos marks m backend
      else case be_decode_append B backend (take (b - pos) (drop pos prefix)) of
             (Inl e, b1) \<Rightarrow> (Inl (Model_exn e), m, b1)
           | (Inr _, b1) \<Rightarrow>
               (case store_state z B (disk b) m (key_for p prefix b) b1 b of
                  (Inl e, m1) \<Rightarrow> (Inl e, m1, b1)
                | (Inr _, m1) \<Rightarrow> decode_blocks z B disk p prefix restored b marks m1 b1))"

definition prefill :: "zstd_lib \<Rightarrow> 'b LlamaBackend \<Rightarrow> (nat \<Rightarrow> bool) \<Rightarrow> PrefixCache \<Rightarrow> CacheManager \<Rightarrow> tokens \<Rightarrow> 'b
    \<Rightarrow> (cache_exn + nat) \<times> CacheManager \<times> 'b" where
  "prefill z B disk p m prefix backend =
     (if prefix = [] then (Inr 0, m, be_reset B backend)
      else let marks = boundaries p (length prefix);
               (restored, m1, b1) = restore_longest z B p prefix (rev marks) m backend;
               b2 = (if restored = 0 then be_reset B b1 else b1);
               (r, m2, b3) = decode_blocks z B disk p prefix restored restored marks m1 b2
           in (map_sum id (\<lambda>_. restored) r, m2, b3))"

fun prefetch_longest :: "zstd_lib \<Rightarrow> PrefixCache \<Rightarrow> tokens \<Rightarrow> nat list \<Rightarrow> CacheManager \<Rightarrow> bool \<times> CacheManager" where
  "prefetch_longest z p prefix [] m = (False, m)"
| "prefetch_longest z p prefix (mark # marks) m =
     (case prefetch z m (key_for p prefix mark) of
        (True, m1) \<Rightarrow> (True, m1)
      | (False, m1) \<Rightarrow> prefetch_longest z p prefix marks m1)"

definition prefix_prefetch :: "zstd_lib \<Rightarrow> PrefixCache \<Rightarrow> CacheManager \<Rightarrow> tokens \<Rightarrow> bool \<times> CacheManager" where
  "prefix_prefetch z p m prefix =
     (if prefix = [] then (False, m)
      else prefetch_longest z p prefix (rev (boundaries p (length prefix))) m)"

section \<open>Boundaries\<close>

lemma block_marks_bounds:
  "x \<in> set (block_marks block b sz) \<Longrightarrow> b \<le> x \<and> x < sz"
proof (induction block b sz rule: block_marks.induct)
  case (1 block b sz)
  then show ?case by (subst (asm) (2) block_marks.simps) (auto split: if_splits)
qed

lemma block_marks_sorted: "sorted_wrt (<) (block_marks block b sz)"
proof (induction block b sz rule: block_marks.induct)
  case (1 block b sz)
  show ?case
  proof (cases "b < sz")
    case True
    with 1 block_marks_bounds [of _ block "b + max block 1" sz] show ?thesis
      by (subst block_marks.simps) fastforce
  next
    case False
    then show ?thesis by (subst block_marks.simps) simp
  qed
qed

lemma boundaries_sorted: "sorted_wrt (<) (boundaries p sz)"
  using block_marks_bounds by (auto simp: boundaries_def sorted_wrt_append block_marks_sorted)

lemma boundaries_bounds:
  "x \<in> set (boundaries p sz) \<Longrightarrow> 1 \<le> px_block_tokens p \<Longrightarrow> 0 < x \<and> x \<le> sz"
  using block_marks_bounds by (fastforce simp: boundaries_def split: if_splits)

lemma boundaries_last: "0 < sz \<Longrightarrow> \<exists>bs. boundaries p sz = bs @ [sz]"
  by (simp add: boundaries_def)


section \<open>Keys\<close>

lemma length_string_of_nat: "n < 10 ^ k \<Longrightarrow> 0 < k \<Longrightarrow> length (string_of_nat n) \<le> k"
proof (induction n arbitrary: k rule: string_of_nat.induct)
  case (1 n)
  show ?case
  proof (cases "n < 10")
    case True
    with 1 show ?thesis by (simp add: string_of_nat.simps [of n])
  next
    case False
    then obtain j where k: "k = Suc j" "0 < j" using 1(2,3) by (cases k; cases "k - 1") auto
    then have "n div 10 < 10 ^ j" using 1(2) by (simp add: less_mult_imp_div_less mult.commute)
    with 1(1) [OF False this k(2)] k False show ?thesis by (simp add: string_of_nat.simps [of n])
  qed
qed

lemma length_string_of_u64: "length (string_of_nat (unat (w :: u64))) \<le> 20"
proof (rule length_string_of_nat)
  have "unat w < 2 ^ 64" using unsigned_less [of w] by simp
  also have "(2 ^ 64 :: nat) < 10 ^ 20" by simp
  finally show "unat w < 10 ^ 20" .
qed simp

lemma length_string_of_u32: "n < 2 ^ 32 \<Longrightarrow> length (string_of_nat n) \<le> 10"
proof (rule length_string_of_nat)
  assume "n < 2 ^ 32"
  moreover have "(2 ^ 32 :: nat) < 10 ^ 10" by simp
  ultimately show "n < 10 ^ 10" by linarith
qed simp

lemma ok_key_key_for:
  assumes "n < 2 ^ 32"
  shows "ok_key (key_for p prefix n)"
proof -
  have "length (key_for p prefix n) \<le> 100"
    using length_string_of_u32 [OF assms] length_string_of_u64 [of "checksum (key_material (px_model_tag p) (take n prefix))"]
      length_string_of_u64 [of "checksum (key_material (px_model_tag p) (take n prefix) @ ''x'')"]
    by (simp add: key_for_def Let_def)
  then show ?thesis by (simp add: ok_key_def)
qed

text \<open>
  The prefixes in use do not collide under the two 64-bit hashes of a key. (No function of
  that size is injective on all prompts: the set is a parameter.)
\<close>

definition collision_free :: "PrefixCache \<Rightarrow> tokens set \<Rightarrow> bool" where
  "collision_free p S \<longleftrightarrow>
     (\<forall>q\<in>S. \<forall>q'\<in>S. \<forall>m\<le>length q. \<forall>m'\<le>length q'.
        key_for p q m = key_for p q' m' \<longrightarrow> take m q = take m' q')"

text \<open>Every snapshot under the key of a prefix in use holds exactly that prefix.\<close>

definition snaps_ok :: "PrefixCache \<Rightarrow> tokens set \<Rightarrow> 'b LlamaBackend \<Rightarrow> ('b \<Rightarrow> bool) \<Rightarrow> ('b \<Rightarrow> tokens) \<Rightarrow> history \<Rightarrow> bool"
where
  "snaps_ok p S B ok kv H \<longleftrightarrow>
     (\<forall>q\<in>S. \<forall>mark\<le>length q. \<forall>(d, n)\<in>H (key_for p q mark). \<forall>b0 u b'.
        be_set_state B b0 d n = (Inr u, b') \<longrightarrow> ok b' \<and> kv b' = take mark q)"

text \<open>The state of the cache: what it can restore is right.\<close>

definition cache_ok :: "zstd_lib \<Rightarrow> PrefixCache \<Rightarrow> tokens set \<Rightarrow> 'b LlamaBackend \<Rightarrow> ('b \<Rightarrow> bool) \<Rightarrow> ('b \<Rightarrow> tokens)
    \<Rightarrow> CacheManager \<Rightarrow> bool" where
  "cache_ok z p S B ok kv m \<longleftrightarrow> (\<exists>H. restorable z H m \<and> snaps_ok p S B ok kv H)"

lemma cache_ok_load:
  assumes "cache_ok z p S B ok kv m" and "q \<in> S" and "mark \<le> length q"
    and "load_state z B m (key_for p q mark) b = (r, m', b')"
  shows "cache_ok z p S B ok kv m' \<and> (r \<longrightarrow> ok b' \<and> kv b' = take mark q)"
proof -
  from assms(1) obtain H where H: "restorable z H m" "snaps_ok p S B ok kv H" by (auto simp: cache_ok_def)
  from load_state_inv [OF H(1) assms(4)] H(2) assms(2,3) show ?thesis
    unfolding cache_ok_def snaps_ok_def by blast
qed

lemma restore_longest_ok:
  "\<lbrakk>cache_ok z p S B ok kv m; prefix \<in> S; \<forall>x\<in>set marks. 0 < x \<and> x \<le> length prefix;
    restore_longest z B p prefix marks m b = (r, m', b')\<rbrakk> \<Longrightarrow>
   cache_ok z p S B ok kv m' \<and> (0 < r \<longrightarrow> ok b' \<and> kv b' = take r prefix) \<and> (r = 0 \<or> r \<in> set marks)"
proof (induction marks arbitrary: m b)
  case (Cons mark marks)
  obtain h m1 b1 where l: "load_state z B m (key_for p prefix mark) b = (h, m1, b1)" using prod_cases3 by blast
  from cache_ok_load [OF Cons.prems(1,2) _ l] Cons.prems(3) have c: "cache_ok z p S B ok kv m1"
    "h \<longrightarrow> ok b1 \<and> kv b1 = take mark prefix" by simp_all
  show ?case
  proof (cases h)
    case True
    with Cons.prems l c show ?thesis by auto
  next
    case False
    with Cons.prems l c Cons.IH [OF c(1) Cons.prems(2)] show ?thesis by auto
  qed
qed simp

context kv_backend
begin

lemma cache_ok_store:
  assumes "cache_ok z p S B ok kv m" and "collision_free p S" and "zstd_ok z" and "prefix \<in> S"
    and "n \<le> length prefix" and "length prefix < 2 ^ 32" and "ok b" and "kv b = take n prefix"
    and "store_state z B w m (key_for p prefix n) b n = (r, m')"
  shows "cache_ok z p S B ok kv m'"
proof (cases "be_state_data B b")
  case (Inl e)
  with assms(1,9) show ?thesis by (simp add: store_state_failed)
next
  case (Inr d)
  from assms(1) obtain H where H: "restorable z H m" "snaps_ok p S B ok kv H" by (auto simp: cache_ok_def)
  have n: "n < 2 ^ 32" using assms(5,6) by simp
  let ?H = "record_snap (key_for p prefix n) d n H"
  have "restorable z ?H m'"
    using store_state_inv [OF H(1) assms(3) ok_key_key_for [OF n] n Inr assms(9)] .
  moreover have "snaps_ok p S B ok kv ?H"
    unfolding snaps_ok_def
  proof (intro ballI allI impI, clarify)
    fix q mark d' n' b0 u b'
    assume q: "q \<in> S" "mark \<le> length q" and h: "(d', n') \<in> ?H (key_for p q mark)"
      and st: "be_set_state B b0 d' n' = (Inr u, b')"
    show "ok b' \<and> kv b' = take mark q"
    proof (cases "(d', n') \<in> H (key_for p q mark)")
      case True
      with H(2) q st show ?thesis unfolding snaps_ok_def by blast
    next
      case False
      with h have eq: "key_for p q mark = key_for p prefix n" "d' = d" "n' = n"
        by (auto simp: record_snap_def split: if_splits)
      then have "take mark q = take n prefix" using assms(2,4,5) q unfolding collision_free_def by blast
      moreover have "length (kv b) = n" using assms(5,8) by simp
      ultimately show ?thesis using state_kv [OF assms(7) Inr, of b0 u b'] st eq assms(8) by simp
    qed
  qed
  ultimately show ?thesis by (auto simp: cache_ok_def)
qed

lemma decode_blocks_ok:
  assumes "collision_free p S" and "zstd_ok z" and "prefix \<in> S" and "length prefix < 2 ^ 32"
  shows "\<lbrakk>cache_ok z p S B ok kv m; ok b; kv b = take pos prefix; sorted_wrt (<) marks;
      \<forall>x\<in>set marks. x \<le> length prefix \<and> (restored < x \<longrightarrow> pos < x);
      decode_blocks z B disk p prefix restored pos marks m b = (r, m', b')\<rbrakk> \<Longrightarrow>
    cache_ok z p S B ok kv m' \<and>
    (\<forall>u. r = Inr u \<longrightarrow> ok b' \<and> kv b' = take (foldl (\<lambda>a x. if x \<le> restored then a else x) pos marks) prefix)"
proof (induction marks arbitrary: m b pos)
  case (Cons x marks)
  show ?case
  proof (cases "x \<le> restored")
    case True
    with Cons.prems Cons.IH [OF Cons.prems(1-3)] show ?thesis by auto
  next
    case False
    then have x: "pos < x" "x \<le> length prefix" using Cons.prems(5) by auto
    obtain l b1 where d: "be_decode_append B b (take (x - pos) (drop pos prefix)) = (l, b1)" by fastforce
    show ?thesis
    proof (cases l)
      case (Inl e)
      with False d Cons.prems show ?thesis by auto
    next
      case (Inr lg)
      from append_kv [OF Cons.prems(2) d [unfolded Inr]] Cons.prems(3) x
      have b1: "ok b1" "kv b1 = take x prefix"
        using take_add [of pos "x - pos" prefix] by simp_all
      obtain s m1 where st: "store_state z B (disk x) m (key_for p prefix x) b1 x = (s, m1)" by fastforce
      note c1 = cache_ok_store [OF Cons.prems(1) assms(1-3) x(2) assms(4) b1 st]
      show ?thesis
      proof (cases s)
        case (Inl e)
        with False d Inr st Cons.prems(6) c1 show ?thesis by auto
      next
        case (Inr ok')
        have "\<forall>y\<in>set marks. y \<le> length prefix \<and> (restored < y \<longrightarrow> x < y)" using Cons.prems(4,5) by auto
        from Cons.IH [OF c1 b1 _ this] Cons.prems(4,6) False d \<open>l = Inr lg\<close> st Inr show ?thesis by auto
      qed
    qed
  qed
qed simp

lemma prefill_ok:
  assumes "cache_ok z p S B ok kv m" and "collision_free p S" and "zstd_ok z" and "prefix \<in> S"
    and "length prefix < 2 ^ 32" and "1 \<le> px_block_tokens p"
    and "prefill z B disk p m prefix b = (r, m', b')"
  shows "cache_ok z p S B ok kv m' \<and> (\<forall>n. r = Inr n \<longrightarrow> ok b' \<and> kv b' = prefix \<and> n \<le> length prefix)"
proof (cases "prefix = []")
  case True
  with assms(1,7) reset_kv show ?thesis by (auto simp: prefill_def)
next
  case False
  let ?marks = "boundaries p (length prefix)"
  have bounds: "\<forall>x\<in>set ?marks. 0 < x \<and> x \<le> length prefix" using boundaries_bounds assms(6) by blast
  obtain k m1 b1 where rl: "restore_longest z B p prefix (rev ?marks) m b = (k, m1, b1)" using prod_cases3 by blast
  from restore_longest_ok [OF assms(1,4) _ rl] bounds
  have c1: "cache_ok z p S B ok kv m1" "0 < k \<longrightarrow> ok b1 \<and> kv b1 = take k prefix" "k = 0 \<or> k \<in> set ?marks" by auto
  let ?b2 = "if k = 0 then be_reset B b1 else b1"
  have b2: "ok ?b2" "kv ?b2 = take k prefix" using c1(2) reset_kv by auto
  obtain r3 m3 b3 where db: "decode_blocks z B disk p prefix k k ?marks m1 ?b2 = (r3, m3, b3)" using prod_cases3 by blast
  from decode_blocks_ok [OF assms(2-5) c1(1) b2 boundaries_sorted _ db] bounds
  have c3: "cache_ok z p S B ok kv m3"
    "\<forall>u. r3 = Inr u \<longrightarrow> ok b3 \<and> kv b3 = take (foldl (\<lambda>a x. if x \<le> k then a else x) k ?marks) prefix" by auto
  have fold: "foldl (\<lambda>a x. if x \<le> k then a else x) k ?marks = length prefix"
  proof -
    obtain bs where bs: "?marks = bs @ [length prefix]" using boundaries_last False by blast
    have "k \<le> length prefix" using c1(3) bounds by auto
    moreover have "foldl (\<lambda>a x. if x \<le> k then a else x) k bs = k" if "length prefix \<le> k"
    proof -
      have "\<forall>x\<in>set bs. x \<le> k" using bounds bs that by auto
      then show ?thesis by (induction bs) auto
    qed
    ultimately show ?thesis by (auto simp: bs)
  qed
  have "r = map_sum id (\<lambda>_. k) r3" "m' = m3" "b' = b3" using assms(7) False rl db by (auto simp: prefill_def Let_def)
  with c1(3) c3 fold bounds show ?thesis by (cases r3) auto
qed

end


section \<open>Properties\<close>

lemma key_for_length:
  assumes "key_for p q m = key_for p' q' m'"
  shows "m = m'"
proof -
  have tw: "takeWhile isdigit (rev (x @ ''-n'' @ string_of_nat k)) = rev (string_of_nat k)" for x k
    using isdigit_string_of_nat [of _ k] by (simp add: takeWhile_append isdigit_def)
  have key: "\<exists>x. key_for p q m = x @ ''-n'' @ string_of_nat m" for p q m
    unfolding key_for_def Let_def by (metis append.assoc)
  from key obtain x y where "key_for p q m = x @ ''-n'' @ string_of_nat m"
    "key_for p' q' m' = y @ ''-n'' @ string_of_nat m'" by blast
  with assms tw [of x m] tw [of y m'] have "string_of_nat m = string_of_nat m'" by simp
  then show ?thesis by simp
qed

lemma collision_free_singleton: "collision_free p {q}"
  unfolding collision_free_def using key_for_length by blast

text \<open>
  C7. After \<open>prefill\<close> the backend holds exactly the requested prefix. Whatever snapshots other
  prompts left in the cache, damaged, evicted or prefetched, and whichever boundary is
  restored, either an exception is thrown or the KV cache is the prefix, token for token,
  and the number of restored positions is at most its length. The cache stays sound for
  every later prompt, also when an exception is thrown.
\<close>

theorem prefill_exact:
  assumes "kv_backend B ok kv eval" and "cache_ok z p S B ok kv m" and "collision_free p S" and "zstd_ok z"
    and "prefix \<in> S" and "length prefix < 2 ^ 32" and "1 \<le> px_block_tokens p"
    and "prefill z B disk p m prefix b = (r, m', b')"
  shows "cache_ok z p S B ok kv m' \<and>
    (\<forall>n. r = Inr n \<longrightarrow> ok b' \<and> kv b' = prefix \<and> n \<le> length prefix)"
  using assms by (rule kv_backend.prefill_ok)

lemma cache_ok_fresh: "cache_ok z p S B ok kv (CacheManager_open mb c sb [])"
  using CacheManager_fresh(1) [of z mb c sb] unfolding cache_ok_def snaps_ok_def by fastforce

lemma cache_ok_reopen:
  assumes "cache_ok z p S B ok kv m" and "lists_directory (ds_files (cg_store m)) items"
  shows "cache_ok z p S B ok kv (CacheManager_open mb c sb items)"
  using assms(1) CacheManager_reopen(1) [OF _ assms(2)] unfolding cache_ok_def by blast

theorem prefill_exact_witness:
  "\<exists>r m' b'. prefill no_zstd demo_backend (\<lambda>_. True) (PrefixCache_init ''tag'' 2) demo_manager [5, 6, 7] demo_state
       = (r, m', b') \<and>
     cache_ok no_zstd (PrefixCache_init ''tag'' 2) {[5, 6, 7]} demo_backend (real_ok ref_cells)
       (\<lambda>b. ref_cells (rb_ctx b) 0) m' \<and>
     (\<forall>n. r = Inr n \<longrightarrow> real_ok ref_cells b' \<and> ref_cells (rb_ctx b') 0 = [5, 6, 7] \<and> n \<le> length [5, 6, 7 :: TokenId])"
proof -
  let ?p = "PrefixCache_init ''tag'' 2"
  obtain r m' b' where pf: "prefill no_zstd demo_backend (\<lambda>_. True) ?p demo_manager [5, 6, 7] demo_state = (r, m', b')"
    using prod_cases3 by blast
  have c: "cache_ok no_zstd ?p {[5, 6, 7]} demo_backend (real_ok ref_cells) (\<lambda>b. ref_cells (rb_ctx b) 0) demo_manager"
    unfolding demo_manager_def by (rule cache_ok_fresh)
  from prefill_exact [OF demo_kv c collision_free_singleton zstd_ok_no_zstd _ _ _ pf] pf show ?thesis
    by (simp add: PrefixCache_init_def)
qed

text \<open>
  The boundaries of a prompt are strictly increasing, positive, at most its length, and end
  with its length, so that the whole prompt is always snapshotted.
\<close>

theorem boundaries_correct:
  "sorted_wrt (<) (boundaries (PrefixCache_init tag block) sz) \<and>
   set (boundaries (PrefixCache_init tag block) sz) \<subseteq> {0<..sz} \<and>
   (sz = 0 \<or> last (boundaries (PrefixCache_init tag block) sz) = sz)"
proof -
  have "1 \<le> px_block_tokens (PrefixCache_init tag block)" by (simp add: PrefixCache_init_def)
  with boundaries_bounds [of _ "PrefixCache_init tag block" sz]
  have "set (boundaries (PrefixCache_init tag block) sz) \<subseteq> {0<..sz}" by auto
  then show ?thesis
    using boundaries_sorted boundaries_last [of sz "PrefixCache_init tag block"] by fastforce
qed

end
