(* ===== verification/Sampling.thy ===== *)
theory Sampling
  imports Backend
begin

text \<open>
  Token sampling (\<open>src/src/core/sampler.cpp\<close>) and the acceptance arithmetic of speculative
  decoding (\<open>src/src/speculative/acceptance.cpp\<close>). Floats are reals: rounding is not modelled,
  and the order of equal probabilities in \<open>std::sort\<close>, which C++ leaves open, is the index
  order. The random engine is a state with a function that gives the next uniform number.

  The main results: what \<open>distribution\<close> returns is a probability distribution, the widening
  top-k search finds the nucleus of a full sort, greedy sampling is the argmax, and accepting
  draft tokens with the rule of \<open>accept_token\<close>, correcting rejections from the residual, gives
  exactly the target distribution.
\<close>

section \<open>The sampler\<close>

record GenerationConfig =
  gc_max_tokens :: int
  gc_temperature :: real
  gc_top_p :: real
  gc_repeat_penalty :: real
  gc_repeat_last_n :: int
  gc_seed :: int
  gc_echo_prompt :: bool

text \<open>
  What leaves the engine: its own exception, one of the backend or of the cache, one that the
  caller's callback threw, or an access outside a vector, which C++ leaves undefined.
\<close>

datatype engine_exn = EngineError bytes | Engine_model model_exn | Engine_cache bytes | Callback_exn bytes
  | Out_of_bounds

type_synonym 'r uniform = "'r \<Rightarrow> real \<times> 'r"

definition penalise_token :: "real \<Rightarrow> logits \<Rightarrow> TokenId \<Rightarrow> logits" where
  "penalise_token penalty logits t =
     (if sint t < 0 \<or> length logits \<le> nat (sint t) then logits
      else let i = nat (sint t); l = logits ! i
           in logits[i := (if 0 < l then l / penalty else l * penalty)])"

definition repeat_penalty :: "GenerationConfig \<Rightarrow> logits \<Rightarrow> tokens \<Rightarrow> logits" where
  "repeat_penalty cfg logits recent =
     (if gc_repeat_penalty cfg \<noteq> 1 \<and> 0 < gc_repeat_last_n cfg
      then let window = min (length recent) (nat (gc_repeat_last_n cfg))
           in foldl (penalise_token (gc_repeat_penalty cfg)) logits (drop (length recent - window) recent)
      else logits)"

text \<open>\<open>std::max_element\<close>: the index of the first greatest element.\<close>

fun argmax_from :: "nat \<Rightarrow> real \<Rightarrow> nat \<Rightarrow> real list \<Rightarrow> nat" where
  "argmax_from best v i [] = best"
| "argmax_from best v i (x # xs) =
     (if v < x then argmax_from i x (Suc i) xs else argmax_from best v (Suc i) xs)"

definition argmax :: "real list \<Rightarrow> nat" where
  "argmax xs = (case xs of [] \<Rightarrow> 0 | x # xs \<Rightarrow> argmax_from 0 x 1 xs)"

definition one_hot :: "nat \<Rightarrow> nat \<Rightarrow> real list" where
  "one_hot n i = (replicate n 0)[i := 1]"

definition softmax :: "real \<Rightarrow> logits \<Rightarrow> real list" where
  "softmax temperature logits =
     (let max_logit = logits ! argmax logits;
          probs = map (\<lambda>l. exp ((l - max_logit) / temperature)) logits
      in map (\<lambda>p. p / sum_list probs) probs)"

text \<open>Indices by decreasing probability.\<close>

definition by_prob_desc :: "real list \<Rightarrow> nat list" where
  "by_prob_desc probs = sort_key (\<lambda>i. - (probs ! i)) [0..<length probs]"

text \<open>The inner loop: how many indices to keep and their cumulative mass.\<close>

fun nucleus_scan :: "real list \<Rightarrow> real \<Rightarrow> nat list \<Rightarrow> nat \<Rightarrow> real \<Rightarrow> nat \<times> real" where
  "nucleus_scan probs top_p [] keep cumulative = (keep, cumulative)"
| "nucleus_scan probs top_p (i # order) keep cumulative =
     (let c = cumulative + probs ! i
      in if top_p \<le> c then (Suc keep, c) else nucleus_scan probs top_p order (Suc keep) c)"

text \<open>
  The outer loop: only the \<open>k\<close> most probable indices are sorted, and \<open>k\<close> grows fourfold while
  they do not reach the mass. The vocabulary is not empty, so \<open>k\<close> is never 0.
\<close>

function nucleus_loop :: "real list \<Rightarrow> real \<Rightarrow> nat \<Rightarrow> nat \<times> real" where
  "nucleus_loop probs top_p k =
     (let (keep, cumulative) = nucleus_scan probs top_p (take k (by_prob_desc probs)) 0 0
      in if top_p \<le> cumulative \<or> length probs \<le> k \<or> k = 0 then (keep, cumulative)
         else nucleus_loop probs top_p (min (k * 4) (length probs)))"
  by pat_completeness auto
termination
  by (relation "measure (\<lambda>(probs, _, k). length probs - k)") auto

declare nucleus_loop.simps [simp del]

definition clamp :: "real \<Rightarrow> real \<Rightarrow> real \<Rightarrow> real" where
  "clamp v lo hi = (if v < lo then lo else if hi < v then hi else v)"

definition top_p_filter :: "real \<Rightarrow> real list \<Rightarrow> real list" where
  "top_p_filter top_p probs =
     (let (keep, cumulative) = nucleus_loop probs top_p (min 512 (length probs));
          kept = take keep (by_prob_desc probs)
      in map (\<lambda>i. if i \<in> set kept then probs ! i / cumulative else 0) [0..<length probs])"

definition distribution :: "GenerationConfig \<Rightarrow> logits \<Rightarrow> tokens \<Rightarrow> engine_exn + real list" where
  "distribution cfg logits recent =
     (if logits = [] then Inl (EngineError ''cannot sample from empty logits'')
      else let logits = repeat_penalty cfg logits recent
           in if gc_temperature cfg \<le> 0 then Inr (one_hot (length logits) (argmax logits))
              else let probs = softmax (gc_temperature cfg) logits;
                       top_p = clamp (gc_top_p cfg) 0 1
                   in Inr (if top_p < 1 then top_p_filter top_p probs else probs))"

text \<open>The multinomial draw for the uniform number \<open>r\<close>.\<close>

fun draw_loop :: "real list \<Rightarrow> nat \<Rightarrow> nat \<Rightarrow> real \<Rightarrow> nat" where
  "draw_loop [] i last_nonzero r = last_nonzero"
| "draw_loop (p # ps) i last_nonzero r =
     (if p \<le> 0 then draw_loop ps (Suc i) last_nonzero r
      else if r - p \<le> 0 then i else draw_loop ps (Suc i) i (r - p))"

definition draw :: "'r uniform \<Rightarrow> real list \<Rightarrow> 'r \<Rightarrow> (engine_exn + TokenId) \<times> 'r" where
  "draw uniform probs rng =
     (if probs = [] then (Inl (EngineError ''cannot draw from an empty distribution''), rng)
      else let (r, rng1) = uniform rng in (Inr (word_of_nat (draw_loop probs 0 0 r)), rng1))"

definition sample :: "'r uniform \<Rightarrow> GenerationConfig \<Rightarrow> logits \<Rightarrow> tokens \<Rightarrow> 'r \<Rightarrow> (engine_exn + TokenId) \<times> 'r" where
  "sample uniform cfg logits recent rng =
     (case distribution cfg logits recent of
        Inl e \<Rightarrow> (Inl e, rng)
      | Inr probs \<Rightarrow>
          if gc_temperature cfg \<le> 0 then (Inr (word_of_nat (argmax probs)), rng)
          else draw uniform probs rng)"

section \<open>Acceptance\<close>

definition accept_token :: "real \<Rightarrow> real \<Rightarrow> real \<Rightarrow> bool" where
  "accept_token target_prob draft_prob r \<longleftrightarrow> r * draft_prob < target_prob"

definition residual_distribution :: "real list \<Rightarrow> real list \<Rightarrow> real list" where
  "residual_distribution target_probs draft_probs =
     (let residual = map (\<lambda>i. max (target_probs ! i - (if i < length draft_probs then draft_probs ! i else 0)) 0)
                       [0..<length target_probs]
      in if sum_list residual \<le> 0 then target_probs else map (\<lambda>v. v / sum_list residual) residual)"

section \<open>Argmax and one-hot\<close>

lemma argmax_from_spec:
  assumes "v = ys ! best" and "best < i" and "i = length ys" and "\<forall>j<i. ys ! j \<le> v" and "\<forall>j<best. ys ! j < v"
  shows "argmax_from best v i xs < length (ys @ xs) \<and>
    (\<forall>j<length (ys @ xs). (ys @ xs) ! j \<le> (ys @ xs) ! argmax_from best v i xs) \<and>
    (\<forall>j<argmax_from best v i xs. (ys @ xs) ! j < (ys @ xs) ! argmax_from best v i xs)"
  using assms
proof (induction xs arbitrary: best v i ys)
  case (Cons x xs)
  have app: "ys @ x # xs = (ys @ [x]) @ xs" by simp
  show ?case
  proof (cases "v < x")
    case True
    have "argmax_from i x (Suc i) xs < length ((ys @ [x]) @ xs) \<and>
      (\<forall>j<length ((ys @ [x]) @ xs). ((ys @ [x]) @ xs) ! j \<le> ((ys @ [x]) @ xs) ! argmax_from i x (Suc i) xs) \<and>
      (\<forall>j<argmax_from i x (Suc i) xs. ((ys @ [x]) @ xs) ! j < ((ys @ [x]) @ xs) ! argmax_from i x (Suc i) xs)"
      by (rule Cons.IH) (use Cons.prems True in \<open>force simp: nth_append less_Suc_eq\<close>)+
    with True show ?thesis unfolding app by simp
  next
    case False
    have "argmax_from best v (Suc i) xs < length ((ys @ [x]) @ xs) \<and>
      (\<forall>j<length ((ys @ [x]) @ xs). ((ys @ [x]) @ xs) ! j \<le> ((ys @ [x]) @ xs) ! argmax_from best v (Suc i) xs) \<and>
      (\<forall>j<argmax_from best v (Suc i) xs. ((ys @ [x]) @ xs) ! j < ((ys @ [x]) @ xs) ! argmax_from best v (Suc i) xs)"
      by (rule Cons.IH) (use Cons.prems False in \<open>force simp: nth_append less_Suc_eq\<close>)+
    with False show ?thesis unfolding app by simp
  qed
qed auto

lemma argmax_spec:
  assumes "xs \<noteq> []"
  shows "argmax xs < length xs" and "j < length xs \<Longrightarrow> xs ! j \<le> xs ! argmax xs"
    and "j < argmax xs \<Longrightarrow> xs ! j < xs ! argmax xs"
proof -
  obtain y ys where xs: "xs = y # ys" using assms by (cases xs) auto
  from argmax_from_spec [of y "[y]" 0 1 ys]
  show "argmax xs < length xs" "j < length xs \<Longrightarrow> xs ! j \<le> xs ! argmax xs"
    "j < argmax xs \<Longrightarrow> xs ! j < xs ! argmax xs"
    by (simp_all add: xs argmax_def)
qed

lemma length_one_hot [simp]: "length (one_hot n i) = n"
  by (simp add: one_hot_def)

lemma nth_one_hot: "j < n \<Longrightarrow> one_hot n i ! j = (if j = i then 1 else 0)"
  by (simp add: one_hot_def nth_list_update)

lemma argmax_one_hot: "i < n \<Longrightarrow> argmax (one_hot n i) = i"
proof -
  assume i: "i < n"
  then have ne: "one_hot n i \<noteq> []" by (metis length_0_conv length_one_hot not_less_zero)
  note s = argmax_spec [OF ne]
  have "one_hot n i ! i \<le> one_hot n i ! argmax (one_hot n i)" using s(2) [of i] i by simp
  then show ?thesis using s(1) i by (auto simp: nth_one_hot split: if_splits)
qed

lemma length_penalise [simp]: "length (penalise_token p l t) = length l"
  by (simp add: penalise_token_def Let_def)

lemma length_foldl_penalise: "length (foldl (penalise_token p) l ts) = length l"
  by (induction ts arbitrary: l) auto

lemma length_repeat_penalty [simp]: "length (repeat_penalty cfg l recent) = length l"
  by (simp add: repeat_penalty_def Let_def length_foldl_penalise)


text \<open>Greedy sampling is the argmax of the penalised logits.\<close>

definition greedy_token :: "GenerationConfig \<Rightarrow> logits \<Rightarrow> tokens \<Rightarrow> TokenId" where
  "greedy_token cfg logits recent = word_of_nat (argmax (repeat_penalty cfg logits recent))"

lemma repeat_penalty_nonempty: "l \<noteq> [] \<Longrightarrow> repeat_penalty cfg l recent \<noteq> []"
  by (metis length_0_conv length_repeat_penalty)

lemma sample_greedy:
  assumes "gc_temperature cfg \<le> 0" and "logits \<noteq> []"
  shows "sample uniform cfg logits recent rng = (Inr (greedy_token cfg logits recent), rng)"
proof -
  have "argmax (repeat_penalty cfg logits recent) < length logits"
    using argmax_spec(1) [OF repeat_penalty_nonempty [OF assms(2)]] by simp
  with assms show ?thesis
    by (simp add: sample_def distribution_def greedy_token_def Let_def argmax_one_hot)
qed

section \<open>The nucleus\<close>

lemma nucleus_scan_acc:
  "nucleus_scan probs tp order keep c = (keep', c') \<Longrightarrow>
     keep \<le> keep' \<and> keep' \<le> keep + length order \<and>
     c' = c + sum_list (map ((!) probs) (take (keep' - keep) order)) \<and>
     (order \<noteq> [] \<longrightarrow> keep < keep') \<and> (c' < tp \<longrightarrow> keep' = keep + length order)"
proof (induction order arbitrary: keep c)
  case (Cons i order)
  show ?case
  proof (cases "tp \<le> c + probs ! i")
    case True
    with Cons.prems show ?thesis by (auto simp: Let_def)
  next
    case False
    with Cons.prems have "nucleus_scan probs tp order (Suc keep) (c + probs ! i) = (keep', c')" by (simp add: Let_def)
    note ih = Cons.IH [OF this]
    then obtain j where j: "keep' = Suc keep + j" using le_Suc_ex by blast
    then have d: "keep' - keep = Suc j" "keep' - Suc keep = j" by simp_all
    have c': "c' = c + probs ! i + sum_list (map ((!) probs) (take j order))"
      using ih unfolding d(2) by blast
    show ?thesis
    proof (intro conjI impI)
      show "keep \<le> keep'" "keep < keep'" using j by simp_all
      show "keep' \<le> keep + length (i # order)"
        using ih [THEN conjunct2, THEN conjunct1] by simp
      show "c' = c + sum_list (map ((!) probs) (take (keep' - keep) (i # order)))"
        unfolding d(1) c' by simp
      show "keep' = keep + length (i # order)" if "c' < tp"
        using ih [THEN conjunct2, THEN conjunct2, THEN conjunct2, THEN conjunct2, rule_format, OF that] by simp
    qed
  qed
qed auto

lemma nucleus_scan_take:
  assumes "nucleus_scan probs tp (take k order) keep c = (keep', c')" and "tp \<le> c'" and "0 < k" and "order \<noteq> []"
  shows "nucleus_scan probs tp order keep c = (keep', c')"
  using assms
proof (induction order arbitrary: k keep c)
  case (Cons i order)
  from Cons.prems(3) obtain k' where k: "k = Suc k'" by (cases k) auto
  show ?case
  proof (cases "tp \<le> c + probs ! i")
    case True
    with Cons.prems k show ?thesis by (simp add: Let_def)
  next
    case False
    with Cons.prems k have r: "nucleus_scan probs tp (take k' order) (Suc keep) (c + probs ! i) = (keep', c')"
      by (simp add: Let_def)
    show ?thesis
    proof (cases "k' = 0 \<or> order = []")
      case True
      with r Cons.prems(2) False show ?thesis by auto
    next
      case False
      with Cons.IH [OF r Cons.prems(2)] \<open>\<not> tp \<le> c + probs ! i\<close> show ?thesis by (simp add: Let_def)
    qed
  qed
qed simp

lemma length_by_prob_desc [simp]: "length (by_prob_desc probs) = length probs"
  and set_by_prob_desc [simp]: "set (by_prob_desc probs) = {..<length probs}"
  and distinct_by_prob_desc [simp]: "distinct (by_prob_desc probs)"
  by (auto simp: by_prob_desc_def)

lemma nucleus_loop_full:
  assumes "0 < k"
  shows "nucleus_loop probs tp k = nucleus_scan probs tp (by_prob_desc probs) 0 0"
  using assms
proof (induction probs tp k rule: nucleus_loop.induct)
  case (1 probs tp k)
  obtain keep c where sc: "nucleus_scan probs tp (take k (by_prob_desc probs)) 0 0 = (keep, c)" by fastforce
  show ?case
  proof (cases "by_prob_desc probs = []")
    case True
    with sc show ?thesis by (subst nucleus_loop.simps) (auto simp: length_by_prob_desc [symmetric] simp del: length_by_prob_desc)
  next
    case ne: False
    consider "tp \<le> c" | "\<not> tp \<le> c" "length probs \<le> k" | "\<not> tp \<le> c" "k < length probs" by linarith
    then show ?thesis
    proof cases
      case 1
      with sc nucleus_scan_take [OF sc 1 \<open>0 < k\<close> ne] show ?thesis by (subst nucleus_loop.simps) simp
    next
      case 2
      then have "take k (by_prob_desc probs) = by_prob_desc probs" by simp
      with sc 2 show ?thesis by (subst nucleus_loop.simps) simp
    next
      case 3
      then have "probs \<noteq> []" by auto
      with 3 1(1) [OF sc [symmetric] refl] sc \<open>0 < k\<close> show ?thesis by (subst nucleus_loop.simps) simp
    qed
  qed
qed

lemma sum_list_pos: "xs \<noteq> [] \<Longrightarrow> (\<And>x. x \<in> set xs \<Longrightarrow> 0 < x) \<Longrightarrow> 0 < sum_list (xs :: real list)"
  by (induction xs rule: list_nonempty_induct) (auto intro: add_pos_pos)

lemma softmax_props:
  assumes "logits \<noteq> []"
  shows "length (softmax t logits) = length logits" and "x \<in> set (softmax t logits) \<Longrightarrow> 0 < x"
    and "sum_list (softmax t logits) = 1"
proof -
  let ?e = "map (\<lambda>l. exp ((l - logits ! argmax logits) / t)) logits"
  have pos: "0 < sum_list ?e"
    using assms by (intro sum_list_pos) auto
  show "length (softmax t logits) = length logits" by (simp add: softmax_def Let_def)
  show "0 < x" if "x \<in> set (softmax t logits)" using that pos by (auto simp: softmax_def Let_def)
  have "sum_list (map (\<lambda>p. p / sum_list ?e) ?e) = sum_list ?e / sum_list ?e"
    by (simp only: divide_inverse sum_list_mult_const map_idI)
  with pos show "sum_list (softmax t logits) = 1" by (simp add: softmax_def Let_def)
qed


lemma nucleus_scan_minimal:
  "nucleus_scan probs tp order keep c = (keep', c') \<Longrightarrow> j < keep' - keep \<Longrightarrow> 0 < j \<Longrightarrow>
     c + sum_list (map ((!) probs) (take j order)) < tp"
proof (induction order arbitrary: keep c j)
  case (Cons i order)
  show ?case
  proof (cases "tp \<le> c + probs ! i")
    case True
    with Cons.prems show ?thesis by (auto simp: Let_def)
  next
    case False
    with Cons.prems have r: "nucleus_scan probs tp order (Suc keep) (c + probs ! i) = (keep', c')" by (simp add: Let_def)
    from Cons.prems(3) obtain j' where j: "j = Suc j'" by (cases j) auto
    show ?thesis
    proof (cases "j' = 0")
      case True
      with j False show ?thesis by simp
    next
      case False
      with Cons.IH [OF r, of j'] Cons.prems(2) j show ?thesis by (simp add: add.assoc)
    qed
  qed
qed simp

text \<open>The nucleus of a full sort, and what the filter keeps of it.\<close>

definition nucleus :: "real \<Rightarrow> real list \<Rightarrow> nat list" where
  "nucleus top_p probs = take (fst (nucleus_scan probs top_p (by_prob_desc probs) 0 0)) (by_prob_desc probs)"

definition mass :: "real list \<Rightarrow> nat list \<Rightarrow> real" where
  "mass probs is = sum_list (map ((!) probs) is)"

lemma top_p_filter_nucleus:
  assumes "probs \<noteq> []"
  shows "top_p_filter tp probs =
    map (\<lambda>i. if i \<in> set (nucleus tp probs) then probs ! i / mass probs (nucleus tp probs) else 0) [0..<length probs]"
proof -
  obtain keep c where sc: "nucleus_scan probs tp (by_prob_desc probs) 0 0 = (keep, c)" by fastforce
  have "c = mass probs (take keep (by_prob_desc probs))"
    using nucleus_scan_acc [OF sc, THEN conjunct2, THEN conjunct2, THEN conjunct1] by (simp add: mass_def)
  with sc assms show ?thesis
    by (simp add: top_p_filter_def nucleus_def nucleus_loop_full Let_def)
qed

lemma nucleus_props:
  assumes "probs \<noteq> []"
  shows "nucleus tp probs \<noteq> []" and "distinct (nucleus tp probs)" and "set (nucleus tp probs) \<subseteq> {..<length probs}"
proof -
  obtain keep c where sc: "nucleus_scan probs tp (by_prob_desc probs) 0 0 = (keep, c)" by fastforce
  have ne: "by_prob_desc probs \<noteq> []" using assms by (metis length_0_conv length_by_prob_desc)
  with nucleus_scan_acc [OF sc] sc have k: "0 < keep" by blast
  show "nucleus tp probs \<noteq> []" using k ne by (simp add: nucleus_def sc)
  show "distinct (nucleus tp probs)" by (simp add: nucleus_def)
  show "set (nucleus tp probs) \<subseteq> {..<length probs}"
    using set_take_subset [of keep "by_prob_desc probs"] by (simp add: nucleus_def sc)
qed

lemma top_p_filter_props:
  assumes "probs \<noteq> []" and "\<And>x. x \<in> set probs \<Longrightarrow> 0 < x"
  shows "length (top_p_filter tp probs) = length probs" and "x \<in> set (top_p_filter tp probs) \<Longrightarrow> 0 \<le> x"
    and "sum_list (top_p_filter tp probs) = 1"
proof -
  let ?K = "nucleus tp probs" and ?n = "length probs"
  note N = nucleus_props [OF assms(1), of tp]
  have pos: "0 < mass probs ?K"
    unfolding mass_def using N(1,3) assms(2) by (intro sum_list_pos) auto
  show "length (top_p_filter tp probs) = ?n" by (simp add: top_p_filter_nucleus [OF assms(1)])
  show "0 \<le> x" if "x \<in> set (top_p_filter tp probs)"
    using that pos assms(2) by (auto simp: top_p_filter_nucleus [OF assms(1)] intro: less_imp_le divide_pos_pos)
  have "sum_list (top_p_filter tp probs) = (\<Sum>i<?n. if i \<in> set ?K then probs ! i / mass probs ?K else 0)"
    by (simp add: top_p_filter_nucleus [OF assms(1)] interv_sum_list_conv_sum_set_nat atLeast0LessThan)
  also have "\<dots> = (\<Sum>i\<in>set ?K. probs ! i / mass probs ?K)"
    using N(3) by (simp add: sum.If_cases Int_absorb1)
  also have "\<dots> = mass probs ?K / mass probs ?K"
    unfolding sum_divide_distrib [symmetric] using N(2) by (simp add: mass_def sum_list_distinct_conv_sum_set)
  also have "\<dots> = 1" using pos by simp
  finally show "sum_list (top_p_filter tp probs) = 1" .
qed

lemma one_hot_sum: "i < n \<Longrightarrow> sum_list (one_hot n i) = 1"
proof -
  assume "i < n"
  have "sum_list (one_hot n i) = (\<Sum>j<n. one_hot n i ! j)"
    by (simp add: sum_list_sum_nth atLeast0LessThan)
  also have "\<dots> = (\<Sum>j<n. if j = i then 1 else 0)" by (rule sum.cong) (simp_all add: nth_one_hot)
  also have "\<dots> = 1" using \<open>i < n\<close> by simp
  finally show ?thesis .
qed

lemma distribution_props:
  assumes "distribution cfg logits recent = Inr probs"
  shows "length probs = length logits \<and> (\<forall>x\<in>set probs. 0 \<le> x) \<and> sum_list probs = 1"
proof -
  let ?l = "repeat_penalty cfg logits recent"
  have ne: "logits \<noteq> []" using assms by (auto simp: distribution_def)
  note l = repeat_penalty_nonempty [OF ne, of cfg recent]
  show ?thesis
  proof (cases "gc_temperature cfg \<le> 0")
    case True
    with assms ne have p: "probs = one_hot (length logits) (argmax ?l)" by (simp add: distribution_def Let_def)
    moreover have a: "argmax ?l < length logits" using argmax_spec(1) [OF l] by simp
    moreover have "\<forall>x\<in>set probs. 0 \<le> x" using p a by (auto simp: in_set_conv_nth nth_one_hot)
    ultimately show ?thesis by (simp add: one_hot_sum)
  next
    case False
    let ?s = "softmax (gc_temperature cfg) ?l" and ?tp = "clamp (gc_top_p cfg) 0 1"
    note S = softmax_props(1,3) [OF l, of "gc_temperature cfg"]
    have pos: "0 < x" if "x \<in> set ?s" for x using that by (rule softmax_props(2) [OF l])
    have sne: "?s \<noteq> []" using S(1) l by (metis length_0_conv)
    have p: "probs = (if ?tp < 1 then top_p_filter ?tp ?s else ?s)"
      using assms ne False by (simp add: distribution_def Let_def)
    show ?thesis
    proof (cases "?tp < 1")
      case True
      with p S top_p_filter_props [OF sne pos] show ?thesis by simp
    next
      case False
      with p S pos show ?thesis by (auto intro: less_imp_le)
    qed
  qed
qed

section \<open>Drawing\<close>

lemma draw_loop_spec:
  "\<lbrakk>\<forall>x\<in>set ps. 0 \<le> x; (\<exists>x\<in>set ps. 0 < x) \<or> (nz < i \<and> 0 < qs ! nz); length qs = i\<rbrakk> \<Longrightarrow>
     draw_loop ps i nz r < i + length ps \<and> 0 < (qs @ ps) ! draw_loop ps i nz r"
proof (induction ps arbitrary: i nz r qs)
  case Nil
  then show ?case by (auto simp: nth_append)
next
  case (Cons p ps)
  have app: "qs @ p # ps = (qs @ [p]) @ ps" by simp
  consider "p \<le> 0" | "0 < p" "r - p \<le> 0" | "0 < p" "\<not> r - p \<le> 0" by linarith
  then show ?case
  proof cases
    case 1
    with Cons.prems have "(\<exists>x\<in>set ps. 0 < x) \<or> (nz < Suc i \<and> 0 < (qs @ [p]) ! nz)" by (auto simp: nth_append)
    from Cons.IH [OF _ this, of r] Cons.prems(1,3) 1 show ?thesis unfolding app by simp
  next
    case 2
    with Cons.prems(3) show ?thesis by (simp add: nth_append)
  next
    case 3
    have "(\<exists>x\<in>set ps. 0 < x) \<or> (i < Suc i \<and> 0 < (qs @ [p]) ! i)" using Cons.prems(3) 3 by (simp add: nth_append)
    from Cons.IH [OF _ this, of "r - p"] Cons.prems(1,3) 3 show ?thesis unfolding app by simp
  qed
qed


section \<open>Speculative acceptance\<close>

text \<open>The chance that a uniform number in \<open>[0, 1)\<close> accepts: the length of the accepting interval.\<close>

definition accept_prob :: "real \<Rightarrow> real \<Rightarrow> real" where
  "accept_prob p q = (if p < q then p / q else 1)"

lemma accept_token_prob:
  assumes "0 \<le> p" and "0 < q" and "0 \<le> r" and "r < 1"
  shows "accept_token p q r \<longleftrightarrow> r < accept_prob p q"
proof (cases "p < q")
  case True
  with assms show ?thesis by (simp add: accept_token_def accept_prob_def pos_less_divide_eq)
next
  case False
  have "r * q < 1 * q" using assms by (intro mult_strict_right_mono) auto
  with False have "r * q < p" by linarith
  with False assms show ?thesis by (simp add: accept_token_def accept_prob_def)
qed

text \<open>
  The probability that token \<open>x\<close> leaves one round: drafted and accepted, or produced by the
  correction after a rejection of whatever token was drafted.
\<close>

definition round_prob :: "real list \<Rightarrow> real list \<Rightarrow> nat \<Rightarrow> real" where
  "round_prob p q x =
     q ! x * accept_prob (p ! x) (q ! x) +
     (\<Sum>y<length q. q ! y * (1 - accept_prob (p ! y) (q ! y))) * residual_distribution p q ! x"

lemma accepted_mass: "0 \<le> p \<Longrightarrow> 0 \<le> q \<Longrightarrow> q * accept_prob p q = min p q"
  by (auto simp: accept_prob_def min_def)

lemma rejected_mass: "0 \<le> p \<Longrightarrow> 0 \<le> q \<Longrightarrow> q * (1 - accept_prob p q) = max (q - p) 0"
  using accepted_mass [of p q] by (auto simp: right_diff_distrib min_def max_def)

lemma round_prob_exact:
  assumes "length p = length q" and "\<forall>x\<in>set p. 0 \<le> x" and "\<forall>x\<in>set q. 0 \<le> x"
    and "sum_list p = 1" and "sum_list q = 1" and "x < length p"
  shows "round_prob p q x = p ! x"
proof -
  let ?n = "length p"
  have p0: "0 \<le> p ! i" and q0: "0 \<le> q ! i" if "i < ?n" for i using assms(1-3) that by auto
  let ?rej = "\<Sum>y<?n. max (q ! y - p ! y) 0" and ?res = "\<Sum>y<?n. max (p ! y - q ! y) 0"
  have sums: "(\<Sum>y<?n. p ! y) = 1" "(\<Sum>y<?n. q ! y) = 1"
    using assms(1,4,5) by (simp_all add: sum_list_sum_nth atLeast0LessThan)
  have "?res - ?rej = (\<Sum>y<?n. p ! y) - (\<Sum>y<?n. q ! y)"
    by (simp add: sum_subtractf [symmetric] max_def) (rule sum.cong, auto)
  then have eq: "?res = ?rej" using sums by simp
  have r1: "(\<Sum>y<length q. q ! y * (1 - accept_prob (p ! y) (q ! y))) = ?rej"
    unfolding assms(1) [symmetric] by (rule sum.cong) (auto simp: rejected_mass p0 q0)
  let ?residual = "map (\<lambda>i. max (p ! i - (if i < length q then q ! i else 0)) 0) [0..<?n]"
  have residual: "?residual = map (\<lambda>i. max (p ! i - q ! i) 0) [0..<?n]" using assms(1) by simp
  have sres: "sum_list ?residual = ?res"
    unfolding residual by (simp add: interv_sum_list_conv_sum_set_nat atLeast0LessThan)
  have acc: "q ! x * accept_prob (p ! x) (q ! x) = min (p ! x) (q ! x)" using accepted_mass p0 q0 assms(6) by simp
  have nonneg: "0 \<le> ?res" by (rule sum_nonneg) simp
  show ?thesis
  proof (cases "?res \<le> 0")
    case True
    then have z: "?res = 0" using nonneg by simp
    then have "max (p ! x - q ! x) 0 = 0"
      using sum_nonneg_eq_0_iff [of "{..<?n}" "\<lambda>y. max (p ! y - q ! y) 0"] assms(6) by simp
    moreover have "?rej = 0" using z eq by simp
    then have "max (q ! x - p ! x) 0 = 0"
      using sum_nonneg_eq_0_iff [of "{..<?n}" "\<lambda>y. max (q ! y - p ! y) 0"] assms(6) by simp
    ultimately have "p ! x = q ! x" by (simp add: max_def split: if_splits)
    with \<open>?rej = 0\<close> acc show ?thesis unfolding round_prob_def r1 by simp
  next
    case False
    have "residual_distribution p q ! x = max (p ! x - q ! x) 0 / ?res"
      using False assms(6) sres unfolding residual_distribution_def Let_def by (simp add: residual assms(1))
    then have "?rej * residual_distribution p q ! x = max (p ! x - q ! x) 0" using eq False by simp
    with acc show ?thesis unfolding round_prob_def r1 by (simp add: min_def max_def)
  qed
qed


lemma unat_small: "n < 2 ^ 31 \<Longrightarrow> unat (word_of_nat n :: TokenId) = n"
  by (simp add: unat_of_nat)

lemma distribution_support:
  assumes "distribution cfg logits recent = Inr probs"
  shows "\<exists>x\<in>set probs. 0 < x"
proof (rule ccontr)
  assume "\<not> (\<exists>x\<in>set probs. 0 < x)"
  then have "x \<in> set probs \<Longrightarrow> x = 0" for x using distribution_props [OF assms] by force
  then have "sum_list probs = 0" by (induction probs) auto
  with distribution_props [OF assms] show False by simp
qed

section \<open>Properties\<close>

text \<open>
  What the sampler draws from is a probability distribution over the vocabulary, for every
  penalty, temperature and top-p, and the token it returns has positive probability in it:
  a token outside the nucleus is never produced, whatever the random number.
\<close>

theorem sample_in_support:
  assumes "logits \<noteq> []" and "length logits < 2 ^ 31"
  shows "\<exists>probs t rng'. distribution cfg logits recent = Inr probs \<and>
    length probs = length logits \<and> (\<forall>x\<in>set probs. 0 \<le> x) \<and> sum_list probs = 1 \<and>
    sample uniform cfg logits recent rng = (Inr t, rng') \<and> unat t < length logits \<and> 0 < probs ! unat t"
proof -
  obtain probs where d: "distribution cfg logits recent = Inr probs"
    using assms(1) unfolding distribution_def Let_def by (cases "gc_temperature cfg \<le> 0") simp_all
  note P = distribution_props [OF d]
  have ne: "probs \<noteq> []" using P assms(1) by auto
  show ?thesis
  proof (cases "gc_temperature cfg \<le> 0")
    case True
    let ?i = "argmax probs"
    have "?i < length logits" using argmax_spec(1) [OF ne] P by simp
    moreover from distribution_support [OF d] obtain j where "j < length probs" "0 < probs ! j"
      by (auto simp: in_set_conv_nth)
    then have "0 < probs ! ?i" using argmax_spec(2) [OF ne, of j] by linarith
    ultimately show ?thesis using True d P assms(2)
      by (intro exI [of _ probs] exI [of _ "word_of_nat ?i"] exI [of _ rng]) (simp add: sample_def unat_small)
  next
    case False
    obtain r rng' where u: "uniform rng = (r, rng')" by fastforce
    let ?i = "draw_loop probs 0 0 r"
    have "?i < length logits" "0 < probs ! ?i"
      using draw_loop_spec [of probs 0 0 "[]" r] distribution_support [OF d] P by simp_all
    with False d P assms(2) ne u show ?thesis
      by (intro exI [of _ probs] exI [of _ "word_of_nat ?i"] exI [of _ rng']) (simp add: sample_def draw_def unat_small)
  qed
qed

theorem sample_in_support_witness:
  "\<exists>probs t rng'. distribution \<lparr>gc_max_tokens = 4, gc_temperature = 1, gc_top_p = 1 / 2, gc_repeat_penalty = 2,
       gc_repeat_last_n = 8, gc_seed = 1, gc_echo_prompt = False\<rparr> [0, 1, 3] [2] = Inr probs \<and>
    length probs = length [0, 1, 3 :: real] \<and> (\<forall>x\<in>set probs. 0 \<le> x) \<and> sum_list probs = 1 \<and>
    sample (\<lambda>n :: nat. (1 / 3, Suc n)) \<lparr>gc_max_tokens = 4, gc_temperature = 1, gc_top_p = 1 / 2, gc_repeat_penalty = 2,
       gc_repeat_last_n = 8, gc_seed = 1, gc_echo_prompt = False\<rparr> [0, 1, 3] [2] 0 = (Inr t, rng') \<and>
    unat t < length [0, 1, 3 :: real] \<and> 0 < probs ! unat t"
  by (rule sample_in_support) simp_all

text \<open>
  C23. The widening search is the nucleus of a full sort: sorting only the 512 most probable
  tokens, and four times as many while they do not carry enough mass, keeps exactly the
  shortest prefix of the fully sorted vocabulary whose mass reaches top-p (the whole
  vocabulary if none does), renormalised by its mass.
\<close>

theorem widening_finds_nucleus:
  assumes "probs \<noteq> []"
  shows "top_p_filter tp probs = map (\<lambda>i. if i \<in> set (nucleus tp probs)
      then probs ! i / mass probs (nucleus tp probs) else 0) [0..<length probs] \<and>
    (tp \<le> mass probs (nucleus tp probs) \<or> nucleus tp probs = by_prob_desc probs) \<and>
    (\<forall>j. 0 < j \<and> j < length (nucleus tp probs) \<longrightarrow> mass probs (take j (by_prob_desc probs)) < tp)"
proof -
  obtain keep c where sc: "nucleus_scan probs tp (by_prob_desc probs) 0 0 = (keep, c)" by fastforce
  note acc = nucleus_scan_acc [OF sc]
  have c: "c = mass probs (nucleus tp probs)"
    using acc [THEN conjunct2, THEN conjunct2, THEN conjunct1] by (simp add: mass_def nucleus_def sc)
  have len: "length (nucleus tp probs) = keep"
    using acc [THEN conjunct2, THEN conjunct1] by (simp add: nucleus_def sc)
  have "tp \<le> mass probs (nucleus tp probs) \<or> nucleus tp probs = by_prob_desc probs"
  proof (cases "tp \<le> c")
    case False
    then have "keep = length (by_prob_desc probs)"
      using acc [THEN conjunct2, THEN conjunct2, THEN conjunct2, THEN conjunct2] by (simp add: not_le)
    then show ?thesis by (simp add: nucleus_def sc)
  qed (simp add: c)
  moreover have "mass probs (take j (by_prob_desc probs)) < tp" if "0 < j" "j < length (nucleus tp probs)" for j
    using nucleus_scan_minimal [OF sc, of j] that len by (simp add: mass_def)
  ultimately show ?thesis using top_p_filter_nucleus [OF assms] by blast
qed

theorem widening_finds_nucleus_witness:
  "top_p_filter (1 / 2) [1 / 4, 3 / 4] = map (\<lambda>i. if i \<in> set (nucleus (1 / 2) [1 / 4, 3 / 4])
      then [1 / 4, 3 / 4] ! i / mass [1 / 4, 3 / 4] (nucleus (1 / 2) [1 / 4, 3 / 4]) else 0) [0..<length [1 / 4, 3 / 4 :: real]] \<and>
   (1 / 2 \<le> mass [1 / 4, 3 / 4] (nucleus (1 / 2) [1 / 4, 3 / 4]) \<or> nucleus (1 / 2) [1 / 4, 3 / 4] = by_prob_desc [1 / 4, 3 / 4])"
  by (intro conjI widening_finds_nucleus [THEN conjunct1] widening_finds_nucleus [THEN conjunct2, THEN conjunct1]) simp_all

text \<open>
  C22. Speculation does not change what is generated: for any target and draft distributions, a
  round that accepts the drafted token by \<open>accept_token\<close> and otherwise draws from
  \<open>residual_distribution\<close> produces every token with exactly its target probability.
\<close>

theorem speculative_round_exact:
  assumes "length p = length q" and "\<forall>x\<in>set p. 0 \<le> x" and "\<forall>x\<in>set q. 0 \<le> x"
    and "sum_list p = 1" and "sum_list q = 1" and "x < length p"
  shows "round_prob p q x = p ! x \<and>
    (0 < q ! x \<longrightarrow> (\<forall>r. 0 \<le> r \<and> r < 1 \<longrightarrow> accept_token (p ! x) (q ! x) r = (r < accept_prob (p ! x) (q ! x))))"
  using round_prob_exact [OF assms] accept_token_prob assms(2,6) by simp

theorem speculative_round_exact_witness:
  "round_prob [1 / 4, 3 / 4] [1, 0] 1 = 3 / 4 \<and> accept_token (1 / 4) 1 (1 / 8) = (1 / 8 < accept_prob (1 / 4) 1)"
proof -
  have "round_prob [1 / 4, 3 / 4] [1, 0] 1 = [1 / 4, 3 / 4] ! 1"
    by (rule speculative_round_exact [THEN conjunct1]) simp_all
  moreover have "accept_token ([1 / 4, 3 / 4] ! 0) ([1, 0] ! 0) (1 / 8) = (1 / 8 < accept_prob ([1 / 4, 3 / 4] ! 0) ([1, 0] ! 0))"
    using speculative_round_exact [of "[1 / 4, 3 / 4]" "[1, 0]" 0, THEN conjunct2] by simp
  ultimately show ?thesis by simp
qed

end
