(* ===== verification/Corpus_Index.thy ===== *)
theory Corpus_Index
  imports Cache_Serializer "HOL-Library.AList"
begin

text \<open>
  The generation memory (\<open>src/src/palimpsest/corpus_index.cpp\<close>): the token log with its stream
  boundaries, the n-gram index, drafting from it, eviction and persistence. The log file is
  its byte content (\<open>None\<close>: no file yet).

  The abstract state is the list of observed streams. The main results: a draft is a real
  continuation of the n-gram inside one observed stream, the log respects its budget, and
  flushing and reopening restores the same state.
\<close>

section \<open>State and operations\<close>

record corpus_config =
  cc_ngram :: nat
  cc_max_log_bytes :: nat
  cc_max_sites :: nat

record CorpusIndex =
  ci_cfg :: corpus_config
  ci_log :: tokens
  ci_stream_ends :: "nat list"
  ci_flushed :: nat
  ci_index :: "(u64 \<times> nat list) list"
  ci_file :: "bytes option"

definition token_bytes :: "tokens \<Rightarrow> bytes" where
  "token_bytes ts = concat (map (le_bytes 4) ts)"

definition ngram_key :: "tokens \<Rightarrow> u64" where
  "ngram_key ts = foldl fnv_step 0xcbf29ce484222325 (token_bytes ts)"

definition max_tokens :: "corpus_config \<Rightarrow> nat" where
  "max_tokens cfg = cc_max_log_bytes cfg div 4"

text \<open>\<open>std::upper_bound\<close>: the first stream end strictly greater than the offset.\<close>

definition stream_end_for :: "CorpusIndex \<Rightarrow> nat \<Rightarrow> nat" where
  "stream_end_for c offset =
     (case find (\<lambda>e. offset < e) (ci_stream_ends c) of None \<Rightarrow> length (ci_log c) | Some e \<Rightarrow> e)"

text \<open>
  One step of the indexing loop: append the site to the deque of the n-gram that precedes it
  and keep the newest \<open>max_sites\<close>. Offsets are stored as 32-bit values.
\<close>

definition index_site :: "corpus_config \<Rightarrow> tokens \<Rightarrow> (u64 \<times> nat list) list \<Rightarrow> nat \<Rightarrow> (u64 \<times> nat list) list"
where
  "index_site cfg log index i =
     (let n = cc_ngram cfg;
          key = ngram_key (take n (drop i log));
          sites = (case map_of index key of None \<Rightarrow> [] | Some s \<Rightarrow> s) @ [(i + n) mod 2 ^ 32]
      in AList.update key (drop (length sites - cc_max_sites cfg) sites) index)"

definition index_stream :: "corpus_config \<Rightarrow> tokens \<Rightarrow> (u64 \<times> nat list) list \<Rightarrow> nat \<Rightarrow> nat
    \<Rightarrow> (u64 \<times> nat list) list" where
  "index_stream cfg log index bgn end =
     (if end - bgn < cc_ngram cfg + 1 then index
      else foldl (index_site cfg log) index [bgn..<end - cc_ngram cfg])"

fun rebuild_from :: "corpus_config \<Rightarrow> tokens \<Rightarrow> (u64 \<times> nat list) list \<Rightarrow> nat \<Rightarrow> nat list
    \<Rightarrow> (u64 \<times> nat list) list" where
  "rebuild_from cfg log index bgn [] = index"
| "rebuild_from cfg log index bgn (e # es) =
     rebuild_from cfg log (index_stream cfg log index bgn e) e es"

definition rebuild_index :: "CorpusIndex \<Rightarrow> CorpusIndex" where
  "rebuild_index c = c\<lparr>ci_index := rebuild_from (ci_cfg c) (ci_log c) [] 0 (ci_stream_ends c)\<rparr>"

text \<open>A framed stream: its length as a u32, then the raw tokens.\<close>

definition frame :: "tokens \<Rightarrow> bytes" where
  "frame ts =
     (let len = word_of_nat (length ts) :: u32
      in le_bytes 4 len @ token_bytes (take (unat len) ts))"

fun frames_from :: "tokens \<Rightarrow> nat \<Rightarrow> nat list \<Rightarrow> bytes" where
  "frames_from log bgn [] = []"
| "frames_from log bgn (e # es) = frame (take (e - bgn) (drop bgn log)) @ frames_from log e es"

definition rewrite_file :: "CorpusIndex \<Rightarrow> CorpusIndex" where
  "rewrite_file c = c\<lparr>ci_file := Some (frames_from (ci_log c) 0 (ci_stream_ends c)),
                      ci_flushed := length (ci_stream_ends c)\<rparr>"

text \<open>The scan of \<open>evict_oldest\<close>: how many streams and how many tokens to drop.\<close>

fun drop_scan :: "nat \<Rightarrow> nat \<Rightarrow> nat list \<Rightarrow> nat \<Rightarrow> nat \<Rightarrow> nat \<times> nat" where
  "drop_scan budget log_size [] drop_streams drop_tokens = (drop_streams, drop_tokens)"
| "drop_scan budget log_size (e # es) drop_streams drop_tokens =
     (if budget < log_size - drop_tokens then drop_scan budget log_size es (drop_streams + 1) e
      else (drop_streams, drop_tokens))"

definition evict_oldest :: "CorpusIndex \<Rightarrow> CorpusIndex" where
  "evict_oldest c =
     (let (drop_streams, drop_tokens) =
            drop_scan (max_tokens (ci_cfg c)) (length (ci_log c)) (ci_stream_ends c) 0 0
      in rewrite_file (rebuild_index
           (c\<lparr>ci_log := drop drop_tokens (ci_log c),
              ci_stream_ends := map (\<lambda>e. e - drop_tokens) (drop drop_streams (ci_stream_ends c))\<rparr>)))"

definition add_stream :: "CorpusIndex \<Rightarrow> tokens \<Rightarrow> CorpusIndex" where
  "add_stream c ts =
     (let bgn = length (ci_log c); log = ci_log c @ ts
      in c\<lparr>ci_log := log, ci_stream_ends := ci_stream_ends c @ [length log],
           ci_index := index_stream (ci_cfg c) log (ci_index c) bgn (length log)\<rparr>)"

definition observe :: "CorpusIndex \<Rightarrow> tokens \<Rightarrow> CorpusIndex" where
  "observe c ts =
     (if ts = [] then c
      else let c1 = add_stream c ts
           in if max_tokens (ci_cfg c1) < length (ci_log c1) then evict_oldest c1 else c1)"

text \<open>The loop of \<open>draft\<close> over the sites, newest first.\<close>

fun draft_sites :: "CorpusIndex \<Rightarrow> tokens \<Rightarrow> nat \<Rightarrow> nat list \<Rightarrow> tokens" where
  "draft_sites c tail k [] = []"
| "draft_sites c tail k (start # sites) =
     (let n = cc_ngram (ci_cfg c);
          end = stream_end_for c (if 0 < start then start - 1 else 0)
      in if end \<le> start then draft_sites c tail k sites
         else if drop (length tail - n) tail \<noteq> take n (drop (start - n) (ci_log c))
         then draft_sites c tail k sites
         else take (min (end - start) k) (drop start (ci_log c)))"

definition draft :: "CorpusIndex \<Rightarrow> tokens \<Rightarrow> int \<Rightarrow> tokens" where
  "draft c tail k =
     (let n = cc_ngram (ci_cfg c)
      in if k \<le> 0 \<or> length tail < n then []
         else (case map_of (ci_index c) (ngram_key (drop (length tail - n) tail)) of
                 None \<Rightarrow> []
               | Some sites \<Rightarrow> draft_sites c tail (nat k) (rev sites)))"

section \<open>Persistence\<close>

fun read_tokens :: "nat \<Rightarrow> bytes \<Rightarrow> tokens" where
  "read_tokens 0 bs = []"
| "read_tokens (Suc n) bs = read_le (take 4 bs) # read_tokens n (drop 4 bs)"

text \<open>The frames \<open>load\<close> accepts before it stops.\<close>

function load_frames :: "bytes \<Rightarrow> tokens list" where
  "load_frames bs =
     (if length bs < 4 then []
      else let len = unat (read_le (take 4 bs) :: u32); rest = drop 4 bs
           in if len = 0 \<or> 2 ^ 26 < len then []
              else if length rest < len * 4 then []
              else read_tokens len rest # load_frames (drop (len * 4) rest))"
  by pat_completeness auto
termination
  by (relation "measure length") auto

declare load_frames.simps [simp del]

definition CorpusIndex_empty :: "corpus_config \<Rightarrow> bytes option \<Rightarrow> CorpusIndex" where
  "CorpusIndex_empty cfg file =
     \<lparr>ci_cfg = cfg, ci_log = [], ci_stream_ends = [], ci_flushed = 0, ci_index = [], ci_file = file\<rparr>"

definition CorpusIndex_open :: "corpus_config \<Rightarrow> bytes option \<Rightarrow> CorpusIndex" where
  "CorpusIndex_open cfg file =
     (case file of
        None \<Rightarrow> CorpusIndex_empty cfg None
      | Some bs \<Rightarrow>
          let c = foldl add_stream (CorpusIndex_empty cfg file) (load_frames bs);
              c1 = c\<lparr>ci_flushed := length (ci_stream_ends c)\<rparr>
          in if max_tokens cfg < length (ci_log c1) then evict_oldest c1 else c1)"

definition flush :: "CorpusIndex \<Rightarrow> CorpusIndex" where
  "flush c =
     (if length (ci_stream_ends c) \<le> ci_flushed c then c
      else let bgn = (if ci_flushed c = 0 then 0 else ci_stream_ends c ! (ci_flushed c - 1))
           in c\<lparr>ci_file := Some ((case ci_file c of None \<Rightarrow> [] | Some bs \<Rightarrow> bs) @
                   frames_from (ci_log c) bgn (drop (ci_flushed c) (ci_stream_ends c))),
                ci_flushed := length (ci_stream_ends c)\<rparr>)"

definition key_count :: "CorpusIndex \<Rightarrow> nat" where
  "key_count c = length (ci_index c)"

definition log_size :: "CorpusIndex \<Rightarrow> nat" where
  "log_size c = length (ci_log c)"

section \<open>The abstract state: the list of observed streams\<close>

fun ends_of :: "nat \<Rightarrow> tokens list \<Rightarrow> nat list" where
  "ends_of b [] = []"
| "ends_of b (s # ss) = (b + length s) # ends_of (b + length s) ss"

text \<open>\<open>represents c ss\<close>: the log, its boundaries, the index and the file are those of the streams.\<close>

definition represents :: "CorpusIndex \<Rightarrow> tokens list \<Rightarrow> bool" where
  "represents c ss \<longleftrightarrow>
     ci_log c = concat ss \<and> ci_stream_ends c = ends_of 0 ss \<and> [] \<notin> set ss \<and>
     ci_flushed c \<le> length ss \<and>
     (case ci_file c of None \<Rightarrow> [] | Some bs \<Rightarrow> bs) = concat (map frame (take (ci_flushed c) ss)) \<and>
     ci_index c = rebuild_from (ci_cfg c) (ci_log c) [] 0 (ci_stream_ends c)"


text \<open>What eviction means for the streams: the oldest go until the rest fits.\<close>

fun fit :: "nat \<Rightarrow> tokens list \<Rightarrow> tokens list" where
  "fit budget [] = []"
| "fit budget (s # ss) = (if budget < length (concat (s # ss)) then fit budget ss else s # ss)"

definition observe_spec :: "nat \<Rightarrow> tokens list \<Rightarrow> tokens \<Rightarrow> tokens list" where
  "observe_spec budget ss ts = (if ts = [] then ss else fit budget (ss @ [ts]))"

lemma fit_eq: "length (concat ss) \<le> budget \<Longrightarrow> fit budget ss = ss"
  by (cases ss) auto

lemma fit_bound: "length (concat (fit budget ss)) \<le> budget"
  by (induction ss) auto

lemma fit_suffix: "\<exists>pre. ss = pre @ fit budget ss"
proof (induction ss)
  case (Cons s ss)
  then obtain pre where "ss = pre @ fit budget ss" by blast
  then have "s # ss = (s # pre) @ fit budget ss" by simp
  then have *: "\<exists>pre. s # ss = pre @ fit budget ss" by (rule exI)
  show ?case
  proof (cases "budget < length (concat (s # ss))")
    case True
    with * show ?thesis by simp
  next
    case False
    then show ?thesis by simp
  qed
qed simp

lemma fit_nonempty: "[] \<notin> set ss \<Longrightarrow> [] \<notin> set (fit budget ss)"
  using fit_suffix [of ss budget] by (metis UnCI set_append)

lemma length_ends_of [simp]: "length (ends_of b ss) = length ss"
  by (induction ss arbitrary: b) auto

lemma ends_of_append: "ends_of b (ss @ ts) = ends_of b ss @ ends_of (b + length (concat ss)) ts"
  by (induction ss arbitrary: b) (auto simp: add.assoc)

lemma ends_of_bound: "e \<in> set (ends_of b ss) \<Longrightarrow> b \<le> e \<and> e \<le> b + length (concat ss)"
  by (induction ss arbitrary: b) fastforce+

lemma ends_of_shift: "map (\<lambda>e. e - d) (ends_of (d + b) ss) = ends_of b ss"
  by (induction ss arbitrary: b) (auto simp: add.assoc)

lemma nth_ends_of: "i < length ss \<Longrightarrow> ends_of b ss ! i = b + length (concat (take (Suc i) ss))"
proof (induction ss arbitrary: b i)
  case (Cons s ss)
  then show ?case by (cases i) (auto simp: add.assoc)
qed simp

lemma drop_ends_of: "drop i (ends_of b ss) = ends_of (b + length (concat (take i ss))) (drop i ss)"
proof (induction ss arbitrary: b i)
  case (Cons s ss)
  then show ?case by (cases i) (auto simp: add.assoc)
qed simp

lemma frames_from_ends:
  "frames_from (concat (pre @ ss)) (length (concat pre)) (ends_of (length (concat pre)) ss)
     = concat (map frame ss)"
proof (induction ss arbitrary: pre)
  case (Cons s ss)
  from Cons [of "pre @ [s]"] show ?case by simp
qed simp

lemma drop_scan_fit:
  "length (concat ss) = sz - d \<Longrightarrow> d \<le> sz \<Longrightarrow>
   drop_scan budget sz (ends_of d ss) k d =
     (k + (length ss - length (fit budget ss)), sz - length (concat (fit budget ss)))"
proof (induction ss arbitrary: d k)
  case (Cons s ss)
  have szs: "length (concat ss) = sz - (d + length s)" "d + length s \<le> sz"
    using Cons.prems by auto
  have le: "length (fit budget ss) \<le> length ss"
    using fit_suffix [of ss budget] by (metis le_add2 length_append)
  show ?case using Cons.IH [OF szs, of "Suc k"] Cons.prems le by auto
qed auto

section \<open>The operations refine the abstract state\<close>

lemma index_site_cong:
  "i + cc_ngram cfg \<le> length log \<Longrightarrow> index_site cfg (log @ ts) idx i = index_site cfg log idx i"
  by (simp add: index_site_def)

lemma index_stream_cong:
  "e \<le> length log \<Longrightarrow> index_stream cfg (log @ ts) idx b e = index_stream cfg log idx b e"
  unfolding index_stream_def by (auto intro!: foldl_cong index_site_cong)

lemma rebuild_from_cong:
  "\<forall>e\<in>set es. e \<le> length log \<Longrightarrow> rebuild_from cfg (log @ ts) idx b es = rebuild_from cfg log idx b es"
  by (induction es arbitrary: idx b) (auto simp: index_stream_cong)

lemma rebuild_from_snoc:
  "rebuild_from cfg log idx (length (concat pre)) (ends_of (length (concat pre)) ss @ [e]) =
   index_stream cfg log (rebuild_from cfg log idx (length (concat pre)) (ends_of (length (concat pre)) ss))
     (length (concat (pre @ ss))) e"
proof (induction ss arbitrary: idx pre)
  case (Cons s ss)
  from Cons [of _ "pre @ [s]"] show ?case by simp
qed simp

lemma represents_ends: "represents c ss \<Longrightarrow> ci_stream_ends c = ends_of 0 ss"
  and represents_log: "represents c ss \<Longrightarrow> ci_log c = concat ss"
  and represents_index:
    "represents c ss \<Longrightarrow> ci_index c = rebuild_from (ci_cfg c) (concat ss) [] 0 (ends_of 0 ss)"
  by (simp_all add: represents_def)

lemma add_stream_cfg [simp]: "ci_cfg (add_stream c ts) = ci_cfg c"
  by (simp add: add_stream_def Let_def)

lemma add_stream_represents:
  assumes "represents c ss" and "ts \<noteq> []"
  shows "represents (add_stream c ts) (ss @ [ts])"
proof -
  have "rebuild_from (ci_cfg c) (concat ss @ ts) [] 0 (ends_of 0 ss)
      = rebuild_from (ci_cfg c) (concat ss) [] 0 (ends_of 0 ss)"
    by (rule rebuild_from_cong) (auto dest: ends_of_bound)
  with assms rebuild_from_snoc [of "ci_cfg c" "concat ss @ ts" "[]" "[]" ss "length (concat ss @ ts)"]
  show ?thesis by (simp add: represents_def add_stream_def Let_def ends_of_append)
qed

lemma evict_oldest_cfg [simp]: "ci_cfg (evict_oldest c) = ci_cfg c"
  by (simp add: evict_oldest_def rewrite_file_def rebuild_index_def split_def Let_def)

lemma evict_oldest_represents:
  assumes "ci_log c = concat ss" and "ci_stream_ends c = ends_of 0 ss" and "[] \<notin> set ss"
  shows "represents (evict_oldest c) (fit (max_tokens (ci_cfg c)) ss)"
proof -
  let ?f = "fit (max_tokens (ci_cfg c)) ss"
  obtain pre where pre: "ss = pre @ ?f" using fit_suffix by blast
  have len: "length ss - length ?f = length pre"
    and sz: "length (concat ss) - length (concat ?f) = length (concat pre)"
    using pre by (metis add_diff_cancel_right' length_append)
      (metis pre add_diff_cancel_right' concat_append length_append)
  have len2: "length ss - length pre = length ?f"
    using pre by (metis add_diff_cancel_left' length_append)
  have scan: "drop_scan (max_tokens (ci_cfg c)) (length (concat ss)) (ends_of 0 ss) 0 0
      = (length pre, length (concat pre))"
    using drop_scan_fit [of ss "length (concat ss)" 0 "max_tokens (ci_cfg c)" 0] len sz by simp
  have log: "drop (length (concat pre)) (concat ss) = concat ?f"
    using pre by (metis append_eq_conv_conj concat_append)
  have "drop (length pre) (ends_of 0 ss) = ends_of (length (concat pre)) ?f"
    using pre by (metis add_0 append_eq_conv_conj drop_ends_of)
  then have ends: "map (\<lambda>e. e - length (concat pre)) (drop (length pre) (ends_of 0 ss)) = ends_of 0 ?f"
    using ends_of_shift [of "length (concat pre)" 0 ?f] by simp
  show ?thesis
    unfolding represents_def evict_oldest_def assms(1,2) scan
    using fit_nonempty [OF assms(3)] frames_from_ends [of "[]" ?f] len2
    by (simp add: rewrite_file_def rebuild_index_def log ends)
qed


lemma fit_observed: "represents c ss \<Longrightarrow> length (ci_log c) \<le> b \<Longrightarrow> fit b ss = ss"
  by (simp add: fit_eq represents_log)

lemma observe_represents:
  assumes "represents c ss"
  shows "represents (observe c ts) (observe_spec (max_tokens (ci_cfg c)) ss ts)"
proof (cases "ts = []")
  case True
  with assms show ?thesis by (simp add: observe_def observe_spec_def)
next
  case False
  note r = add_stream_represents [OF assms False]
  show ?thesis
  proof (cases "max_tokens (ci_cfg c) < length (ci_log (add_stream c ts))")
    case True
    have "represents (evict_oldest (add_stream c ts)) (fit (max_tokens (ci_cfg c)) (ss @ [ts]))"
      using evict_oldest_represents [OF represents_log [OF r] represents_ends [OF r]] r
      by (simp add: represents_def)
    with True False show ?thesis by (simp add: observe_def observe_spec_def)
  next
    case False
    with r fit_observed [OF r, of "max_tokens (ci_cfg c)"] \<open>ts \<noteq> []\<close> show ?thesis
      by (simp add: observe_def observe_spec_def Let_def)
  qed
qed

lemma flush_represents:
  assumes "represents c ss"
  shows "represents (flush c) ss" and "ci_flushed (flush c) = length ss"
    and "(case ci_file (flush c) of None \<Rightarrow> [] | Some bs \<Rightarrow> bs) = concat (map frame ss)"
proof -
  let ?m = "ci_flushed c"
  have m: "?m \<le> length ss" using assms by (simp add: represents_def)
  have bgn: "(if ?m = 0 then 0 else ci_stream_ends c ! (?m - 1)) = length (concat (take ?m ss))"
    using m assms by (auto simp: represents_def nth_ends_of)
  have app: "concat (map frame (take ?m ss)) @ frames_from (concat ss) (length (concat (take ?m ss)))
      (ends_of (length (concat (take ?m ss))) (drop ?m ss)) = concat (map frame ss)"
    using frames_from_ends [of "take ?m ss" "drop ?m ss"]
    by simp (metis append_take_drop_id concat_append map_append take_map drop_map)
  have *: "represents (flush c) ss \<and> ci_flushed (flush c) = length ss \<and>
      (case ci_file (flush c) of None \<Rightarrow> [] | Some bs \<Rightarrow> bs) = concat (map frame ss)"
  proof (cases "length ss \<le> ?m")
    case True
    with m assms show ?thesis by (simp add: flush_def represents_def)
  next
    case False
    with app bgn assms show ?thesis
      by (simp add: flush_def represents_def Let_def drop_ends_of)
  qed
  then show "represents (flush c) ss" and "ci_flushed (flush c) = length ss"
    and "(case ci_file (flush c) of None \<Rightarrow> [] | Some bs \<Rightarrow> bs) = concat (map frame ss)"
    by simp_all
qed

lemma flush_cfg [simp]: "ci_cfg (flush c) = ci_cfg c"
  by (simp add: flush_def Let_def)

section \<open>Reading frames back\<close>

lemma length_token_bytes [simp]: "length (token_bytes ts) = 4 * length ts"
  by (induction ts) (auto simp: token_bytes_def)

lemma token_bytes_Cons: "token_bytes (t # ts) = le_bytes 4 t @ token_bytes ts"
  by (simp add: token_bytes_def)

lemma read_tokens_token_bytes: "read_tokens (length ts) (token_bytes ts @ rest) = ts"
  by (induction ts) (simp_all add: token_bytes_Cons token_bytes_def)

text \<open>Streams that \<open>load\<close> reads back whole: not empty and at most \<open>2 ^ 26\<close> tokens.\<close>

definition loadable :: "tokens \<Rightarrow> bool" where
  "loadable ts \<longleftrightarrow> ts \<noteq> [] \<and> length ts \<le> 2 ^ 26"

lemma loadable_len:
  assumes "loadable ts"
  shows "unat (word_of_nat (length ts) :: u32) = length ts"
proof -
  have "length ts < 2 ^ 32" using assms by (simp add: loadable_def)
  then show ?thesis by (simp add: unat_of_nat)
qed

lemma frame_loadable:
  "loadable ts \<Longrightarrow> frame ts = le_bytes 4 (word_of_nat (length ts) :: u32) @ token_bytes ts"
  by (simp add: frame_def loadable_len)

lemma load_frames_frame:
  assumes "loadable ts"
  shows "load_frames (frame ts @ rest) = ts # load_frames rest"
proof -
  have "load_frames (le_bytes 4 (word_of_nat (length ts) :: u32) @ token_bytes ts @ rest)
      = ts # load_frames rest"
    using assms loadable_len [OF assms] read_tokens_token_bytes [of ts rest]
    by (simp add: load_frames.simps [of "le_bytes 4 _ @ _"] loadable_def)
  with assms show ?thesis by (simp add: frame_loadable)
qed

lemma load_frames_Nil [simp]: "load_frames [] = []"
  by (simp add: load_frames.simps)

lemma load_frames_concat: "list_all loadable ss \<Longrightarrow> load_frames (concat (map frame ss) @ rest) = ss @ load_frames rest"
  by (induction ss) (simp_all add: load_frames_frame)

lemma load_frames_torn:
  assumes "loadable ts" and "m < length (frame ts)"
  shows "load_frames (take m (frame ts)) = []"
proof (cases "m < 4")
  case True
  with assms show ?thesis by (simp add: load_frames.simps)
next
  case False
  then have "take m (frame ts)
      = le_bytes 4 (word_of_nat (length ts) :: u32) @ take (m - 4) (token_bytes ts)"
    using assms by (simp add: frame_loadable)
  moreover have "m - 4 < 4 * length ts" using assms False by (simp add: frame_loadable)
  ultimately show ?thesis
    using False loadable_len [OF assms(1)] by (subst load_frames.simps) (simp add: Let_def)
qed

lemma load_frames_prefix:
  "list_all loadable ss \<Longrightarrow>
     \<exists>j. load_frames (take m (concat (map frame ss))) = take j ss \<and>
         length (concat (map frame (take j ss))) \<le> m \<and>
         (j < length ss \<longrightarrow> m < length (concat (map frame (take (Suc j) ss))))"
proof (induction ss arbitrary: m)
  case Nil
  show ?case by (rule exI [of _ 0]) simp
next
  case (Cons s ss)
  show ?case
  proof (cases "m < length (frame s)")
    case True
    with Cons.prems load_frames_torn [of s m] show ?thesis
      by (intro exI [of _ 0]) simp
  next
    case False
    from Cons.IH [of "m - length (frame s)"] Cons.prems obtain j where
      "load_frames (take (m - length (frame s)) (concat (map frame ss))) = take j ss"
      "length (concat (map frame (take j ss))) \<le> m - length (frame s)"
      "j < length ss \<longrightarrow> m - length (frame s) < length (concat (map frame (take (Suc j) ss)))"
      by auto
    with False Cons.prems show ?thesis
      by (intro exI [of _ "Suc j"]) (auto simp: load_frames_frame)
  qed
qed

lemma foldl_add_stream_represents:
  "\<lbrakk>represents c ss; [] \<notin> set ts\<rbrakk> \<Longrightarrow> represents (foldl add_stream c ts) (ss @ ts)"
proof (induction ts arbitrary: c ss)
  case (Cons t ts)
  then have "represents (add_stream c t) (ss @ [t])" by (intro add_stream_represents) auto
  from Cons.IH [OF this] Cons.prems show ?case by simp
qed simp

lemma foldl_add_stream_fields [simp]:
  "ci_cfg (foldl add_stream c ts) = ci_cfg c" "ci_file (foldl add_stream c ts) = ci_file c"
  by (induction ts arbitrary: c) (simp_all add: add_stream_def Let_def)


lemma CorpusIndex_empty_represents [simp]: "represents (CorpusIndex_empty cfg None) []"
  "represents (CorpusIndex_empty cfg (Some [])) []"
  by (simp_all add: represents_def CorpusIndex_empty_def)

lemma loadable_nonempty: "list_all loadable ss \<Longrightarrow> [] \<notin> set ss"
  by (auto simp: list_all_iff loadable_def)

text \<open>Opening a file of whole frames gives the state of its streams, all of them flushed.\<close>

lemma open_fields:
  assumes "list_all loadable ss" and "length (concat ss) \<le> max_tokens cfg"
    and "load_frames bs = ss"
  shows "CorpusIndex_open cfg (Some bs) =
    \<lparr>ci_cfg = cfg, ci_log = concat ss, ci_stream_ends = ends_of 0 ss, ci_flushed = length ss,
     ci_index = rebuild_from cfg (concat ss) [] 0 (ends_of 0 ss), ci_file = Some bs\<rparr>"
proof -
  have one: "add_stream (c\<lparr>ci_file := f\<rparr>) t = (add_stream c t)\<lparr>ci_file := f\<rparr>" for c f t
    by (rule CorpusIndex.equality) (simp_all add: add_stream_def Let_def)
  have drop_file: "foldl add_stream (c\<lparr>ci_file := f\<rparr>) ts = (foldl add_stream c ts)\<lparr>ci_file := f\<rparr>"
    for c f ts by (induction ts arbitrary: c) (simp_all add: one)
  have e: "CorpusIndex_empty cfg (Some bs) = (CorpusIndex_empty cfg None)\<lparr>ci_file := Some bs\<rparr>"
    by (simp add: CorpusIndex_empty_def)
  have "represents (foldl add_stream (CorpusIndex_empty cfg None) ss) ([] @ ss)"
    using assms(1) by (intro foldl_add_stream_represents) (simp_all add: loadable_nonempty)
  then show ?thesis
    unfolding CorpusIndex_open_def e option.case assms(3) drop_file
    using assms(2) represents_index
    by (auto simp: represents_def Let_def CorpusIndex_empty_def intro!: CorpusIndex.equality)
qed

lemma represents_eqI:
  assumes "represents c ss" and "ci_flushed c = length ss"
  shows "c = \<lparr>ci_cfg = ci_cfg c, ci_log = concat ss, ci_stream_ends = ends_of 0 ss,
     ci_flushed = length ss, ci_index = rebuild_from (ci_cfg c) (concat ss) [] 0 (ends_of 0 ss),
     ci_file = ci_file c\<rparr>"
  using assms by (auto simp: represents_def intro!: CorpusIndex.equality)

section \<open>Where the index points\<close>

text \<open>A site lies inside one stream, at least an n-gram away from its start.\<close>

definition site_in :: "nat \<Rightarrow> tokens list \<Rightarrow> nat \<Rightarrow> bool" where
  "site_in n ss st \<longleftrightarrow>
     (\<exists>pre s post. ss = pre @ s # post \<and> length (concat pre) + n \<le> st \<and>
        st < length (concat pre) + length s)"

definition sites_ok :: "nat \<Rightarrow> tokens list \<Rightarrow> (u64 \<times> nat list) list \<Rightarrow> bool" where
  "sites_ok n ss index \<longleftrightarrow> (\<forall>k sites. map_of index k = Some sites \<longrightarrow> (\<forall>st\<in>set sites. site_in n ss st))"

lemma sites_okD: "sites_ok n ss index \<Longrightarrow> map_of index k = Some sites \<Longrightarrow> st \<in> set sites \<Longrightarrow> site_in n ss st"
  by (simp add: sites_ok_def)

lemma index_site_ok:
  assumes "sites_ok (cc_ngram cfg) ss index" and "site_in (cc_ngram cfg) ss ((i + cc_ngram cfg) mod 2 ^ 32)"
  shows "sites_ok (cc_ngram cfg) ss (index_site cfg log index i)"
  using assms
  by (auto simp: sites_ok_def index_site_def Let_def AList.update_conv' dest!: in_set_dropD
      split: option.splits if_splits)

lemma index_stream_ok:
  assumes "sites_ok (cc_ngram cfg) (pre @ s # post) index"
    and "length (concat (pre @ s # post)) < 2 ^ 32"
  shows "sites_ok (cc_ngram cfg) (pre @ s # post)
    (index_stream cfg log index (length (concat pre)) (length (concat pre) + length s))"
proof -
  let ?ss = "pre @ s # post" and ?n = "cc_ngram cfg" and ?b = "length (concat pre)"
  have site: "site_in ?n ?ss ((i + ?n) mod 2 ^ 32)" if "?b \<le> i" "i < ?b + length s - ?n" for i
  proof -
    have "(i + ?n) mod 2 ^ 32 = i + ?n" using that assms(2) by simp
    with that show ?thesis unfolding site_in_def by (intro exI [of _ pre] exI [of _ s] exI [of _ post]) auto
  qed
  have fold: "sites_ok ?n ?ss (foldl (index_site cfg log) index is)"
    if "\<forall>i\<in>set is. ?b \<le> i \<and> i < ?b + length s - ?n" for "is"
    using that assms(1)
  proof (induction "is" arbitrary: index)
    case (Cons i "is")
    then have "sites_ok ?n ?ss (index_site cfg log index i)"
      by (intro index_site_ok site) auto
    with Cons show ?case by simp
  qed simp
  from fold assms(1) show ?thesis by (auto simp: index_stream_def)
qed

lemma rebuild_from_ok:
  "\<lbrakk>sites_ok (cc_ngram cfg) (pre @ ss) index; length (concat (pre @ ss)) < 2 ^ 32\<rbrakk> \<Longrightarrow>
    sites_ok (cc_ngram cfg) (pre @ ss)
      (rebuild_from cfg log index (length (concat pre)) (ends_of (length (concat pre)) ss))"
proof (induction ss arbitrary: pre index)
  case (Cons s ss)
  from index_stream_ok [OF Cons.prems(1)] Cons.prems(2)
  have "sites_ok (cc_ngram cfg) ((pre @ [s]) @ ss)
      (index_stream cfg log index (length (concat pre)) (length (concat pre) + length s))" by simp
  from Cons.IH [OF this] Cons.prems(2) show ?case by simp
qed simp

lemma represents_sites:
  "represents c ss \<Longrightarrow> length (concat ss) < 2 ^ 32 \<Longrightarrow> sites_ok (cc_ngram (ci_cfg c)) ss (ci_index c)"
  using rebuild_from_ok [of "ci_cfg c" "[]" ss "[]"] by (simp add: represents_index sites_ok_def)

lemma find_ends_skip:
  "\<lbrakk>length (concat pre) + b \<le> off; off < b + length (concat pre) + length s\<rbrakk> \<Longrightarrow>
    find (\<lambda>e. off < e) (ends_of b (pre @ s # post)) = Some (b + length (concat pre) + length s)"
  by (induction pre arbitrary: b) (auto simp: add.assoc add.commute add.left_commute)

text \<open>The site of a stream, seen by the loop of \<open>draft\<close>.\<close>

lemma stream_end_for_site:
  assumes "represents c (pre @ s # post)" and "length (concat pre) + n \<le> st"
    and "st < length (concat pre) + length s" and "0 < n"
  shows "stream_end_for c (if 0 < st then st - 1 else 0) = length (concat pre) + length s"
  using assms find_ends_skip [of pre 0 "st - 1" s post]
  by (simp add: stream_end_for_def represents_ends)

lemma draft_sites_hit:
  assumes "stream_end_for c (if 0 < st then st - 1 else 0) = e" and "st < e"
    and "drop (length tail - cc_ngram (ci_cfg c)) tail
      = take (cc_ngram (ci_cfg c)) (drop (st - cc_ngram (ci_cfg c)) (ci_log c))"
  shows "draft_sites c tail k (st # sites) = take (min (e - st) k) (drop st (ci_log c))"
  using assms by (simp only: draft_sites.simps Let_def) simp

lemma draft_sites_sound:
  assumes r: "represents c ss" and n: "0 < cc_ngram (ci_cfg c)" "cc_ngram (ci_cfg c) \<le> length tail"
  shows "\<lbrakk>\<forall>st\<in>set sites. site_in (cc_ngram (ci_cfg c)) ss st; draft_sites c tail k sites = d; d \<noteq> []\<rbrakk> \<Longrightarrow>
    \<exists>p q. p @ drop (length tail - cc_ngram (ci_cfg c)) tail @ d @ q \<in> set ss \<and> length d \<le> k \<and>
      (length d < k \<longrightarrow> q = [])"
proof (induction sites)
  case (Cons st sites)
  let ?n = "cc_ngram (ci_cfg c)" and ?t = "drop (length tail - cc_ngram (ci_cfg c)) tail"
  from Cons.prems(1) obtain pre s post where ss: "ss = pre @ s # post"
    and st: "length (concat pre) + ?n \<le> st" "st < length (concat pre) + length s"
    by (auto simp: site_in_def)
  have e: "stream_end_for c (if 0 < st then st - 1 else 0) = length (concat pre) + length s"
    using stream_end_for_site [OF r [unfolded ss] st n(1)] .
  let ?o = "st - length (concat pre)"
  have log: "ci_log c = concat pre @ s @ concat post" using r ss by (simp add: represents_log)
  show ?case
  proof (cases "?t = take ?n (drop (st - ?n) (ci_log c))")
    case True
    have ng: "?t = take ?n (drop (?o - ?n) s)" using True st by (simp add: log add.commute)
    have "take (min (length (concat pre) + length s - st) k) (drop st (ci_log c)) = d"
      using Cons.prems(2) True st e by (simp add: Let_def)
    then have d: "d = take k (drop ?o s)" using st by (simp add: log min.commute take_take [symmetric] del: take_take)
    have "s = take (?o - ?n) s @ drop (?o - ?n) s" by simp
    also have "drop (?o - ?n) s = ?t @ drop ?o s"
    proof -
      have "drop (?o - ?n) s = take ?n (drop (?o - ?n) s) @ drop ?n (drop (?o - ?n) s)"
        by (rule append_take_drop_id [symmetric])
      then show ?thesis using ng st by simp
    qed
    also have "drop ?o s = d @ drop k (drop ?o s)"
      unfolding d by (rule append_take_drop_id [symmetric])
    finally have s: "s = take (?o - ?n) s @ ?t @ d @ drop k (drop ?o s)" .
    show ?thesis
    proof (intro exI conjI impI)
      show "take (?o - ?n) s @ ?t @ d @ drop k (drop ?o s) \<in> set ss" using s ss by simp
      show "length d \<le> k" by (simp add: d)
      show "drop k (drop ?o s) = []" if "length d < k" using that by (simp add: d)
    qed
  next
    case False
    with Cons st e show ?thesis by (simp add: Let_def)
  qed
qed simp


lemma draft_sound:
  assumes "represents c ss" and "0 < cc_ngram (ci_cfg c)" and "length (concat ss) < 2 ^ 32"
    and "draft c tail k = d" and "d \<noteq> []"
  shows "\<exists>p q. p @ drop (length tail - cc_ngram (ci_cfg c)) tail @ d @ q \<in> set ss \<and>
    int (length d) \<le> k \<and> (int (length d) < k \<longrightarrow> q = [])"
proof -
  let ?n = "cc_ngram (ci_cfg c)"
  from assms(4,5) obtain sites where k: "0 < k" and n: "?n \<le> length tail"
    and sites: "map_of (ci_index c) (ngram_key (drop (length tail - ?n) tail)) = Some sites"
    and d: "draft_sites c tail (nat k) (rev sites) = d"
    by (auto simp: draft_def Let_def split: if_splits option.splits)
  have "\<forall>st\<in>set (rev sites). site_in ?n ss st"
    using sites_okD [OF represents_sites [OF assms(1,3)] sites] by simp
  from draft_sites_sound [OF assms(1,2) n this d assms(5)] k show ?thesis by fastforce
qed

lemma foldl_index_last:
  assumes "0 < cc_max_sites cfg"
  shows "\<exists>sites. map_of (foldl (index_site cfg log) index (is @ [i])) (ngram_key (take (cc_ngram cfg) (drop i log)))
    = Some (sites @ [(i + cc_ngram cfg) mod 2 ^ 32])"
proof -
  have snoc: "\<exists>ys. drop (length (xs @ [x]) - m) (xs @ [x]) = ys @ [x]" if "0 < m" for xs :: "nat list" and x m
    using that by (intro exI [of _ "drop (length (xs @ [x]) - m) xs"]) auto
  let ?index = "foldl (index_site cfg log) index is"
  let ?k = "ngram_key (take (cc_ngram cfg) (drop i log))"
  from snoc [OF assms, of "case map_of ?index ?k of None \<Rightarrow> [] | Some s \<Rightarrow> s"] show ?thesis
    by (simp add: index_site_def Let_def AList.update_conv')
qed

lemma open_flush:
  assumes "represents c ss" and "list_all loadable ss" and "length (concat ss) \<le> max_tokens (ci_cfg c)"
  shows "CorpusIndex_open (ci_cfg c) (ci_file (flush c)) = flush c"
proof (cases "ci_file (flush c)")
  case None
  then have "ss = []"
    using flush_represents(3) [OF assms(1)] assms(2) by (cases ss) (auto simp: frame_def Let_def le_bytes_Suc numeral_eq_Suc)
  then show ?thesis
    using None represents_eqI [OF flush_represents(1,2) [OF assms(1)]]
    by (simp add: CorpusIndex_open_def CorpusIndex_empty_def)
next
  case (Some bs)
  then have "load_frames bs = ss"
    using flush_represents(3) [OF assms(1)] load_frames_concat [OF assms(2), of "[]"] by simp
  with open_fields [OF assms(2,3)] Some represents_eqI [OF flush_represents(1,2) [OF assms(1)]]
  show ?thesis by simp
qed

section \<open>Sequences of operations\<close>

text \<open>\<open>Restart\<close> is the destructor, which flushes, followed by the constructor on the same directory.\<close>

datatype corpus_op = Observe tokens | Flush | Restart

fun corpus_step :: "CorpusIndex \<Rightarrow> corpus_op \<Rightarrow> CorpusIndex" where
  "corpus_step c (Observe ts) = observe c ts"
| "corpus_step c Flush = flush c"
| "corpus_step c Restart = CorpusIndex_open (ci_cfg c) (ci_file (flush c))"

fun spec_step :: "nat \<Rightarrow> tokens list \<Rightarrow> corpus_op \<Rightarrow> tokens list" where
  "spec_step budget ss (Observe ts) = observe_spec budget ss ts"
| "spec_step budget ss Flush = ss"
| "spec_step budget ss Restart = ss"

fun corpus_op_ok :: "corpus_op \<Rightarrow> bool" where
  "corpus_op_ok (Observe ts) \<longleftrightarrow> length ts \<le> 2 ^ 26"
| "corpus_op_ok _ \<longleftrightarrow> True"

definition corpus_inv :: "corpus_config \<Rightarrow> CorpusIndex \<Rightarrow> tokens list \<Rightarrow> bool" where
  "corpus_inv cfg c ss \<longleftrightarrow>
     ci_cfg c = cfg \<and> represents c ss \<and> list_all loadable ss \<and> length (concat ss) \<le> max_tokens cfg"

lemma observe_cfg [simp]: "ci_cfg (observe c ts) = ci_cfg c"
  by (simp add: observe_def Let_def)

lemma loadable_fit: "list_all loadable ss \<Longrightarrow> list_all loadable (fit b ss)"
  using fit_suffix [of ss b] by (metis list_all_append)

lemma corpus_step_inv [reame_inv]:
  assumes "corpus_inv cfg c ss" and "corpus_op_ok a"
  shows "corpus_inv cfg (corpus_step c a) (spec_step (max_tokens cfg) ss a)"
proof (cases a)
  case (Observe ts)
  have "list_all loadable (observe_spec (max_tokens cfg) ss ts)"
    using assms Observe by (auto simp: corpus_inv_def observe_spec_def loadable_def intro!: loadable_fit)
  moreover have "length (concat (observe_spec (max_tokens cfg) ss ts)) \<le> max_tokens cfg"
    using assms(1) fit_bound by (simp add: observe_spec_def corpus_inv_def)
  ultimately show ?thesis using Observe assms(1) observe_represents by (auto simp: corpus_inv_def)
next
  case Flush
  with assms(1) flush_represents(1) show ?thesis by (simp add: corpus_inv_def)
next
  case Restart
  with assms(1) flush_represents(1) open_flush show ?thesis by (auto simp: corpus_inv_def)
qed

lemma corpus_run_inv:
  "\<lbrakk>corpus_inv cfg c ss; list_all corpus_op_ok ops\<rbrakk> \<Longrightarrow>
    corpus_inv cfg (foldl corpus_step c ops) (foldl (spec_step (max_tokens cfg)) ss ops)"
  by (induction ops arbitrary: c ss) (auto intro: reame_inv)

text \<open>A small memory for the examples: bigrams, 16 tokens, one observed stream.\<close>

definition demo_cfg :: corpus_config where
  "demo_cfg = \<lparr>cc_ngram = 2, cc_max_log_bytes = 64, cc_max_sites = 8\<rparr>"

definition demo_corpus :: CorpusIndex where
  "demo_corpus = observe (CorpusIndex_empty demo_cfg None) [1, 2, 3]"

lemma demo_represents: "represents demo_corpus [[1, 2, 3]]"
  using observe_represents [OF CorpusIndex_empty_represents(1), of demo_cfg "[1, 2, 3]"]
  by (simp add: demo_corpus_def observe_spec_def) (simp add: CorpusIndex_empty_def demo_cfg_def max_tokens_def)

lemma demo_cfg_simps: "ci_cfg demo_corpus = demo_cfg" "cc_ngram demo_cfg = 2" "cc_max_sites demo_cfg = 8"
    "max_tokens demo_cfg = 16"
  by (simp_all add: demo_corpus_def demo_cfg_def max_tokens_def) (simp add: CorpusIndex_empty_def)

section \<open>Properties\<close>

text \<open>
  C16. The generation memory refines the list of observed streams. After any sequence of feeding
  a stream, flushing and restarting, the log, the stream boundaries, the n-gram index and the
  file are those of the abstract list, from which feeding a stream drops exactly the oldest
  streams that do not fit, and the log is within its byte budget.
\<close>

theorem corpus_refines_streams:
  assumes "list_all corpus_op_ok ops"
  shows "represents (foldl corpus_step (CorpusIndex_empty cfg None) ops)
      (foldl (spec_step (max_tokens cfg)) [] ops) \<and>
    log_size (foldl corpus_step (CorpusIndex_empty cfg None) ops) \<le> max_tokens cfg"
proof -
  have "corpus_inv cfg (CorpusIndex_empty cfg None) []"
    by (simp add: corpus_inv_def) (simp add: CorpusIndex_empty_def)
  from corpus_run_inv [OF this assms] show ?thesis
    by (auto simp: corpus_inv_def log_size_def dest: represents_log)
qed

theorem corpus_refines_streams_witness:
  "let cfg = \<lparr>cc_ngram = 2, cc_max_log_bytes = 28, cc_max_sites = 8\<rparr>;
       ops = [Observe [1, 2, 3], Flush, Observe [4, 5, 6], Restart, Observe [7, 8]]
   in represents (foldl corpus_step (CorpusIndex_empty cfg None) ops)
        (foldl (spec_step (max_tokens cfg)) [] ops) \<and>
      log_size (foldl corpus_step (CorpusIndex_empty cfg None) ops) \<le> max_tokens cfg \<and>
      foldl (spec_step (max_tokens cfg)) [] ops = [[4, 5, 6], [7, 8]]"
  using corpus_refines_streams [of "[Observe [1, 2, 3], Flush, Observe [4, 5, 6], Restart, Observe [7, 8]]"
      "\<lparr>cc_ngram = 2, cc_max_log_bytes = 28, cc_max_sites = 8\<rparr>"]
  by (simp add: observe_spec_def max_tokens_def)

text \<open>
  C24. A draft is history: the tokens \<open>draft\<close> returns followed the last n-gram of the tail inside
  one observed stream, there are at most \<open>k\<close> of them, and fewer than \<open>k\<close> only when that stream
  ended there. Hash collisions and stream boundaries are never drafted across.
\<close>

theorem draft_is_history:
  assumes "represents c ss" and "0 < cc_ngram (ci_cfg c)" and "length (concat ss) < 2 ^ 32"
    and "draft c tail k = d" and "d \<noteq> []"
  shows "\<exists>p q. p @ drop (length tail - cc_ngram (ci_cfg c)) tail @ d @ q \<in> set ss \<and>
    int (length d) \<le> k \<and> (int (length d) < k \<longrightarrow> q = [])"
  using assms by (rule draft_sound)

theorem draft_is_history_witness:
  "draft demo_corpus [9, 1, 2] 5 = [3] \<and>
   (\<exists>p q. p @ drop 1 [9, 1, 2] @ [3] @ q \<in> set [[1, 2, 3]] \<and>
     int (length [3 :: TokenId]) \<le> 5 \<and> (int (length [3 :: TokenId]) < 5 \<longrightarrow> q = []))"
proof -
  have d: "draft demo_corpus [9, 1, 2] 5 = [3]"
    by (simp add: demo_corpus_def demo_cfg_def observe_def add_stream_def CorpusIndex_empty_def max_tokens_def
        index_stream_def index_site_def draft_def stream_end_for_def Let_def)
  from draft_is_history [OF demo_represents _ _ d] d show ?thesis by (simp add: demo_cfg_simps)
qed

text \<open>
  A stream that was just observed is predicted: after feeding a stream that fits the budget,
  drafting from it without its last token gives that token.
\<close>

theorem observed_stream_is_drafted:
  assumes "represents c ss" and "0 < cc_ngram (ci_cfg c)" and "0 < cc_max_sites (ci_cfg c)"
    and "cc_ngram (ci_cfg c) < length ts" and "length (concat ss) + length ts \<le> max_tokens (ci_cfg c)"
    and "length (concat ss) + length ts < 2 ^ 32" and "0 < k"
  shows "draft (observe c ts) (butlast ts) k = [last ts]"
proof -
  let ?n = "cc_ngram (ci_cfg c)" and ?c = "add_stream c ts" and ?b = "length (concat ss)"
  let ?i = "?b + length ts - ?n - 1"
  let ?t = "drop (length (butlast ts) - ?n) (butlast ts)"
  have ts: "ts \<noteq> []" using assms(4) by auto
  have obs: "observe c ts = ?c"
    using assms(1,5) ts by (simp add: observe_def add_stream_def Let_def represents_log)
  note r = add_stream_represents [OF assms(1) ts]
  have log: "ci_log ?c = concat ss @ ts" using represents_log [OF r] by simp
  have ng: "take ?n (drop ?i (concat ss @ ts)) = ?t"
    using assms(4) by (simp add: butlast_conv_take take_drop)
  have rng: "[?b..<?b + length ts - ?n] = [?b..<?i] @ [?i]"
  proof -
    have "?b + length ts - ?n = Suc ?i" and "?b \<le> ?i" using assms(4) by simp_all
    then show ?thesis by (metis upt_Suc_append)
  qed
  have "ci_index ?c = foldl (index_site (ci_cfg c) (concat ss @ ts)) (ci_index c) ([?b..<?i] @ [?i])"
    using assms(1,4) rng by (simp add: add_stream_def Let_def represents_log index_stream_def)
  with foldl_index_last [OF assms(3), of "concat ss @ ts" "ci_index c" "[?b..<?i]" ?i] ng
  obtain sites where sites: "map_of (ci_index ?c) (ngram_key ?t) = Some (sites @ [(?i + ?n) mod 2 ^ 32])"
    by auto
  have st: "(?i + ?n) mod 2 ^ 32 = ?b + length ts - 1" using assms(4,6) by simp
  let ?st = "?b + length ts - 1"
  have e: "stream_end_for ?c (if 0 < ?st then ?st - 1 else 0) = ?b + length ts"
    using stream_end_for_site [OF r, of ?n ?st] assms(2,4) by simp
  have "?t = take ?n (drop (?st - ?n) (ci_log ?c))"
    using ng by (simp add: log diff_commute)
  moreover have "take (min (?b + length ts - ?st) (nat k)) (drop ?st (ci_log ?c)) = [last ts]"
    unfolding log using ts assms(7) by (cases ts rule: rev_cases) auto
  moreover have "?st < ?b + length ts" using ts by simp
  ultimately have "draft_sites ?c (butlast ts) (nat k) (?st # rev sites) = [last ts]"
    using draft_sites_hit [OF e, of "butlast ts"] by simp
  then show ?thesis
    unfolding obs draft_def using sites st assms(4,7) by (simp add: Let_def)
qed

theorem observed_stream_is_drafted_witness:
  "draft (observe demo_corpus [2, 3, 7]) (butlast [2, 3, 7]) 4 = [last [2, 3, 7]]"
  by (rule observed_stream_is_drafted [OF demo_represents]) (simp_all add: demo_cfg_simps)

text \<open>
  Restarting loses nothing that was flushed: reopening the log file that \<open>flush\<close> (also run by
  the destructor) leaves gives back exactly the same index, when no stream is longer than the
  \<open>2 ^ 26\<close> tokens \<open>load\<close> accepts and the log is within its budget.
\<close>

theorem flush_open_roundtrip:
  assumes "represents c ss" and "list_all loadable ss" and "length (concat ss) \<le> max_tokens (ci_cfg c)"
  shows "CorpusIndex_open (ci_cfg c) (ci_file (flush c)) = flush c"
  using assms by (rule open_flush)

theorem flush_open_roundtrip_witness:
  "CorpusIndex_open (ci_cfg demo_corpus) (ci_file (flush demo_corpus)) = flush demo_corpus \<and>
   ci_log (flush demo_corpus) = [1, 2, 3]"
  using flush_open_roundtrip [OF demo_represents] represents_log [OF flush_represents(1) [OF demo_represents]]
  by (simp add: demo_cfg_simps loadable_def)

text \<open>
  A log file cut short by a crash loads as the whole streams before the cut: no stream is
  invented or changed, and only the one being written and those after it are lost.
\<close>

theorem torn_log_loads_prefix:
  assumes "list_all loadable ss" and "length (concat ss) \<le> max_tokens cfg"
  shows "\<exists>j. ci_log (CorpusIndex_open cfg (Some (take m (concat (map frame ss))))) = concat (take j ss) \<and>
    length (concat (map frame (take j ss))) \<le> m \<and>
    (j < length ss \<longrightarrow> m < length (concat (map frame (take (Suc j) ss))))"
proof -
  from load_frames_prefix [OF assms(1), of m] obtain j where
    j: "load_frames (take m (concat (map frame ss))) = take j ss"
    "length (concat (map frame (take j ss))) \<le> m"
    "j < length ss \<longrightarrow> m < length (concat (map frame (take (Suc j) ss)))" by blast
  have "list_all loadable (take j ss)" using assms(1) by (auto simp: list_all_iff dest: in_set_takeD)
  moreover have "length (concat (take j ss)) \<le> max_tokens cfg"
  proof -
    have "length (concat ss) = length (concat (take j ss)) + length (concat (drop j ss))"
      by (metis append_take_drop_id concat_append length_append)
    with assms(2) show ?thesis by simp
  qed
  ultimately show ?thesis using open_fields [OF _ _ j(1)] j by auto
qed

theorem torn_log_loads_prefix_witness:
  "\<exists>j. ci_log (CorpusIndex_open demo_cfg (Some (take 20 (concat (map frame [[1, 2, 3], [4, 5]]))))) =
      concat (take j [[1, 2, 3], [4, 5]]) \<and>
    length (concat (map frame (take j [[1, 2, 3], [4, 5]]))) \<le> 20 \<and>
    (j < length [[1, 2, 3], [4, 5 :: TokenId]] \<longrightarrow>
      20 < length (concat (map frame (take (Suc j) [[1, 2, 3], [4, 5]]))))"
  by (rule torn_log_loads_prefix) (simp_all add: demo_cfg_simps loadable_def)

text \<open>
  A torn frame outlives the crash: \<open>load\<close> leaves the incomplete frame in the file and a later
  flush appends after it, so streams that were flushed after the crash are not what the next
  start reads. Here a two-token stream torn after its length swallows the stream \<open>[7, 8]\<close>
  flushed later: the next start reads one invented stream, made of the frame header and of the
  first token.
\<close>

theorem torn_frame_corrupts_later_flush:
  "let c = CorpusIndex_open demo_cfg (Some (take 4 (frame [1, 2])));
       c' = flush (observe c [7, 8])
   in ci_log c = [] \<and> ci_log c' = [7, 8] \<and>
      ci_log (CorpusIndex_open demo_cfg (ci_file c')) = [2, 7]"
proof -
  let ?c = "CorpusIndex_open demo_cfg (Some (take 4 (frame [1, 2])))"
  let ?c' = "flush (observe ?c [7, 8])"
  have ok: "loadable [1, 2]" "loadable [2, 7]" by (simp_all add: loadable_def)
  have "load_frames (take 4 (frame [1, 2])) = []"
    using load_frames_torn [OF ok(1), of 4] by (simp add: frame_loadable ok)
  from open_fields [OF _ _ this]
  have c: "?c = (CorpusIndex_empty demo_cfg None)\<lparr>ci_file := Some (take 4 (frame [1, 2]))\<rparr>"
    by (simp add: CorpusIndex_empty_def)
  have c': "ci_log ?c' = [7, 8]"
    "ci_file ?c' = Some (take 4 (frame [1, 2]) @ frame [7, 8])"
    unfolding c by (simp_all add: observe_def add_stream_def CorpusIndex_empty_def flush_def Let_def demo_cfg_simps)
  have "take 4 (frame [1, 2]) @ frame [7, 8] = frame [2, 7] @ le_bytes 4 (8 :: TokenId)"
    by (simp add: frame_def token_bytes_def)
  moreover have "load_frames (le_bytes 4 (8 :: TokenId)) = []"
    by (subst load_frames.simps) simp
  ultimately have "load_frames (take 4 (frame [1, 2]) @ frame [7, 8]) = [[2, 7]]"
    by (simp add: load_frames_frame ok)
  from open_fields [OF _ _ this] c'(2)
  have "ci_log (CorpusIndex_open demo_cfg (ci_file ?c')) = [2, 7]"
    by (simp add: demo_cfg_simps ok)
  with c'(1) show ?thesis by (simp add: c Let_def CorpusIndex_empty_def)
qed

end
