(* ===== verification/Speculative.thy ===== *)
theory Speculative
  imports Sampling Corpus_Index
begin

text \<open>
  Speculative decoding (\<open>src/src/speculative/\<close>): prompt lookup, structural drafts, the draft
  model rollout, the batched verifier and the decoder that combines them. The tokens handed to
  the callback are the output; the callback is a function of the tokens delivered so far.
  Times are not modelled.

  The main results: a lookup draft is a continuation seen in the history, and with greedy
  sampling the decoder delivers exactly the tokens of plain sequential decoding, whatever is
  drafted.
\<close>

section \<open>Prompt lookup\<close>

record lookup_config =
  lk_max_ngram :: int
  lk_min_ngram :: int

text \<open>The inner loop: starts from \<open>start - 1\<close> down to 0.\<close>

fun lookup_at :: "tokens \<Rightarrow> nat \<Rightarrow> nat \<Rightarrow> nat \<Rightarrow> tokens option" where
  "lookup_at history un n_draft 0 = None"
| "lookup_at history un n_draft (Suc start) =
     (if take un (drop start history) \<noteq> drop (length history - un) history
      then lookup_at history un n_draft start
      else Some (take (min (length history - (start + un)) n_draft) (drop (start + un) history)))"

text \<open>The outer loop over n-gram lengths, from \<open>n\<close> down to \<open>min_n\<close>.\<close>

fun lookup_ngram :: "tokens \<Rightarrow> nat \<Rightarrow> nat \<Rightarrow> nat \<Rightarrow> tokens" where
  "lookup_ngram history n_draft min_n 0 = []"
| "lookup_ngram history n_draft min_n (Suc n) =
     (if Suc n < min_n then []
      else if length history < Suc n + 1 then lookup_ngram history n_draft min_n n
      else (case lookup_at history (Suc n) n_draft (length history - Suc n) of
              None \<Rightarrow> lookup_ngram history n_draft min_n n
            | Some d \<Rightarrow> d))"

definition find_draft :: "lookup_config \<Rightarrow> tokens \<Rightarrow> int \<Rightarrow> tokens" where
  "find_draft cfg history n_draft =
     (if n_draft \<le> 0 then []
      else let max_n = max (lk_max_ngram cfg) 1;
               min_n = (if lk_min_ngram cfg < 1 then 1 else if max_n < lk_min_ngram cfg then max_n else lk_min_ngram cfg)
           in lookup_ngram history (nat n_draft) (nat min_n) (nat max_n))"

section \<open>Structural drafts\<close>

abbreviation newline :: char where "newline \<equiv> CHR 0x0A"

text \<open>The line before the final newline.\<close>

definition last_completed_line :: "bytes \<Rightarrow> bytes" where
  "last_completed_line tail =
     (if tail = [] \<or> last tail \<noteq> newline then []
      else rev (takeWhile (\<lambda>c. c \<noteq> newline) (rev (butlast tail))))"

text \<open>The number and separator of a list item; 0 when the line is none.\<close>

definition parse_numbered_item :: "bytes \<Rightarrow> int \<times> char" where
  "parse_numbered_item line =
     (let i = length (takeWhile isdigit line)
      in if i = 0 \<or> 9 < i then (0, CHR ''.'')
         else if length line \<le> i \<or> (line ! i \<noteq> CHR ''.'' \<and> line ! i \<noteq> CHR '')'') then (0, CHR ''.'')
         else if length line \<le> i + 1 \<or> line ! (i + 1) \<noteq> CHR '' '' then (0, CHR ''.'')
         else (int (nat_of_digits (take i line)), line ! i))"

definition is_bullet_item :: "bytes \<Rightarrow> char option" where
  "is_bullet_item line =
     (if length line < 2 then None
      else if (line ! 0 = CHR ''-'' \<or> line ! 0 = CHR ''*'') \<and> line ! 1 = CHR '' '' then Some (line ! 0)
      else None)"

definition propose :: "bytes \<Rightarrow> bytes" where
  "propose tail =
     (let line = last_completed_line tail
      in if line = [] then []
         else let (n, sep) = parse_numbered_item line
              in if 0 < n then string_of_int (n + 1) @ [sep] @ '' ''
                 else (case is_bullet_item line of Some m \<Rightarrow> [m] @ '' '' | None \<Rightarrow> []))"

section \<open>Draft model and verifier\<close>

record DraftResult =
  dr_tokens :: tokens
  dr_probs :: "real list list"

text \<open>The rollout of the draft model.\<close>

fun draft_rollout :: "'r uniform \<Rightarrow> GenerationConfig \<Rightarrow> 'd LlamaBackend \<Rightarrow> nat \<Rightarrow> TokenId \<Rightarrow> tokens \<Rightarrow> DraftResult \<Rightarrow> 'r \<Rightarrow> 'd
    \<Rightarrow> (engine_exn + DraftResult) \<times> 'r \<times> 'd" where
  "draft_rollout uniform gen D 0 cur history result rng d = (Inr result, rng, d)"
| "draft_rollout uniform gen D (Suc n) cur history result rng d =
     (case be_decode_append D d [cur] of
        (Inl e, d1) \<Rightarrow> (Inl (Engine_model e), rng, d1)
      | (Inr logits, d1) \<Rightarrow>
          (case distribution gen logits history of
             Inl e \<Rightarrow> (Inl e, rng, d1)
           | Inr probs \<Rightarrow>
               (case draw uniform probs rng of
                  (Inl e, rng1) \<Rightarrow> (Inl e, rng1, d1)
                | (Inr nxt, rng1) \<Rightarrow>
                    let result1 = \<lparr>dr_tokens = dr_tokens result @ [nxt], dr_probs = dr_probs result @ [probs]\<rparr>
                    in if nxt = be_eos_token D then (Inr result1, rng1, d1)
                       else draft_rollout uniform gen D n nxt (history @ [nxt]) result1 rng1 d1)))"

definition generate_draft :: "'r uniform \<Rightarrow> GenerationConfig \<Rightarrow> 'd LlamaBackend \<Rightarrow> int \<Rightarrow> TokenId \<Rightarrow> tokens \<Rightarrow> int \<Rightarrow> 'r \<Rightarrow> 'd
    \<Rightarrow> (engine_exn + DraftResult) \<times> 'r \<times> 'd" where
  "generate_draft uniform gen D draft_tokens last_token recent n_tokens rng d =
     draft_rollout uniform gen D (nat (if 0 < n_tokens then n_tokens else draft_tokens)) last_token recent
       \<lparr>dr_tokens = [], dr_probs = []\<rparr> rng d"

text \<open>
  The acceptance loop of \<open>verify_batch\<close>: the accepted prefix and the corrected token, if a
  rejection happened.
\<close>

fun verify_loop :: "'r uniform \<Rightarrow> GenerationConfig \<Rightarrow> (TokenId \<times> logits \<times> real list) list \<Rightarrow> tokens \<Rightarrow> tokens \<Rightarrow> 'r
    \<Rightarrow> (engine_exn + tokens \<times> TokenId option) \<times> 'r" where
  "verify_loop uniform gen [] history accepted rng = (Inr (accepted, None), rng)"
| "verify_loop uniform gen ((d, logits, draft_probs) # rest) history accepted rng =
     (case distribution gen logits history of
        Inl e \<Rightarrow> (Inl e, rng)
      | Inr target_probs \<Rightarrow>
          if length target_probs \<le> unat d \<or> length draft_probs \<le> unat d then (Inl Out_of_bounds, rng)
          else let (r, rng1) = uniform rng
               in if accept_token (target_probs ! unat d) (draft_probs ! unat d) r
                  then verify_loop uniform gen rest (history @ [d]) (accepted @ [d]) rng1
                  else let (r2, rng2) = uniform rng1
                       in (Inr (accepted, Some (word_of_nat
                            (draw_loop (residual_distribution target_probs draft_probs) 0 0 r2))), rng2))"

definition verify_batch :: "'r uniform \<Rightarrow> GenerationConfig \<Rightarrow> 'b LlamaBackend \<Rightarrow> TokenId \<Rightarrow> DraftResult \<Rightarrow> tokens \<Rightarrow> 'r \<Rightarrow> 'b
    \<Rightarrow> (engine_exn + tokens \<times> TokenId option) \<times> 'r \<times> 'b" where
  "verify_batch uniform gen B last_token drft recent rng b =
     (if dr_tokens drft = [] then (Inl (EngineError ''verify_batch called with an empty draft''), rng, b)
      else (case be_decode_batch B b (last_token # butlast (dr_tokens drft)) of
              (Inl e, b1) \<Rightarrow> (Inl (Engine_model e), rng, b1)
            | (Inr all_logits, b1) \<Rightarrow>
                if length all_logits < length (dr_tokens drft) \<or> length (dr_probs drft) < length (dr_tokens drft)
                then (Inl Out_of_bounds, rng, b1)
                else let (r, rng1) = verify_loop uniform gen (zip (dr_tokens drft) (zip all_logits (dr_probs drft))) recent [] rng
                in (r, rng1, b1)))"


section \<open>The decoder\<close>

datatype spec_mode = ModelDraft | PromptLookup

record spec_config =
  sc_mode :: spec_mode
  sc_draft_tokens :: int
  sc_min_draft_tokens :: int
  sc_max_draft_tokens :: int
  sc_lookup :: lookup_config
  sc_use_speculative :: bool
  sc_disable_after_drafted :: nat
  sc_disable_below_acceptance :: real

record spec_dec =
  sd_current_draft_tokens :: int
  sd_active :: bool
  sd_total_draft :: nat
  sd_total_accepted :: nat
  sd_total_rejected :: nat
  sd_generated :: nat

definition clamp_int :: "int \<Rightarrow> int \<Rightarrow> int \<Rightarrow> int" where
  "clamp_int v lo hi = (if v < lo then lo else if hi < v then hi else v)"

text \<open>The constructor; \<open>draft_vocab\<close> is \<open>None\<close> without a draft model.\<close>

definition SpeculativeDecoder_init :: "spec_config \<Rightarrow> nat \<Rightarrow> nat option \<Rightarrow> engine_exn + spec_dec" where
  "SpeculativeDecoder_init cfg target_vocab draft_vocab =
     (case draft_vocab of
        Some dv \<Rightarrow>
          if 128 < \<bar>int dv - int target_vocab\<bar>
          then Inl (EngineError (''draft and target vocabularies differ ('' @ string_of_nat dv @ '' vs '' @
                 string_of_nat target_vocab @ ''): speculative decoding requires a shared tokenizer''))
          else Inr \<lparr>sd_current_draft_tokens = clamp_int (sc_draft_tokens cfg) (sc_min_draft_tokens cfg) (sc_max_draft_tokens cfg),
                    sd_active = sc_use_speculative cfg, sd_total_draft = 0, sd_total_accepted = 0,
                    sd_total_rejected = 0, sd_generated = 0\<rparr>
      | None \<Rightarrow>
          Inr \<lparr>sd_current_draft_tokens = clamp_int (sc_draft_tokens cfg) (sc_min_draft_tokens cfg) (sc_max_draft_tokens cfg),
               sd_active = (sc_use_speculative cfg \<and> sc_mode cfg = PromptLookup), sd_total_draft = 0,
               sd_total_accepted = 0, sd_total_rejected = 0, sd_generated = 0\<rparr>)"

definition adapt_draft_length :: "spec_config \<Rightarrow> spec_dec \<Rightarrow> nat \<Rightarrow> nat \<Rightarrow> spec_dec" where
  "adapt_draft_length cfg d accepted drafted =
     (if drafted = 0 then d
      else let rate = real accepted / real drafted
           in if 9 / 10 \<le> rate
              then d\<lparr>sd_current_draft_tokens := min (sd_current_draft_tokens d + 2) (sc_max_draft_tokens cfg)\<rparr>
              else if rate \<le> 4 / 10
              then d\<lparr>sd_current_draft_tokens := max (sd_current_draft_tokens d - 2) (sc_min_draft_tokens cfg)\<rparr>
              else d)"

definition acceptance_rate :: "spec_dec \<Rightarrow> real" where
  "acceptance_rate d = (if sd_total_draft d = 0 then 0 else real (sd_total_accepted d) / real (sd_total_draft d))"

definition maybe_auto_disable :: "spec_config \<Rightarrow> spec_dec \<Rightarrow> spec_dec" where
  "maybe_auto_disable cfg d =
     (if \<not> sd_active d then d
      else if sd_total_draft d < sc_disable_after_drafted cfg then d
      else if acceptance_rate d < sc_disable_below_acceptance cfg then d\<lparr>sd_active := False\<rparr>
      else d)"

text \<open>The proposals of prompt lookup mode: history, then the corpus, then structure.\<close>

definition lookup_draft :: "'b LlamaBackend \<Rightarrow> spec_config \<Rightarrow> CorpusIndex option \<Rightarrow> tokens \<Rightarrow> int \<Rightarrow> engine_exn + tokens" where
  "lookup_draft B cfg corpus history n_draft =
     (let d1 = find_draft (sc_lookup cfg) history n_draft;
          d2 = (if d1 = [] then (case corpus of None \<Rightarrow> [] | Some c \<Rightarrow> draft c history n_draft) else d1)
      in if d2 \<noteq> [] then Inr d2
         else (case be_detokenize B (drop (length history - min (length history) 48) history) of
                 Inl e \<Rightarrow> Inl (Engine_model e)
               | Inr txt \<Rightarrow>
                   let proposal = propose txt
                   in if proposal = [] then Inr []
                      else (case be_tokenize B proposal False of
                              Inl e \<Rightarrow> Inl (Engine_model e)
                            | Inr toks \<Rightarrow> Inr (if n_draft < int (length toks) then take (nat n_draft) toks else toks))))"

record ('b, 'd, 'r) spec_run =
  sr_target :: 'b
  sr_draft :: 'd
  sr_history :: tokens
  sr_cur :: TokenId
  sr_base :: nat
  sr_delivered :: tokens
  sr_rng :: 'r
  sr_arng :: 'r
  sr_dec :: spec_dec
  sr_skip :: bool

text \<open>
  The emission loop: whether \<open>generate_stream\<close> returns here, the history and the tokens handed
  to the callback \<open>cb\<close>, which may throw.
\<close>

fun emit_tokens :: "(TokenId \<Rightarrow> bool) \<Rightarrow> (tokens \<Rightarrow> engine_exn + bool) \<Rightarrow> nat \<Rightarrow> nat \<Rightarrow> tokens \<Rightarrow> tokens \<Rightarrow> tokens
    \<Rightarrow> (engine_exn + bool) \<times> tokens \<times> tokens" where
  "emit_tokens eog cb budget n_ctx [] history delivered = (Inr False, history, delivered)"
| "emit_tokens eog cb budget n_ctx (t # ts) history delivered =
     (if eog t then (Inr True, history, delivered)
      else (case cb (delivered @ [t]) of
              Inl x \<Rightarrow> (Inl x, history, delivered @ [t])
            | Inr keep_going \<Rightarrow>
                if \<not> keep_going then (Inr True, history, delivered @ [t])
                else if budget \<le> length delivered + 1 \<or> n_ctx \<le> length history + 1
                then (Inr False, history @ [t], delivered @ [t])
                else emit_tokens eog cb budget n_ctx ts (history @ [t]) (delivered @ [t])))"

text \<open>The environment of a generation: configuration, backends, random source and callback.\<close>

record ('b, 'd, 'r) spec_env =
  se_cfg :: spec_config
  se_gen :: GenerationConfig
  se_B :: "'b LlamaBackend"
  se_D :: "'d LlamaBackend option"
  se_uniform :: "'r uniform"
  se_cb :: "tokens \<Rightarrow> engine_exn + bool"
  se_corpus :: "CorpusIndex option"

text \<open>Plain sequential decoding of one token: \<open>True\<close> leaves the loop.\<close>

definition plain_step :: "('b, 'd, 'r) spec_env \<Rightarrow> ('b, 'd, 'r) spec_run
    \<Rightarrow> (engine_exn + bool) \<times> ('b, 'd, 'r) spec_run" where
  "plain_step e s0 =
     (let s = s0\<lparr>sr_skip := False\<rparr>
      in case be_decode_append (se_B e) (sr_target s) [sr_cur s] of
           (Inl x, b1) \<Rightarrow> (Inl (Engine_model x), s\<lparr>sr_target := b1\<rparr>)
         | (Inr logits, b1) \<Rightarrow>
             let s1 = s\<lparr>sr_target := b1, sr_base := sr_base s + 1\<rparr>
             in case sample (se_uniform e) (se_gen e) logits (sr_history s) (sr_rng s) of
                  (Inl x, rng1) \<Rightarrow> (Inl x, s1\<lparr>sr_rng := rng1\<rparr>)
                | (Inr nxt, rng1) \<Rightarrow>
                    let s2 = s1\<lparr>sr_rng := rng1\<rparr>
                    in if be_is_eog (se_B e) nxt then (Inr True, s2)
                       else let s3 = s2\<lparr>sr_delivered := sr_delivered s2 @ [nxt]\<rparr>
                            in case se_cb e (sr_delivered s3) of
                                 Inl x \<Rightarrow> (Inl x, s3)
                               | Inr keep_going \<Rightarrow>
                                   if \<not> keep_going then (Inr True, s3)
                                   else (Inr False, s3\<lparr>sr_history := sr_history s3 @ [nxt], sr_cur := nxt,
                                          sr_dec := (sr_dec s3)\<lparr>sd_generated := sd_generated (sr_dec s3) + 1\<rparr>\<rparr>))"

definition deactivate :: "('b, 'd, 'r) spec_run \<Rightarrow> ('b, 'd, 'r) spec_run" where
  "deactivate s = s\<lparr>sr_dec := (sr_dec s)\<lparr>sd_active := False\<rparr>\<rparr>"

text \<open>
  The draft of an iteration. \<open>None\<close> is a draft model that threw: speculation is off and the
  loop continues.
\<close>

definition make_draft :: "('b, 'd, 'r) spec_env \<Rightarrow> ('b, 'd, 'r) spec_run \<Rightarrow> int
    \<Rightarrow> (engine_exn + DraftResult option) \<times> ('b, 'd, 'r) spec_run" where
  "make_draft e s n_draft =
     (case (sc_mode (se_cfg e), se_D e) of
        (ModelDraft, Some D) \<Rightarrow>
          (case generate_draft (se_uniform e) (se_gen e) D (sc_draft_tokens (se_cfg e)) (sr_cur s) (sr_history s)
                  n_draft (sr_rng s) (sr_draft s) of
             (Inl _, rng1, d1) \<Rightarrow> (Inr None, deactivate (s\<lparr>sr_rng := rng1, sr_draft := d1\<rparr>))
           | (Inr r, rng1, d1) \<Rightarrow> (Inr (Some r), s\<lparr>sr_rng := rng1, sr_draft := d1\<rparr>))
      | _ \<Rightarrow>
          (case lookup_draft (se_B e) (se_cfg e) (se_corpus e) (sr_history s) n_draft of
             Inl x \<Rightarrow> (Inl x, s)
           | Inr toks \<Rightarrow>
               if list_all (\<lambda>t. unat t < be_vocab_size (se_B e)) toks
               then (Inr (Some \<lparr>dr_tokens = toks, dr_probs = map (\<lambda>t. one_hot (be_vocab_size (se_B e)) (unat t)) toks\<rparr>), s)
               else (Inl Out_of_bounds, s)))"

text \<open>The KV rollback after a rejection: the target, then the draft model if it is used.\<close>

definition kv_sync :: "('b, 'd, 'r) spec_env \<Rightarrow> ('b, 'd, 'r) spec_run \<Rightarrow> nat \<Rightarrow> nat \<Rightarrow> bool
    \<Rightarrow> (engine_exn + unit) \<times> ('b, 'd, 'r) spec_run" where
  "kv_sync e s n_drafted n_accepted has_correction =
     (if \<not> has_correction then (Inr (), s\<lparr>sr_base := sr_base s + n_drafted\<rparr>)
      else let keep = sr_base s + 1 + n_accepted
           in case be_truncate_to (se_B e) (sr_target s) keep of
                (Inl x, b1) \<Rightarrow> (Inl (Engine_model x), s\<lparr>sr_target := b1\<rparr>)
              | (Inr _, b1) \<Rightarrow>
                  let s1 = s\<lparr>sr_target := b1\<rparr>
                  in case (sc_mode (se_cfg e), se_D e) of
                       (ModelDraft, Some D) \<Rightarrow>
                         (case be_truncate_to D (sr_draft s1) keep of
                            (Inl x, d1) \<Rightarrow> (Inl (Engine_model x), s1\<lparr>sr_draft := d1\<rparr>)
                          | (Inr _, d1) \<Rightarrow> (Inr (), s1\<lparr>sr_draft := d1, sr_base := keep\<rparr>))
                     | _ \<Rightarrow> (Inr (), s1\<lparr>sr_base := keep\<rparr>))"

definition max_out :: "GenerationConfig \<Rightarrow> nat" where
  "max_out gen = nat (max (gc_max_tokens gen) 0)"

text \<open>Verification, rollback and emission for a non-empty draft.\<close>

definition speculate :: "('b, 'd, 'r) spec_env \<Rightarrow> ('b, 'd, 'r) spec_run \<Rightarrow> DraftResult
    \<Rightarrow> (engine_exn + bool) \<times> ('b, 'd, 'r) spec_run" where
  "speculate e s drft =
     (case verify_batch (se_uniform e) (se_gen e) (se_B e) (sr_cur s) drft (sr_history s) (sr_arng s) (sr_target s) of
        (Inl x, arng1, b1) \<Rightarrow> (Inl x, s\<lparr>sr_arng := arng1, sr_target := b1\<rparr>)
      | (Inr (accepted, correction), arng1, b1) \<Rightarrow>
          let n = length (dr_tokens drft); a = length accepted; d0 = sr_dec s;
              s1 = s\<lparr>sr_arng := arng1, sr_target := b1,
                     sr_dec := d0\<lparr>sd_total_draft := sd_total_draft d0 + n,
                                  sd_total_accepted := sd_total_accepted d0 + a,
                                  sd_total_rejected := sd_total_rejected d0 + (n - a)\<rparr>\<rparr>
          in case kv_sync e s1 n a (correction \<noteq> None) of
               (Inl x, s2) \<Rightarrow> (Inl x, s2)
             | (Inr _, s2) \<Rightarrow>
                 let new_tokens = accepted @ (case correction of None \<Rightarrow> [] | Some t \<Rightarrow> [t]);
                     (ret, hist, deliv) =
                       emit_tokens (be_is_eog (se_B e)) (se_cb e) (max_out (se_gen e)) (be_context_length (se_B e))
                         new_tokens (sr_history s2) (sr_delivered s2);
                     d2 = (sr_dec s2)\<lparr>sd_generated := sd_generated (sr_dec s2) + (length hist - length (sr_history s2))\<rparr>;
                     s3 = s2\<lparr>sr_history := hist, sr_delivered := deliv,
                             sr_cur := (if hist = sr_history s2 then sr_cur s2 else last hist), sr_dec := d2\<rparr>
                 in case ret of
                      Inl x \<Rightarrow> (Inl x, s3)
                    | Inr stop \<Rightarrow>
                        if stop then (Inr True, s3)
                        else (Inr False, s3\<lparr>sr_dec :=
                                maybe_auto_disable (se_cfg e) (adapt_draft_length (se_cfg e) (sr_dec s3) a n)\<rparr>))"

text \<open>One iteration of the loop; \<open>True\<close> leaves it.\<close>

definition spec_iter :: "('b, 'd, 'r) spec_env \<Rightarrow> ('b, 'd, 'r) spec_run
    \<Rightarrow> (engine_exn + bool) \<times> ('b, 'd, 'r) spec_run" where
  "spec_iter e s0 =
     (let model_mode = (sc_mode (se_cfg e) = ModelDraft);
          draft_vocab = (case (sc_mode (se_cfg e), se_D e) of
                           (ModelDraft, Some D) \<Rightarrow> be_vocab_size D | _ \<Rightarrow> be_vocab_size (se_B e));
          s = (if sd_active (sr_dec s0) \<and> model_mode \<and> int draft_vocab \<le> sint (sr_cur s0)
               then deactivate s0 else s0)
      in if sd_active (sr_dec s) \<and> \<not> sr_skip s
         then let room = int (be_context_length (se_B e)) - int (length (sr_history s));
                  n_draft = min (sd_current_draft_tokens (sr_dec s)) room
              in case make_draft e s n_draft of
                   (Inl x, s1) \<Rightarrow> (Inl x, s1)
                 | (Inr None, s1) \<Rightarrow> (Inr False, s1)
                 | (Inr (Some drft), s1) \<Rightarrow>
                     if dr_tokens drft = []
                     then (Inr False, if model_mode then deactivate s1 else s1\<lparr>sr_skip := True\<rparr>)
                     else speculate e s1 drft
         else plain_step e s)"

text \<open>The loop, with fuel for its iterations.\<close>

fun spec_loop :: "('b, 'd, 'r) spec_env \<Rightarrow> nat \<Rightarrow> ('b, 'd, 'r) spec_run
    \<Rightarrow> ((engine_exn + unit) \<times> ('b, 'd, 'r) spec_run) option" where
  "spec_loop e fuel s =
     (if \<not> (length (sr_delivered s) < max_out (se_gen e) \<and> length (sr_history s) < be_context_length (se_B e))
      then Some (Inr (), s)
      else case fuel of
             0 \<Rightarrow> None
           | Suc f \<Rightarrow>
               (case spec_iter e s of
                  (Inl x, s1) \<Rightarrow> Some (Inl x, s1)
                | (Inr True, s1) \<Rightarrow> Some (Inr (), s1)
                | (Inr False, s1) \<Rightarrow> spec_loop e f s1))"

declare spec_loop.simps [simp del]


text \<open>
  \<open>generate_stream\<close>: the prefill of the target and of the draft model, the loop, and the feeding
  of the corpus on every exit after the guard is set up. \<open>None\<close> is fuel that ran out.
\<close>

definition target_prefill :: "'b LlamaBackend \<Rightarrow> tokens \<Rightarrow> nat \<Rightarrow> nat \<Rightarrow> 'b \<Rightarrow> (engine_exn + unit) \<times> 'b" where
  "target_prefill B history base kv_ready b =
     (let wrap = (\<lambda>r. map_prod (case_sum (\<lambda>x. Inl (Engine_model x)) (\<lambda>_. Inr ())) id r)
      in if kv_ready = 0
         then (if 0 < base then wrap (be_decode_append B (be_reset B b) (take base history)) else (Inr (), be_reset B b))
         else if kv_ready < base
         then wrap (be_decode_append B b (take (base - kv_ready) (drop kv_ready history)))
         else (Inr (), b))"

definition draft_prefill :: "'d LlamaBackend \<Rightarrow> tokens \<Rightarrow> nat \<Rightarrow> 'd \<Rightarrow> bool \<times> 'd" where
  "draft_prefill D history base d =
     (if 0 < base
      then (case be_decode_append D (be_reset D d) (take base history) of
              (Inl _, d1) \<Rightarrow> (False, d1) | (Inr _, d1) \<Rightarrow> (True, d1))
      else (True, be_reset D d))"

definition spec_fuel :: "GenerationConfig \<Rightarrow> nat" where
  "spec_fuel gen = 3 * max_out gen + 3"

definition spec_start :: "('b, 'd, 'r) spec_env \<Rightarrow> spec_dec \<Rightarrow> tokens \<Rightarrow> nat \<Rightarrow> 'r \<Rightarrow> 'r \<Rightarrow> 'b \<Rightarrow> 'd
    \<Rightarrow> (engine_exn + unit) \<times> ('b, 'd, 'r) spec_run" where
  "spec_start e dec prompt kv_ready rng arng b d =
     (let base = length prompt - 1;
          s0 = \<lparr>sr_target = b, sr_draft = d, sr_history = prompt, sr_cur = last prompt, sr_base = base,
                sr_delivered = [], sr_rng = rng, sr_arng = arng, sr_dec = dec, sr_skip = False\<rparr>
      in if base < kv_ready
         then (Inl (EngineError (''kv_ready_tokens ('' @ string_of_nat kv_ready @ '') exceeds the prompt prefix ('' @
                 string_of_nat base @ '')'')), s0)
         else (case target_prefill (se_B e) prompt base kv_ready b of
                 (Inl x, b1) \<Rightarrow> (Inl x, s0\<lparr>sr_target := b1\<rparr>)
               | (Inr _, b1) \<Rightarrow>
                   let s1 = s0\<lparr>sr_target := b1\<rparr>
                   in case (sd_active dec, sc_mode (se_cfg e), se_D e) of
                        (True, ModelDraft, Some D) \<Rightarrow>
                          (case draft_prefill D prompt base d of
                             (True, d1) \<Rightarrow> (Inr (), s1\<lparr>sr_draft := d1\<rparr>)
                           | (False, d1) \<Rightarrow> (Inr (), deactivate (s1\<lparr>sr_draft := d1\<rparr>)))
                      | _ \<Rightarrow> (Inr (), s1)))"

definition observe_exit :: "('b, 'd, 'r) spec_env \<Rightarrow> tokens \<Rightarrow> CorpusIndex option" where
  "observe_exit e history =
     (if sc_mode (se_cfg e) = PromptLookup then map_option (\<lambda>c. observe c history) (se_corpus e) else se_corpus e)"

definition spec_generate_stream :: "('b, 'd, 'r) spec_env \<Rightarrow> spec_dec \<Rightarrow> tokens \<Rightarrow> nat \<Rightarrow> 'r \<Rightarrow> 'r \<Rightarrow> 'b \<Rightarrow> 'd
    \<Rightarrow> ((engine_exn + unit) \<times> ('b, 'd, 'r) spec_run \<times> CorpusIndex option) option" where
  "spec_generate_stream e dec prompt kv_ready rng arng b d =
     (let fresh = \<lparr>sr_target = b, sr_draft = d, sr_history = prompt, sr_cur = 0, sr_base = 0,
                   sr_delivered = [], sr_rng = rng, sr_arng = arng, sr_dec = dec, sr_skip = False\<rparr>
      in if prompt = [] then Some (Inl (EngineError ''prompt is empty''), fresh, se_corpus e)
         else if be_context_length (se_B e) < length prompt
         then Some (Inl (EngineError (''prompt of '' @ string_of_nat (length prompt) @ '' tokens exceeds context length '' @
                string_of_nat (be_context_length (se_B e)))), fresh, se_corpus e)
         else (case spec_start e dec prompt kv_ready rng arng b d of
                 (Inl x, s) \<Rightarrow> Some (Inl x, s, observe_exit e (sr_history s))
               | (Inr _, s) \<Rightarrow>
                   (case spec_loop e (spec_fuel (se_gen e)) s of
                      None \<Rightarrow> None
                    | Some (r, s1) \<Rightarrow> Some (r, s1, observe_exit e (sr_history s1)))))"

section \<open>Plain greedy decoding\<close>

text \<open>
  The reference: one token after the other, each the argmax of the penalised logits, until an
  end-of-generation token, the callback, the budget or the context stops it.
\<close>

fun greedy_ref :: "GenerationConfig \<Rightarrow> (tokens \<Rightarrow> logits) \<Rightarrow> (TokenId \<Rightarrow> bool) \<Rightarrow> (tokens \<Rightarrow> engine_exn + bool) \<Rightarrow> nat \<Rightarrow> nat \<Rightarrow> tokens \<Rightarrow> tokens
    \<Rightarrow> tokens" where
  "greedy_ref gen eval eog cb n_ctx 0 history delivered = delivered"
| "greedy_ref gen eval eog cb n_ctx (Suc n) history delivered =
     (if n_ctx \<le> length history then delivered
      else let t = greedy_token gen (eval history) history
           in if eog t then delivered
              else if cb (delivered @ [t]) \<noteq> Inr True then delivered @ [t]
              else greedy_ref gen eval eog cb n_ctx n (history @ [t]) (delivered @ [t]))"


section \<open>Verification of one-hot drafts is greedy\<close>

text \<open>Every token is drafted with certainty: what lookup, and a greedy draft model, produce.\<close>

definition certain_draft :: "DraftResult \<Rightarrow> bool" where
  "certain_draft r \<longleftrightarrow> list_all2 (\<lambda>t ps. unat t < length ps \<and> ps = one_hot (length ps) (unat t)) (dr_tokens r) (dr_probs r)"

definition greedy_path :: "GenerationConfig \<Rightarrow> (tokens \<Rightarrow> logits) \<Rightarrow> tokens \<Rightarrow> tokens \<Rightarrow> bool" where
  "greedy_path gen eval history ts \<longleftrightarrow>
     (\<forall>i<length ts. ts ! i = greedy_token gen (eval (history @ take i ts)) (history @ take i ts))"

lemma greedy_path_Nil [simp]: "greedy_path gen eval history []"
  by (simp add: greedy_path_def)

lemma greedy_path_Cons:
  "greedy_path gen eval history (t # ts) \<longleftrightarrow>
     t = greedy_token gen (eval history) history \<and> greedy_path gen eval (history @ [t]) ts"
proof -
  have "(\<forall>i<Suc n. P i) \<longleftrightarrow> P 0 \<and> (\<forall>i<n. P (Suc i))" for P n
    using less_Suc_eq_0_disj by auto
  then show ?thesis by (simp add: greedy_path_def)
qed

lemma draw_loop_one_hot:
  assumes "g < n"
  shows "draw_loop (one_hot n g) 0 0 r = g"
proof -
  have nn: "\<forall>x\<in>set (one_hot n g). 0 \<le> x" by (auto simp: in_set_conv_nth nth_one_hot)
  have "one_hot n g ! g \<in> set (one_hot n g)" using assms by simp
  then have "\<exists>x\<in>set (one_hot n g). 0 < x" using assms by (intro bexI [of _ "one_hot n g ! g"]) (simp_all add: nth_one_hot)
  with draw_loop_spec [OF nn, of 0 0 "[]" r] show ?thesis by (auto simp: nth_one_hot split: if_splits)
qed

lemma residual_one_hot:
  assumes "g < n" and "d < m" and "d \<noteq> g"
  shows "residual_distribution (one_hot n g) (one_hot m d) = one_hot n g"
proof -
  let ?r = "map (\<lambda>i. max (one_hot n g ! i - (if i < length (one_hot m d) then one_hot m d ! i else 0)) 0) [0..<n]"
  have "?r = one_hot n g"
    using assms by (intro nth_equalityI) (auto simp: nth_one_hot)
  then show ?thesis
    using one_hot_sum [OF assms(1)] unfolding residual_distribution_def Let_def by simp
qed

lemma greedy_distribution:
  assumes "gc_temperature gen \<le> 0" and "logits \<noteq> []" and "length logits < 2 ^ 31"
  shows "distribution gen logits recent = Inr (one_hot (length logits) (unat (greedy_token gen logits recent))) \<and>
    unat (greedy_token gen logits recent) < length logits"
proof -
  have "argmax (repeat_penalty gen logits recent) < length logits"
    using argmax_spec(1) [OF repeat_penalty_nonempty [OF assms(2)]] by simp
  with assms show ?thesis by (simp add: distribution_def greedy_token_def Let_def unat_small)
qed

lemma verify_loop_accepts:
  assumes "gc_temperature gen \<le> 0" and "0 < V" and "V < 2 ^ 31" and "\<And>ts. length (eval ts) = V"
    and "\<And>r. 0 \<le> fst (uniform r) \<and> fst (uniform r) < 1"
  shows "\<lbrakk>verify_loop uniform gen (zip ds (zip ls ps)) history acc rng = (Inr (acc', corr), rng');
      length ls = length ds; list_all2 (\<lambda>t p. unat t < length p \<and> p = one_hot (length p) (unat t)) ds ps;
      \<forall>i<length ds. ls ! i = eval (history @ take i ds)\<rbrakk> \<Longrightarrow>
    \<exists>as. acc' = acc @ as \<and> as = take (length as) ds \<and> greedy_path gen eval history as \<and>
      (case corr of None \<Rightarrow> as = ds
       | Some t \<Rightarrow> t = greedy_token gen (eval (history @ as)) (history @ as) \<and> length as < length ds)"
proof (induction ds arbitrary: ls ps history acc rng)
  case Nil
  then show ?case by auto
next
  case (Cons d ds)
  from Cons.prems(2,3) obtain l ls' p ps' where ls: "ls = l # ls'" and ps: "ps = p # ps'"
    and d: "unat d < length p" "p = one_hot (length p) (unat d)"
    and ps': "list_all2 (\<lambda>t p. unat t < length p \<and> p = one_hot (length p) (unat t)) ds ps'"
    by (cases ls; cases ps) auto
  have l: "l = eval history" using Cons.prems(4) ls by force
  let ?g = "greedy_token gen (eval history) history"
  have ne: "eval history \<noteq> []" and len: "length (eval history) = V" using assms(2,4) by (metis length_0_conv not_less_zero, simp)
  have dist: "distribution gen l history = Inr (one_hot V (unat ?g))" and g: "unat ?g < V"
    using greedy_distribution [OF assms(1) ne, of history] len assms(3) l by simp_all
  have dV: "unat d < V"
    using Cons.prems(1) by (auto simp: ls ps dist Let_def split: if_splits)
  obtain r rng1 where u: "uniform rng = (r, rng1)" by fastforce
  have r: "0 \<le> r" "r < 1" using assms(5) [of rng] u by simp_all
  have acc: "accept_token (one_hot V (unat ?g) ! unat d) (p ! unat d) r \<longleftrightarrow> d = ?g"
  proof -
    have "p ! unat d = 1" using d by (metis nth_one_hot)
    then show ?thesis using dV r by (auto simp: accept_token_def nth_one_hot word_unat_eq_iff)
  qed
  show ?case
  proof (cases "d = ?g")
    case True
    have rec: "verify_loop uniform gen (zip ds (zip ls' ps')) (history @ [d]) (acc @ [d]) rng1 = (Inr (acc', corr), rng')"
      using Cons.prems(1) acc True dV d(1) by (simp add: ls ps dist u)
    have "\<forall>i<length ds. ls' ! i = eval ((history @ [d]) @ take i ds)"
      using Cons.prems(4) ls by (auto dest: spec [of _ "Suc _"])
    from Cons.IH [OF rec _ ps' this] Cons.prems(2) ls obtain as where
      as: "acc' = (acc @ [d]) @ as" "as = take (length as) ds" "greedy_path gen eval (history @ [d]) as"
      "case corr of None \<Rightarrow> as = ds | Some t \<Rightarrow> t = greedy_token gen (eval ((history @ [d]) @ as)) ((history @ [d]) @ as) \<and>
        length as < length ds" by auto
    then show ?thesis using True by (intro exI [of _ "d # as"]) (auto simp: greedy_path_Cons split: option.splits)
  next
    case False
    obtain r2 rng2 where u2: "uniform rng1 = (r2, rng2)" by fastforce
    have res: "residual_distribution (one_hot V (unat ?g)) p = one_hot V (unat ?g)"
      using residual_one_hot [OF g d(1)] False d(2) by (metis word_unat_eq_iff)
    have "corr = Some ?g" "acc' = acc"
      using Cons.prems(1) acc False dV d(1) by (simp_all add: ls ps dist u u2 res draw_loop_one_hot [OF g])
    then show ?thesis by (intro exI [of _ "[]"]) simp
  qed
qed

lemma verify_loop_length:
  "verify_loop uniform gen xs history acc rng = (Inr (acc', corr), rng') \<Longrightarrow>
     length acc' \<le> length acc + length xs \<and> (corr = None \<longrightarrow> length acc' = length acc + length xs)"
  by (induction uniform gen xs history acc rng rule: verify_loop.induct)
     (auto simp: Let_def split: sum.splits if_splits prod.splits)

lemma greedy_path_snoc:
  "greedy_path gen eval history (ts @ [t]) \<longleftrightarrow>
     greedy_path gen eval history ts \<and> t = greedy_token gen (eval (history @ ts)) (history @ ts)"
  by (induction ts arbitrary: history) (auto simp: greedy_path_Cons)

section \<open>Emission follows the reference\<close>

text \<open>The condition of the decoding loop.\<close>

definition may_go_on :: "nat \<Rightarrow> nat \<Rightarrow> tokens \<Rightarrow> tokens \<Rightarrow> bool" where
  "may_go_on budget n_ctx history delivered \<longleftrightarrow> length delivered < budget \<and> length history < n_ctx"

lemma greedy_ref_stop:
  "\<not> may_go_on budget n_ctx history delivered \<Longrightarrow>
     greedy_ref gen eval eog cb n_ctx (budget - length delivered) history delivered = delivered"
  by (cases "budget - length delivered") (auto simp: may_go_on_def)

lemma greedy_ref_step:
  assumes "may_go_on budget n_ctx history delivered" and "t = greedy_token gen (eval history) history"
  shows "greedy_ref gen eval eog cb n_ctx (budget - length delivered) history delivered =
    (if eog t then delivered else if cb (delivered @ [t]) \<noteq> Inr True then delivered @ [t]
     else greedy_ref gen eval eog cb n_ctx (budget - length (delivered @ [t])) (history @ [t]) (delivered @ [t]))"
proof -
  have "budget - length delivered = Suc (budget - length (delivered @ [t]))"
    using assms(1) by (auto simp: may_go_on_def)
  then show ?thesis using assms by (simp add: may_go_on_def Let_def)
qed

lemma emit_tokens_greedy:
  assumes "greedy_path gen eval history ts"
    and "ts \<noteq> [] \<Longrightarrow> may_go_on budget n_ctx history delivered"
    and "emit_tokens eog cb budget n_ctx ts history delivered = (Inr ret, history', delivered')"
  shows "let R = greedy_ref gen eval eog cb n_ctx (budget - length delivered) history delivered
    in if ret then delivered' = R
       else \<exists>k \<le> length ts. history' = history @ take k ts \<and> delivered' = delivered @ take k ts \<and>
              (k = length ts \<or> \<not> may_go_on budget n_ctx history' delivered') \<and>
              greedy_ref gen eval eog cb n_ctx (budget - length delivered') history' delivered' = R"
  using assms
proof (induction ts arbitrary: history delivered)
  case (Cons t ts)
  let ?R = "\<lambda>h d. greedy_ref gen eval eog cb n_ctx (budget - length d) h d"
  have t: "t = greedy_token gen (eval history) history" and path: "greedy_path gen eval (history @ [t]) ts"
    using Cons.prems(1) by (auto simp: greedy_path_Cons)
  have w: "may_go_on budget n_ctx history delivered" using Cons.prems(2) by simp
  note step = greedy_ref_step [where eval = eval and eog = eog and cb = cb, OF w t]
  consider "eog t" | "\<not> eog t" "cb (delivered @ [t]) \<noteq> Inr True"
    | "\<not> eog t" "cb (delivered @ [t]) = Inr True" "\<not> may_go_on budget n_ctx (history @ [t]) (delivered @ [t])"
    | "\<not> eog t" "cb (delivered @ [t]) = Inr True" "may_go_on budget n_ctx (history @ [t]) (delivered @ [t])" by blast
  then show ?case
  proof cases
    case 3
    with Cons.prems(3) step show ?thesis
      by (auto simp: Let_def may_go_on_def intro!: exI [of _ 1] split: if_splits)
  next
    case 4
    with Cons.prems(3) have "emit_tokens eog cb budget n_ctx ts (history @ [t]) (delivered @ [t]) = (Inr ret, history', delivered')"
      by (auto simp: may_go_on_def split: if_splits)
    from Cons.IH [OF path 4(3) this]
    have ih: "let R = ?R (history @ [t]) (delivered @ [t])
      in if ret then delivered' = R
         else \<exists>k \<le> length ts. history' = (history @ [t]) @ take k ts \<and> delivered' = (delivered @ [t]) @ take k ts \<and>
                (k = length ts \<or> \<not> may_go_on budget n_ctx history' delivered') \<and> ?R history' delivered' = R" .
    have R: "?R history delivered = ?R (history @ [t]) (delivered @ [t])" using step 4 by simp
    show ?thesis
    proof (cases ret)
      case False
      from ih [unfolded Let_def if_not_P [OF False]] obtain k where k: "k \<le> length ts"
        "history' = (history @ [t]) @ take k ts" "delivered' = (delivered @ [t]) @ take k ts"
        "k = length ts \<or> \<not> may_go_on budget n_ctx history' delivered'"
        "?R history' delivered' = ?R (history @ [t]) (delivered @ [t])" by blast
      have "Suc k \<le> length (t # ts)" "history' = history @ take (Suc k) (t # ts)"
        "delivered' = delivered @ take (Suc k) (t # ts)"
        "Suc k = length (t # ts) \<or> \<not> may_go_on budget n_ctx history' delivered'"
        "?R history' delivered' = ?R history delivered"
        using k(1-4) k(5) [folded R] by simp_all
      then show ?thesis unfolding Let_def if_not_P [OF False] by blast
    qed (use ih R in \<open>simp add: Let_def\<close>)
  qed (use Cons.prems(3) step in \<open>auto simp: Let_def split: sum.splits\<close>)
qed simp

lemma emit_tokens_progress:
  "emit_tokens eog cb budget n_ctx ts history delivered = (Inr False, history', delivered') \<Longrightarrow> ts \<noteq> [] \<Longrightarrow>
     length delivered < length delivered'"
proof (induction ts arbitrary: history delivered)
  case (Cons t ts)
  show ?case
  proof (cases "ts = []")
    case True
    with Cons.prems show ?thesis by (auto split: if_splits sum.splits)
  next
    case False
    with Cons.IH [of "history @ [t]" "delivered @ [t]"] Cons.prems show ?thesis by (auto split: if_splits sum.splits)
  qed
qed simp

section \<open>The loop ends\<close>

text \<open>Every iteration delivers a token, stops speculating, or skips one lookup.\<close>

definition spec_measure :: "('b, 'd, 'r) spec_env \<Rightarrow> ('b, 'd, 'r) spec_run \<Rightarrow> nat" where
  "spec_measure e s =
     2 * (max_out (se_gen e) - length (sr_delivered s)) + (if sd_active (sr_dec s) \<and> \<not> sr_skip s then 1 else 0)"

lemma kv_sync_frame:
  assumes "kv_sync e s n a c = (r, s')"
  shows "sr_delivered s' = sr_delivered s \<and> sr_history s' = sr_history s \<and> sr_cur s' = sr_cur s"
  using assms
  by (auto simp: kv_sync_def Let_def split: if_splits sum.splits prod.splits spec_mode.splits option.splits)

lemma make_draft_frame:
  assumes "make_draft e s n = (r, s')"
  shows "sr_delivered s' = sr_delivered s \<and> sr_history s' = sr_history s \<and> sr_cur s' = sr_cur s \<and>
    sr_target s' = sr_target s \<and> sr_base s' = sr_base s \<and> sr_skip s' = sr_skip s \<and>
    sd_active (sr_dec s') = (sd_active (sr_dec s) \<and> r \<noteq> Inr None)"
  using assms
  by (auto simp: make_draft_def deactivate_def split: if_splits sum.splits prod.splits spec_mode.splits option.splits)

lemma speculateE:
  assumes "speculate e s drft = (Inr ret, s')"
  obtains accepted correction arng b1 s1 s2 hist deliv where
    "verify_batch (se_uniform e) (se_gen e) (se_B e) (sr_cur s) drft (sr_history s) (sr_arng s) (sr_target s)
      = (Inr (accepted, correction), arng, b1)"
    "sr_target s1 = b1" "sr_base s1 = sr_base s"
    "kv_sync e s1 (length (dr_tokens drft)) (length accepted) (correction \<noteq> None) = (Inr (), s2)"
    "emit_tokens (be_is_eog (se_B e)) (se_cb e) (max_out (se_gen e)) (be_context_length (se_B e))
      (accepted @ (case correction of None \<Rightarrow> [] | Some t \<Rightarrow> [t])) (sr_history s) (sr_delivered s) = (Inr ret, hist, deliv)"
    "sr_history s' = hist" "sr_delivered s' = deliv" "sr_target s' = sr_target s2" "sr_base s' = sr_base s2"
    "sr_cur s' = (if hist = sr_history s then sr_cur s else last hist)"
proof -
  let ?nt = "\<lambda>accepted correction. accepted @ (case correction of None \<Rightarrow> [] | Some t \<Rightarrow> [t])"
  obtain v arng b1 where v: "verify_batch (se_uniform e) (se_gen e) (se_B e) (sr_cur s) drft (sr_history s) (sr_arng s)
      (sr_target s) = (v, arng, b1)" using prod_cases3 by blast
  show ?thesis
  proof (cases v)
    case (Inl x)
    with v assms show ?thesis by (simp add: speculate_def)
  next
    case (Inr ac)
    obtain accepted correction where ac: "ac = (accepted, correction)" by (cases ac)
    define s1 where "s1 = s\<lparr>sr_arng := arng, sr_target := b1,
      sr_dec := (sr_dec s)\<lparr>sd_total_draft := sd_total_draft (sr_dec s) + length (dr_tokens drft),
                            sd_total_accepted := sd_total_accepted (sr_dec s) + length accepted,
                            sd_total_rejected := sd_total_rejected (sr_dec s) +
                              (length (dr_tokens drft) - length accepted)\<rparr>\<rparr>"
    then have s1: "sr_target s1 = b1" "sr_base s1 = sr_base s" "sr_history s1 = sr_history s"
      "sr_delivered s1 = sr_delivered s" "sr_cur s1 = sr_cur s" by simp_all
    have eq: "speculate e s drft =
         (case kv_sync e s1 (length (dr_tokens drft)) (length accepted) (correction \<noteq> None) of
            (Inl x, s2) \<Rightarrow> (Inl x, s2)
          | (Inr _, s2) \<Rightarrow>
              let (ret, hist, deliv) =
                    emit_tokens (be_is_eog (se_B e)) (se_cb e) (max_out (se_gen e)) (be_context_length (se_B e))
                      (?nt accepted correction) (sr_history s2) (sr_delivered s2);
                  d2 = (sr_dec s2)\<lparr>sd_generated := sd_generated (sr_dec s2) + (length hist - length (sr_history s2))\<rparr>;
                  s3 = s2\<lparr>sr_history := hist, sr_delivered := deliv,
                          sr_cur := (if hist = sr_history s2 then sr_cur s2 else last hist), sr_dec := d2\<rparr>
              in case ret of
                   Inl x \<Rightarrow> (Inl x, s3)
                 | Inr stop \<Rightarrow>
                     if stop then (Inr True, s3)
                     else (Inr False, s3\<lparr>sr_dec := maybe_auto_disable (se_cfg e)
                            (adapt_draft_length (se_cfg e) (sr_dec s3) (length accepted) (length (dr_tokens drft)))\<rparr>))"
      unfolding speculate_def v Inr ac s1_def by (simp add: Let_def split: sum.split prod.split)
    obtain k s2 where k: "kv_sync e s1 (length (dr_tokens drft)) (length accepted) (correction \<noteq> None) = (k, s2)" by fastforce
    obtain u where ku: "k = Inr u" using assms unfolding eq k by (cases k) auto
    note fr = kv_sync_frame [OF k]
    obtain rt hist deliv where em: "emit_tokens (be_is_eog (se_B e)) (se_cb e) (max_out (se_gen e)) (be_context_length (se_B e))
        (?nt accepted correction) (sr_history s) (sr_delivered s) = (rt, hist, deliv)" using prod_cases3 by blast
    show ?thesis
      by (rule that [OF v [unfolded Inr ac] s1(1,2) k [unfolded ku unit_eq [of u]]])
        (use assms [unfolded eq k] em fr s1 in \<open>auto simp: ku Let_def split: if_splits sum.splits\<close>)
  qed
qed

lemma verify_batch_nonempty:
  assumes "verify_batch uniform gen B cur drft history rng b = (Inr (accepted, correction), rng', b')"
  shows "accepted @ (case correction of None \<Rightarrow> [] | Some t \<Rightarrow> [t]) \<noteq> []"
  using assms verify_loop_length
  by (fastforce simp: verify_batch_def Let_def split: sum.splits prod.splits if_splits option.splits)

lemma speculate_progress:
  assumes "speculate e s drft = (Inr False, s')"
  shows "length (sr_delivered s) < length (sr_delivered s')"
  using assms
proof (cases rule: speculateE)
  case (1 accepted correction arng b1 s1 s2 hist deliv)
  then show ?thesis using emit_tokens_progress [OF 1(5) verify_batch_nonempty [OF 1(1)]] by simp
qed

lemma plain_step_progress:
  assumes "plain_step e s = (Inr False, s')"
  shows "length (sr_delivered s) < length (sr_delivered s')"
  using assms by (auto simp: plain_step_def Let_def split: sum.splits prod.splits if_splits)

lemma deactivate_simps [simp]:
  "sr_delivered (deactivate s) = sr_delivered s" "sr_history (deactivate s) = sr_history s"
  "sr_cur (deactivate s) = sr_cur s" "sr_target (deactivate s) = sr_target s" "sr_base (deactivate s) = sr_base s"
  "sr_skip (deactivate s) = sr_skip s" "sd_active (sr_dec (deactivate s)) = False"
  by (simp_all add: deactivate_def)

lemma spec_measure_progress:
  "length (sr_delivered s) < max_out (se_gen e) \<Longrightarrow> length (sr_delivered s) < length (sr_delivered s') \<Longrightarrow>
     spec_measure e s' < spec_measure e s"
  by (auto simp: spec_measure_def)

text \<open>What an iteration does: it drafts, or takes a step.\<close>

lemma spec_iter_cases:
  assumes "spec_iter e s0 = (r, s')"
  obtains (plain) s where "s = s0 \<or> s = deactivate s0" "plain_step e s = (r, s')"
    | (throws) n s x where "s = s0 \<or> s = deactivate s0" "make_draft e s n = (Inl x, s')" "r = Inl x"
    | (broken) n s where "s = s0 \<or> s = deactivate s0" "sd_active (sr_dec s)" "\<not> sr_skip s"
        "make_draft e s n = (Inr None, s')" "r = Inr False"
    | (empty) n s drft s1 where "s = s0 \<or> s = deactivate s0" "sd_active (sr_dec s)" "\<not> sr_skip s"
        "make_draft e s n = (Inr (Some drft), s1)" "r = Inr False"
        "s' = deactivate s1 \<or> s' = s1\<lparr>sr_skip := True\<rparr>"
    | (spec) n s drft s1 where "s = s0 \<or> s = deactivate s0"
        "make_draft e s n = (Inr (Some drft), s1)" "speculate e s1 drft = (r, s')"
proof -
  obtain c :: bool where "spec_iter e s0 = (let s = if c then deactivate s0 else s0 in
      if sd_active (sr_dec s) \<and> \<not> sr_skip s
      then let n_draft = min (sd_current_draft_tokens (sr_dec s)) (int (be_context_length (se_B e)) - int (length (sr_history s)))
           in case make_draft e s n_draft of
                (Inl x, s1) \<Rightarrow> (Inl x, s1)
              | (Inr None, s1) \<Rightarrow> (Inr False, s1)
              | (Inr (Some drft), s1) \<Rightarrow>
                  if dr_tokens drft = []
                  then (Inr False, if sc_mode (se_cfg e) = ModelDraft then deactivate s1 else s1\<lparr>sr_skip := True\<rparr>)
                  else speculate e s1 drft
      else plain_step e s)"
    unfolding spec_iter_def Let_def by blast
  note eq = this [unfolded assms]
  define s where "s = (if c then deactivate s0 else s0)"
  have s: "s = s0 \<or> s = deactivate s0" by (simp add: s_def)
  show ?thesis
  proof (cases "sd_active (sr_dec s) \<and> \<not> sr_skip s")
    case False
    with eq plain [OF s] show ?thesis by (simp add: s_def [symmetric])
  next
    case True
    let ?n = "min (sd_current_draft_tokens (sr_dec s)) (int (be_context_length (se_B e)) - int (length (sr_history s)))"
    obtain m s1 where md: "make_draft e s ?n = (m, s1)" by fastforce
    consider x where "m = Inl x" | "m = Inr None" | d where "m = Inr (Some d)"
      by (metis old.sum.exhaust option.exhaust)
    then show ?thesis
    proof cases
      case 1
      with True md eq throws [OF s] show ?thesis by (simp add: s_def [symmetric])
    next
      case 2
      with True md eq broken [OF s] show ?thesis by (simp add: s_def [symmetric])
    next
      case (3 d)
      show ?thesis
      proof (cases "dr_tokens d = []")
        case [simp]: True
        show ?thesis
          using \<open>sd_active (sr_dec s) \<and> \<not> sr_skip s\<close> md eq 3
          by (intro empty [OF s]) (auto simp: s_def [symmetric] split: if_splits)
      next
        case [simp]: False
        show ?thesis
          using \<open>sd_active (sr_dec s) \<and> \<not> sr_skip s\<close> md eq 3
          by (intro spec [OF s]) (auto simp: s_def [symmetric] split: if_splits)
      qed
    qed
  qed
qed

lemma spec_iter_decreases:
  assumes "spec_iter e s = (Inr False, s')" and "length (sr_delivered s) < max_out (se_gen e)"
  shows "spec_measure e s' < spec_measure e s"
  using assms(1)
proof (cases rule: spec_iter_cases)
  case (plain s1)
  from plain_step_progress [OF plain(2)] plain(1) show ?thesis
    by (intro spec_measure_progress [OF assms(2)]) auto
next
  case (broken n s1)
  from make_draft_frame [OF broken(4)] broken(1-3) assms(2) show ?thesis by (auto simp: spec_measure_def)
next
  case (empty n s1 drft s2)
  from make_draft_frame [OF empty(4)] empty(1-3,6) assms(2) show ?thesis by (auto simp: spec_measure_def)
next
  case (spec n s1 drft s2)
  from speculate_progress [OF spec(3)] make_draft_frame [OF spec(2)] spec(1) show ?thesis
    by (intro spec_measure_progress [OF assms(2)]) auto
qed simp

lemma spec_loop_ends: "spec_measure e s < fuel \<Longrightarrow> spec_loop e fuel s \<noteq> None"
proof (induction fuel arbitrary: s)
  case (Suc fuel)
  show ?case
  proof (cases "length (sr_delivered s) < max_out (se_gen e) \<and> length (sr_history s) < be_context_length (se_B e)")
    case True
    have "spec_loop e fuel s1 \<noteq> None" if "spec_iter e s = (Inr False, s1)" for s1
      using Suc.IH [of s1] spec_iter_decreases [OF that] True Suc.prems by auto
    with True show ?thesis
      by (subst spec_loop.simps) (auto split: sum.splits prod.splits bool.splits)
  qed (subst spec_loop.simps, simp)
qed simp

section \<open>Greedy decoding is unchanged\<close>

text \<open>
  A greedy run: temperature 0, logits over the whole vocabulary, token ids that fit, random
  numbers in the unit interval.
\<close>

definition greedy_env :: "('b, 'd, 'r) spec_env \<Rightarrow> (tokens \<Rightarrow> logits) \<Rightarrow> bool" where
  "greedy_env e eval \<longleftrightarrow>
     gc_temperature (se_gen e) \<le> 0 \<and> 0 < be_vocab_size (se_B e) \<and> be_vocab_size (se_B e) < 2 ^ 31 \<and>
     (\<forall>ts. length (eval ts) = be_vocab_size (se_B e)) \<and>
     (\<forall>r. 0 \<le> fst (se_uniform e r) \<and> fst (se_uniform e r) < 1) \<and>
     (\<forall>D d ts l d'. se_D e = Some D \<and> be_decode_append D d ts = (Inr l, d') \<longrightarrow> length l < 2 ^ 31)"

lemma greedy_envD:
  assumes "greedy_env e eval"
  shows "gc_temperature (se_gen e) \<le> 0"
    and "se_D e = Some D \<Longrightarrow> be_decode_append D d ts = (Inr l, d') \<Longrightarrow> length l < 2 ^ 31"
  using assms unfolding greedy_env_def by blast+

text \<open>The reference output from a state of the run.\<close>

definition spec_ref :: "('b, 'd, 'r) spec_env \<Rightarrow> (tokens \<Rightarrow> logits) \<Rightarrow> ('b, 'd, 'r) spec_run \<Rightarrow> tokens" where
  "spec_ref e eval s =
     greedy_ref (se_gen e) eval (be_is_eog (se_B e)) (se_cb e) (be_context_length (se_B e))
       (max_out (se_gen e) - length (sr_delivered s)) (sr_history s) (sr_delivered s)"

abbreviation spec_continues :: "('b, 'd, 'r) spec_env \<Rightarrow> ('b, 'd, 'r) spec_run \<Rightarrow> bool" where
  "spec_continues e s \<equiv> may_go_on (max_out (se_gen e)) (be_context_length (se_B e)) (sr_history s) (sr_delivered s)"

text \<open>
  The KV invariant of the source: the target holds every token of the history but the newest,
  which is the current one.
\<close>

definition kv_inv :: "('b \<Rightarrow> bool) \<Rightarrow> ('b \<Rightarrow> tokens) \<Rightarrow> ('b, 'd, 'r) spec_run \<Rightarrow> bool" where
  "kv_inv ok kv s \<longleftrightarrow> sr_history s \<noteq> [] \<and> ok (sr_target s) \<and> kv (sr_target s) = butlast (sr_history s) \<and>
     sr_cur s = last (sr_history s) \<and> sr_base s = length (sr_history s) - 1"

definition spec_inv :: "('b, 'd, 'r) spec_env \<Rightarrow> ('b \<Rightarrow> bool) \<Rightarrow> ('b \<Rightarrow> tokens) \<Rightarrow> (tokens \<Rightarrow> logits) \<Rightarrow> tokens \<Rightarrow> ('b, 'd, 'r) spec_run \<Rightarrow> bool" where
  "spec_inv e ok kv eval R s \<longleftrightarrow> (spec_continues e s \<longrightarrow> kv_inv ok kv s) \<and> spec_ref e eval s = R"

lemma spec_inv_frame:
  assumes "spec_inv e ok kv eval R s" and "sr_target s' = sr_target s" and "sr_history s' = sr_history s"
    and "sr_delivered s' = sr_delivered s" and "sr_cur s' = sr_cur s" and "sr_base s' = sr_base s"
  shows "spec_inv e ok kv eval R s'"
  using assms by (simp add: spec_inv_def kv_inv_def spec_ref_def)

lemma greedy_draw:
  assumes "gc_temperature gen \<le> 0" and "distribution gen logits history = Inr probs"
    and "draw uniform probs rng = (Inr t, rng')" and "length logits < 2 ^ 31"
  shows "unat t < length probs \<and> probs = one_hot (length probs) (unat t)"
proof -
  have ne: "logits \<noteq> []" using assms(2) by (auto simp: distribution_def)
  from greedy_distribution [OF assms(1) this assms(4), of history] assms(2)
  have p: "probs = one_hot (length logits) (unat (greedy_token gen logits history))"
    and g: "unat (greedy_token gen logits history) < length logits" by simp_all
  have "t = word_of_nat (unat (greedy_token gen logits history))"
    using assms(3) by (auto simp: draw_def p draw_loop_one_hot [OF g] split: if_splits prod.splits)
  then show ?thesis using p g by simp
qed

lemma draft_rollout_certain:
  assumes "gc_temperature gen \<le> 0" and "\<And>d ts l d'. be_decode_append D d ts = (Inr l, d') \<Longrightarrow> length l < 2 ^ 31"
  shows "draft_rollout uniform gen D n cur history res rng d = (Inr r, rng', d') \<Longrightarrow> certain_draft res \<Longrightarrow> certain_draft r"
proof (induction n arbitrary: cur history res rng d)
  case (Suc n)
  from Suc.prems(1) obtain logits d1 probs nxt rng1 where
    l: "be_decode_append D d [cur] = (Inr logits, d1)" and p: "distribution gen logits history = Inr probs"
    and n: "draw uniform probs rng = (Inr nxt, rng1)"
    by (auto simp: Let_def split: sum.splits prod.splits)
  let ?res = "\<lparr>dr_tokens = dr_tokens res @ [nxt], dr_probs = dr_probs res @ [probs]\<rparr>"
  have "certain_draft ?res"
    using greedy_draw [OF assms(1) p n assms(2) [OF l]] Suc.prems(2)
    by (auto simp: certain_draft_def intro!: list_all2_appendI)
  then show ?case using Suc.IH [of nxt "history @ [nxt]" ?res rng1 d1] Suc.prems(1) l p n
    by (auto simp: Let_def split: if_splits)
qed simp

lemma make_draft_certain:
  assumes "greedy_env e eval" and "make_draft e s n = (Inr (Some drft), s')"
  shows "certain_draft drft"
proof (cases "sc_mode (se_cfg e) = ModelDraft \<and> se_D e \<noteq> None")
  case True
  then obtain D where D: "sc_mode (se_cfg e) = ModelDraft" "se_D e = Some D" by auto
  with assms(2) obtain n rng1 d1 where
    r: "draft_rollout (se_uniform e) (se_gen e) D n (sr_cur s) (sr_history s) \<lparr>dr_tokens = [], dr_probs = []\<rparr> (sr_rng s)
      (sr_draft s) = (Inr drft, rng1, d1)"
    by (auto simp: make_draft_def generate_draft_def split: sum.splits prod.splits)
  show ?thesis
    by (rule draft_rollout_certain [OF greedy_envD(1) [OF assms(1)] greedy_envD(2) [OF assms(1) D(2)] r])
       (simp_all add: certain_draft_def)
next
  case False
  with assms(2) obtain toks where "list_all (\<lambda>t. unat t < be_vocab_size (se_B e)) toks"
    "drft = \<lparr>dr_tokens = toks, dr_probs = map (\<lambda>t. one_hot (be_vocab_size (se_B e)) (unat t)) toks\<rparr>"
    by (cases "sc_mode (se_cfg e)"; cases "se_D e") (auto simp: make_draft_def split: sum.splits if_splits)
  then show ?thesis by (auto simp: certain_draft_def list_all2_map2 list_all_iff intro: list.rel_refl_strong)
qed

lemma butlast_last_append: "xs \<noteq> [] \<Longrightarrow> butlast xs @ last xs # ts = xs @ ts"
  by (induction xs) auto

lemma certain_draft_lengths: "certain_draft r \<Longrightarrow> length (dr_tokens r) = length (dr_probs r)"
  by (auto simp: certain_draft_def dest: list_all2_lengthD)

context kv_backend
begin

lemma verify_batch_greedy:
  assumes e: "greedy_env e eval" "se_B e = B" and inv: "kv_inv ok kv s" and c: "certain_draft drft"
    and v: "verify_batch (se_uniform e) (se_gen e) B (sr_cur s) drft (sr_history s) (sr_arng s) (sr_target s)
      = (Inr (accepted, correction), arng, b1)"
  shows "ok b1 \<and> kv b1 = sr_history s @ butlast (dr_tokens drft) \<and>
    greedy_path (se_gen e) eval (sr_history s) (accepted @ (case correction of None \<Rightarrow> [] | Some t \<Rightarrow> [t])) \<and>
    (case correction of None \<Rightarrow> accepted = dr_tokens drft
     | Some _ \<Rightarrow> accepted = take (length accepted) (dr_tokens drft) \<and> length accepted < length (dr_tokens drft))"
proof -
  let ?ds = "dr_tokens drft"
  from v obtain ls where ne: "?ds \<noteq> []"
    and d: "be_decode_batch B (sr_target s) (sr_cur s # butlast ?ds) = (Inr ls, b1)"
    and l: "verify_loop (se_uniform e) (se_gen e) (zip ?ds (zip ls (dr_probs drft))) (sr_history s) [] (sr_arng s)
        = (Inr (accepted, correction), arng)"
    by (auto simp: verify_batch_def Let_def split: if_splits sum.splits prod.splits)
  from batch_kv [OF _ d] inv have b1: "ok b1" "kv b1 = sr_history s @ butlast ?ds"
    and ls: "ls = map (\<lambda>i. eval (sr_history s @ take i (butlast ?ds))) [0..<length ?ds]"
    using ne by (auto simp: kv_inv_def butlast_last_append)
  have "\<forall>i<length ?ds. ls ! i = eval (sr_history s @ take i ?ds)"
    by (auto simp: ls take_butlast)
  from verify_loop_accepts [OF _ _ _ _ _ l _ _ this] e c ne ls
  have "\<exists>as. accepted = [] @ as \<and> as = take (length as) ?ds \<and> greedy_path (se_gen e) eval (sr_history s) as \<and>
      (case correction of None \<Rightarrow> as = ?ds
       | Some t \<Rightarrow> t = greedy_token (se_gen e) (eval (sr_history s @ as)) (sr_history s @ as) \<and> length as < length ?ds)"
    by (simp add: greedy_env_def certain_draft_def)
  with b1 show ?thesis by (auto simp: greedy_path_snoc split: option.splits)
qed

lemma kv_sync_kv:
  assumes "se_B e = B" and "kv_sync e s n a c = (Inr u, s')" and "ok (sr_target s)"
  shows "ok (sr_target s') \<and> kv (sr_target s') = (if c then take (sr_base s + 1 + a) (kv (sr_target s)) else kv (sr_target s)) \<and>
    sr_base s' = (if c then sr_base s + 1 + a else sr_base s + n)"
  using assms truncate_kv
  by (auto simp: kv_sync_def Let_def split: if_splits sum.splits prod.splits spec_mode.splits option.splits)

lemma speculate_inv:
  assumes e: "greedy_env e eval" "se_B e = B" and inv: "spec_inv e ok kv eval R s" and go: "spec_continues e s"
    and c: "certain_draft drft" and sp: "speculate e s drft = (Inr ret, s')"
  shows "if ret then sr_delivered s' = R else spec_inv e ok kv eval R s'"
  using sp
proof (cases rule: speculateE)
  case (1 accepted correction arng b1 s1 s2 hist deliv)
  let ?nt = "accepted @ (case correction of None \<Rightarrow> [] | Some t \<Rightarrow> [t])" and ?ds = "dr_tokens drft"
  have kvi: "kv_inv ok kv s" and R: "spec_ref e eval s = R" using inv go by (simp_all add: spec_inv_def)
  note vb = verify_batch_greedy [OF e kvi c 1(1) [unfolded e(2)]]
  have ne: "?nt \<noteq> []" by (rule verify_batch_nonempty [OF 1(1)])
  from kv_sync_kv [OF e(2) 1(4)] vb 1(2)
  have s2: "ok (sr_target s2)" "kv (sr_target s2) = (if correction \<noteq> None then take (sr_base s + 1 + length accepted)
      (sr_history s @ butlast ?ds) else sr_history s @ butlast ?ds)"
    "sr_base s2 = (if correction \<noteq> None then sr_base s + 1 + length accepted else sr_base s + length ?ds)"
    by (simp_all add: 1(3))
  have hist: "sr_history s \<noteq> []" "Suc (sr_base s) = length (sr_history s)" using kvi by (auto simp: kv_inv_def)
  have kv2: "kv (sr_target s2) = butlast (sr_history s @ ?nt)" "sr_base s2 = length (sr_history s @ ?nt) - 1"
    using vb hist ne by (auto simp: s2 butlast_append take_butlast split: option.splits)
  note em = emit_tokens_greedy [OF _ _ 1(5), of "se_gen e" eval, unfolded Let_def]
  show ?thesis
  proof (cases ret)
    case True
    with em vb go R show ?thesis by (simp add: spec_ref_def 1(7))
  next
    case False
    from em [unfolded if_not_P [OF False]] vb go obtain k where k: "k \<le> length ?nt" "hist = sr_history s @ take k ?nt"
      "deliv = sr_delivered s @ take k ?nt"
      "k = length ?nt \<or> \<not> may_go_on (max_out (se_gen e)) (be_context_length (se_B e)) hist deliv"
      "spec_ref e eval s' = R"
      unfolding spec_ref_def 1(6,7) R [symmetric] by blast
    have "kv_inv ok kv s'" if "k = length ?nt"
      using that k(2) ne hist(1) kv2 s2(1) 1(6,8-10) by (auto simp: kv_inv_def)
    with k(4,5) False show ?thesis by (auto simp: spec_inv_def 1(6,7))
  qed
qed

lemma plain_step_inv:
  assumes e: "greedy_env e eval" "se_B e = B" and inv: "spec_inv e ok kv eval R s" and go: "spec_continues e s"
    and p: "plain_step e s = (Inr ret, s')"
  shows "if ret then sr_delivered s' = R else spec_inv e ok kv eval R s'"
proof -
  have kvi: "kv_inv ok kv s" and R: "spec_ref e eval s = R" using inv go by (simp_all add: spec_inv_def)
  from p obtain logits b1 where d: "be_decode_append B (sr_target s) [sr_cur s] = (Inr logits, b1)"
    by (auto simp: plain_step_def Let_def e(2) split: sum.splits prod.splits)
  from append_kv [OF _ d] kvi have b1: "ok b1" "kv b1 = sr_history s" "logits = eval (sr_history s)"
    by (auto simp: kv_inv_def)
  have ne: "logits \<noteq> []" using e(1) b1(3) by (metis greedy_env_def length_0_conv less_numeral_extra(3))
  define t where "t = greedy_token (se_gen e) (eval (sr_history s)) (sr_history s)"
  have sm: "sample (se_uniform e) (se_gen e) logits (sr_history s) (sr_rng s) = (Inr t, sr_rng s)"
    unfolding t_def b1(3) [symmetric] by (rule sample_greedy [OF greedy_envD(1) [OF e(1)] ne])
  note step = greedy_ref_step [where eval = eval and eog = "be_is_eog (se_B e)" and cb = "se_cb e", OF go t_def,
      folded spec_ref_def, unfolded R]
  show ?thesis
    using p kvi d sm step b1
    by (auto simp: plain_step_def Let_def e(2) spec_inv_def kv_inv_def spec_ref_def butlast_append split: if_splits sum.splits)
qed

lemma spec_iter_inv:
  assumes e: "greedy_env e eval" "se_B e = B" and inv: "spec_inv e ok kv eval R s" and go: "spec_continues e s"
    and it: "spec_iter e s = (Inr ret, s')"
  shows "if ret then sr_delivered s' = R else spec_inv e ok kv eval R s'"
proof -
  have fr: "spec_inv e ok kv eval R s1 \<and> spec_continues e s1" if "s1 = s \<or> s1 = deactivate s" for s1
    using that inv go by (auto intro: spec_inv_frame)
  from it show ?thesis
  proof (cases rule: spec_iter_cases)
    case (plain s1)
    with fr [OF plain(1)] plain_step_inv [OF e] show ?thesis by blast
  next
    case (broken n s1)
    with fr [OF broken(1)] make_draft_frame [OF broken(4)] show ?thesis by (auto intro: spec_inv_frame)
  next
    case (empty n s1 drft s2)
    with fr [OF empty(1)] make_draft_frame [OF empty(4)] have "spec_inv e ok kv eval R s2" by (auto intro: spec_inv_frame)
    with empty(5,6) show ?thesis by (auto intro: spec_inv_frame)
  next
    case (spec n s1 drft s2)
    from fr [OF spec(1)] make_draft_frame [OF spec(2)] have "spec_inv e ok kv eval R s2" "spec_continues e s2"
      by (auto intro: spec_inv_frame)
    from speculate_inv [OF e this make_draft_certain [OF e(1) spec(2)] spec(3)] show ?thesis .
  qed simp
qed

lemma spec_loop_inv:
  assumes e: "greedy_env e eval" "se_B e = B"
  shows "spec_inv e ok kv eval R s \<Longrightarrow> spec_loop e fuel s = Some (Inr u, s') \<Longrightarrow> sr_delivered s' = R"
proof (induction fuel arbitrary: s)
  case 0
  then have "\<not> spec_continues e s" "s' = s"
    by (auto simp: spec_loop.simps [of e 0] may_go_on_def split: if_splits)
  with 0 greedy_ref_stop show ?case by (simp add: spec_inv_def spec_ref_def)
next
  case (Suc fuel)
  show ?case
  proof (cases "spec_continues e s")
    case False
    with Suc.prems greedy_ref_stop [OF False] show ?thesis
      by (auto simp: spec_loop.simps [of e "Suc fuel"] spec_inv_def spec_ref_def may_go_on_def split: if_splits)
  next
    case True
    obtain r s1 where it: "spec_iter e s = (r, s1)" by fastforce
    from Suc.prems(2) True it obtain b where r: "r = Inr b"
      by (cases r) (auto simp: spec_loop.simps [of e "Suc fuel"] may_go_on_def)
    note si = spec_iter_inv [OF e Suc.prems(1) True it [unfolded r]]
    show ?thesis
      using Suc.prems(2) True it r si Suc.IH [of s1]
      by (cases b) (auto simp: spec_loop.simps [of e "Suc fuel"] may_go_on_def)
  qed
qed

end

lemma target_prefill_kv:
  assumes "kv_backend B ok kv eval" and "target_prefill B history base kv_ready b = (Inr u, b')"
    and "kv_ready \<le> base" and "base \<le> length history" and "kv_ready = 0 \<or> ok b \<and> kv b = take kv_ready history"
  shows "ok b' \<and> kv b' = take base history"
proof -
  note reset = kv_backend.reset_kv [OF assms(1)] and append = kv_backend.append_kv [OF assms(1)]
  have split: "take kv_ready history @ take (base - kv_ready) (drop kv_ready history) = take base history"
    using assms(3) by (metis le_add_diff_inverse take_add)
  show ?thesis
  proof (cases "kv_ready = 0 \<and> base = 0 \<or> kv_ready \<noteq> 0 \<and> base \<le> kv_ready")
    case True
    with assms(2,3,5) reset show ?thesis by (auto simp: target_prefill_def Let_def)
  next
    case False
    define b0 where "b0 = (if kv_ready = 0 then be_reset B b else b)"
    have b0: "ok b0" "kv b0 = take kv_ready history" using assms(5) reset by (auto simp: b0_def)
    have "\<exists>l. be_decode_append B b0 (take (base - kv_ready) (drop kv_ready history)) = (Inr l, b')"
      using assms(2) False
      by (cases "be_decode_append B b0 (take (base - kv_ready) (drop kv_ready history))")
         (auto simp: target_prefill_def Let_def b0_def split: if_splits sum.splits)
    with append [OF b0(1)] split b0(2) show ?thesis by force
  qed
qed

lemma spec_start_inv:
  assumes K: "kv_backend (se_B e) ok kv eval" and "prompt \<noteq> []"
    and "kv_ready = 0 \<or> ok b \<and> kv b = take kv_ready prompt"
    and "spec_start e dec prompt kv_ready rng arng b d = (Inr u, s)"
  shows "kv_inv ok kv s \<and> sr_history s = prompt \<and> sr_delivered s = []"
proof -
  from assms(4) obtain b1 where le: "kv_ready \<le> length prompt - 1"
    and p: "target_prefill (se_B e) prompt (length prompt - 1) kv_ready b = (Inr (), b1)"
    and s: "sr_target s = b1" "sr_history s = prompt" "sr_cur s = last prompt" "sr_base s = length prompt - 1"
      "sr_delivered s = []"
    by (auto simp: spec_start_def Let_def split: if_splits sum.splits prod.splits bool.splits spec_mode.splits option.splits)
  from target_prefill_kv [OF K p le _ assms(3)] show ?thesis
    using s assms(2) by (simp add: kv_inv_def butlast_conv_take)
qed

lemma spec_generate_ends: "spec_generate_stream e dec prompt kv_ready rng arng b d \<noteq> None"
proof -
  have "sr_delivered s = []" if "spec_start e dec prompt kv_ready rng arng b d = (Inr u, s)" for u s
    using that
    by (auto simp: spec_start_def Let_def split: if_splits sum.splits prod.splits bool.splits spec_mode.splits option.splits)
  then have "spec_loop e (spec_fuel (se_gen e)) s \<noteq> None"
    if "spec_start e dec prompt kv_ready rng arng b d = (Inr u, s)" for u s
    using that by (intro spec_loop_ends) (auto simp: spec_measure_def spec_fuel_def)
  then show ?thesis by (auto simp: spec_generate_stream_def Let_def split: sum.splits prod.splits option.splits)
qed

lemma spec_generate_greedy:
  assumes K: "kv_backend (se_B e) ok kv eval" and e: "greedy_env e eval"
    and kv: "kv_ready = 0 \<or> ok b \<and> kv b = take kv_ready prompt"
    and g: "spec_generate_stream e dec prompt kv_ready rng arng b d = Some (Inr u, s, corpus)"
  shows "sr_delivered s = greedy_ref (se_gen e) eval (be_is_eog (se_B e)) (se_cb e) (be_context_length (se_B e))
    (max_out (se_gen e)) prompt []"
proof -
  from g obtain s0 where ne: "prompt \<noteq> []" and s0: "spec_start e dec prompt kv_ready rng arng b d = (Inr (), s0)"
    and l: "spec_loop e (spec_fuel (se_gen e)) s0 = Some (Inr u, s)"
    by (auto simp: spec_generate_stream_def Let_def split: if_splits sum.splits prod.splits option.splits)
  from spec_start_inv [OF K ne kv s0]
  have "spec_inv e ok kv eval (spec_ref e eval s0) s0" "sr_history s0 = prompt" "sr_delivered s0 = []"
    by (simp_all add: spec_inv_def)
  with kv_backend.spec_loop_inv [OF K e refl this(1) l] show ?thesis by (simp add: spec_ref_def)
qed

section \<open>The KV cache when a generation ends\<close>

text \<open>
  At any temperature: whatever way the loop ends, the KV cache of the target and the prompt with
  the delivered tokens agree as far as both go.
\<close>

definition comparable :: "tokens \<Rightarrow> tokens \<Rightarrow> bool" where
  "comparable xs ys \<longleftrightarrow> (\<exists>zs m n. xs = take m zs \<and> ys = take n zs)"

lemma comparable_same_length: "comparable xs ys \<Longrightarrow> length xs = length ys \<Longrightarrow> xs = ys"
  by (auto simp: comparable_def min_def split: if_splits)

lemma comparableI: "xs = take m zs \<Longrightarrow> ys = take n zs \<Longrightarrow> comparable xs ys"
  unfolding comparable_def by blast

lemma emit_tokens_prefix:
  "emit_tokens eog cb budget n_ctx ts history delivered = (Inr ret, history', delivered') \<Longrightarrow>
     \<exists>k \<le> length ts. delivered' = delivered @ take k ts \<and>
       (\<not> ret \<longrightarrow> history' = history @ take k ts \<and> (k = length ts \<or> \<not> may_go_on budget n_ctx history' delivered'))"
proof (induction ts arbitrary: history delivered)
  case (Cons t ts)
  consider "eog t" | "\<not> eog t" "cb (delivered @ [t]) \<noteq> Inr True"
    | "\<not> eog t" "cb (delivered @ [t]) = Inr True" "\<not> may_go_on budget n_ctx (history @ [t]) (delivered @ [t])"
    | "\<not> eog t" "cb (delivered @ [t]) = Inr True" "may_go_on budget n_ctx (history @ [t]) (delivered @ [t])" by blast
  then show ?case
  proof cases
    case 1
    with Cons.prems show ?thesis by auto
  next
    case 2
    with Cons.prems show ?thesis by (auto split: sum.splits intro!: exI [of _ 1])
  next
    case 3
    with Cons.prems show ?thesis by (auto simp: may_go_on_def split: if_splits intro!: exI [of _ 1])
  next
    case 4
    with Cons.prems have "emit_tokens eog cb budget n_ctx ts (history @ [t]) (delivered @ [t]) = (Inr ret, history', delivered')"
      by (auto simp: may_go_on_def split: if_splits)
    from Cons.IH [OF this] obtain k where k: "k \<le> length ts" "delivered' = (delivered @ [t]) @ take k ts"
      "\<not> ret \<longrightarrow> history' = (history @ [t]) @ take k ts \<and> (k = length ts \<or> \<not> may_go_on budget n_ctx history' delivered')" by blast
    have "Suc k \<le> length (t # ts)" "delivered' = delivered @ take (Suc k) (t # ts)"
      "\<not> ret \<longrightarrow> history' = history @ take (Suc k) (t # ts) \<and> (Suc k = length (t # ts) \<or> \<not> may_go_on budget n_ctx history' delivered')"
      using k by auto
    then show ?thesis by blast
  qed
qed simp

lemma verify_loop_prefix:
  "\<lbrakk>verify_loop uniform gen (zip ds (zip ls ps)) history acc rng = (Inr (acc', corr), rng'); length ds \<le> length ls; length ds \<le> length ps\<rbrakk> \<Longrightarrow>
    \<exists>k. acc' = acc @ take k ds \<and> (case corr of None \<Rightarrow> k = length ds | Some _ \<Rightarrow> k < length ds)"
proof (induction ds arbitrary: ls ps history acc rng)
  case (Cons d ds)
  from Cons.prems(2,3) obtain l ls' p ps' where lp: "ls = l # ls'" "ps = p # ps'" by (cases ls; cases ps) auto
  obtain r rng1 where u: "uniform rng = (r, rng1)" by fastforce
  from Cons.prems(1) consider "corr \<noteq> None" "acc' = acc"
    | "verify_loop uniform gen (zip ds (zip ls' ps')) (history @ [d]) (acc @ [d]) rng1 = (Inr (acc', corr), rng')"
    by (auto simp: lp u Let_def split: sum.splits if_splits prod.splits)
  then show ?case
  proof cases
    case 1
    then show ?thesis by (intro exI [of _ 0]) auto
  next
    case 2
    from Cons.IH [OF this] Cons.prems(2,3) obtain k where "acc' = (acc @ [d]) @ take k ds"
      "case corr of None \<Rightarrow> k = length ds | Some _ \<Rightarrow> k < length ds" by (auto simp: lp)
    then show ?thesis by (intro exI [of _ "Suc k"]) (auto split: option.splits)
  qed
qed auto

text \<open>The invariant of the run, and what is left of it when the loop is over.\<close>

definition run_inv :: "('b, 'd, 'r) spec_env \<Rightarrow> ('b \<Rightarrow> bool) \<Rightarrow> ('b \<Rightarrow> tokens) \<Rightarrow> tokens \<Rightarrow> ('b, 'd, 'r) spec_run \<Rightarrow> bool" where
  "run_inv e ok kv prompt s \<longleftrightarrow>
     (spec_continues e s \<longrightarrow> kv_inv ok kv s) \<and> sr_history s = prompt @ sr_delivered s \<and> ok (sr_target s) \<and>
     comparable (kv (sr_target s)) (sr_history s)"

definition run_over :: "('b \<Rightarrow> bool) \<Rightarrow> ('b \<Rightarrow> tokens) \<Rightarrow> tokens \<Rightarrow> ('b, 'd, 'r) spec_run \<Rightarrow> bool" where
  "run_over ok kv prompt s \<longleftrightarrow> ok (sr_target s) \<and> comparable (kv (sr_target s)) (prompt @ sr_delivered s)"

lemma run_inv_over: "run_inv e ok kv prompt s \<Longrightarrow> run_over ok kv prompt s"
  by (auto simp: run_inv_def run_over_def)

lemma run_inv_frame:
  assumes "run_inv e ok kv prompt s" and "sr_target s' = sr_target s" and "sr_history s' = sr_history s"
    and "sr_delivered s' = sr_delivered s" and "sr_cur s' = sr_cur s" and "sr_base s' = sr_base s"
  shows "run_inv e ok kv prompt s'"
  using assms(1) unfolding run_inv_def kv_inv_def assms(2-6) .

context kv_backend
begin

lemma verify_batch_kv:
  assumes inv: "kv_inv ok kv s"
    and v: "verify_batch uniform gen B (sr_cur s) drft (sr_history s) rng (sr_target s) = (Inr (accepted, correction), rng', b1)"
  shows "ok b1 \<and> kv b1 = sr_history s @ butlast (dr_tokens drft) \<and>
    (case correction of None \<Rightarrow> accepted = dr_tokens drft
     | Some _ \<Rightarrow> accepted = take (length accepted) (dr_tokens drft) \<and> length accepted < length (dr_tokens drft))"
proof -
  let ?ds = "dr_tokens drft"
  from v obtain ls where ne: "?ds \<noteq> []"
    and d: "be_decode_batch B (sr_target s) (sr_cur s # butlast ?ds) = (Inr ls, b1)"
    and len: "length ?ds \<le> length ls" "length ?ds \<le> length (dr_probs drft)"
    and l: "verify_loop uniform gen (zip ?ds (zip ls (dr_probs drft))) (sr_history s) [] rng = (Inr (accepted, correction), rng')"
    by (auto simp: verify_batch_def Let_def split: if_splits sum.splits prod.splits)
  from batch_kv [OF _ d] inv have "ok b1" "kv b1 = sr_history s @ butlast ?ds"
    using ne by (auto simp: kv_inv_def butlast_last_append)
  with verify_loop_prefix [OF l len] show ?thesis by (auto split: option.splits)
qed

lemma speculate_kv:
  assumes B: "se_B e = B" and inv: "run_inv e ok kv prompt s" and go: "spec_continues e s"
    and sp: "speculate e s drft = (Inr ret, s')"
  shows "if ret then run_over ok kv prompt s' else run_inv e ok kv prompt s'"
  using sp
proof (cases rule: speculateE)
  case (1 accepted correction arng b1 s1 s2 hist deliv)
  let ?nt = "accepted @ (case correction of None \<Rightarrow> [] | Some t \<Rightarrow> [t])" and ?ds = "dr_tokens drft"
  have kvi: "kv_inv ok kv s" and h: "sr_history s = prompt @ sr_delivered s" using inv go by (simp_all add: run_inv_def)
  note vb = verify_batch_kv [OF kvi 1(1) [unfolded B]]
  have ne: "?nt \<noteq> []" by (rule verify_batch_nonempty [OF 1(1)])
  from kv_sync_kv [OF B 1(4)] vb 1(2)
  have s2: "ok (sr_target s2)" "kv (sr_target s2) = (if correction \<noteq> None then take (sr_base s + 1 + length accepted)
      (sr_history s @ butlast ?ds) else sr_history s @ butlast ?ds)"
    "sr_base s2 = (if correction \<noteq> None then sr_base s + 1 + length accepted else sr_base s + length ?ds)"
    by (simp_all add: 1(3))
  have hist: "sr_history s \<noteq> []" "Suc (sr_base s) = length (sr_history s)" using kvi by (auto simp: kv_inv_def)
  have kv2: "kv (sr_target s2) = butlast (sr_history s @ ?nt)" "sr_base s2 = length (sr_history s @ ?nt) - 1"
    using vb hist ne by (auto simp: s2 butlast_append take_butlast split: option.splits)
  from emit_tokens_prefix [OF 1(5)] obtain k where k: "k \<le> length ?nt" "deliv = sr_delivered s @ take k ?nt"
    "\<not> ret \<longrightarrow> hist = sr_history s @ take k ?nt \<and>
      (k = length ?nt \<or> \<not> may_go_on (max_out (se_gen e)) (be_context_length (se_B e)) hist deliv)" by blast
  have cmp: "comparable (kv (sr_target s2)) (prompt @ deliv)"
    by (rule comparableI [of _ "length (sr_history s @ ?nt) - 1" "sr_history s @ ?nt" _ "length (sr_history s) + k"])
       (simp_all add: kv2 butlast_conv_take k(2) h)
  have "kv_inv ok kv s'" if "k = length ?nt" "\<not> ret"
    using that k(3) ne hist(1) kv2 s2(1) 1(6,8-10) by (auto simp: kv_inv_def)
  moreover have "hist = prompt @ deliv" if "\<not> ret" using that k(2,3) h by simp
  ultimately show ?thesis
    using cmp s2(1) k(3) by (auto simp: run_over_def run_inv_def 1(6-8))
qed

lemma plain_step_kv:
  assumes B: "se_B e = B" and inv: "run_inv e ok kv prompt s" and go: "spec_continues e s"
    and p: "plain_step e s = (Inr ret, s')"
  shows "if ret then run_over ok kv prompt s' else run_inv e ok kv prompt s'"
proof -
  have kvi: "kv_inv ok kv s" and h: "sr_history s = prompt @ sr_delivered s" using inv go by (simp_all add: run_inv_def)
  from p obtain logits b1 where d: "be_decode_append B (sr_target s) [sr_cur s] = (Inr logits, b1)"
    by (auto simp: plain_step_def Let_def B split: sum.splits prod.splits)
  from append_kv [OF _ d] kvi have b1: "ok b1" "kv b1 = sr_history s" by (auto simp: kv_inv_def)
  have cmp: "comparable (sr_history s) (sr_history s @ ts)" for ts
    by (rule comparableI [of _ "length (sr_history s)" "sr_history s @ ts" _ "length (sr_history s @ ts)"]) simp_all
  have "comparable (prompt @ sr_delivered s) (prompt @ sr_delivered s)" using cmp [of "[]"] h by simp
  moreover have "comparable (prompt @ sr_delivered s) (prompt @ sr_delivered s @ [t])" for t using cmp [of "[t]"] h by simp
  ultimately show ?thesis
    using p kvi d b1 h
    by (auto simp: plain_step_def Let_def B run_inv_def run_over_def kv_inv_def butlast_append split: if_splits sum.splits prod.splits)
qed

lemma spec_iter_kv:
  assumes B: "se_B e = B" and inv: "run_inv e ok kv prompt s" and go: "spec_continues e s"
    and it: "spec_iter e s = (Inr ret, s')"
  shows "if ret then run_over ok kv prompt s' else run_inv e ok kv prompt s'"
proof -
  have fr: "run_inv e ok kv prompt s1 \<and> spec_continues e s1" if "s1 = s \<or> s1 = deactivate s" for s1
    using that inv go by (auto intro: run_inv_frame)
  from it show ?thesis
  proof (cases rule: spec_iter_cases)
    case (plain s1)
    with fr [OF plain(1)] plain_step_kv [OF B] show ?thesis by blast
  next
    case (broken n s1)
    with fr [OF broken(1)] make_draft_frame [OF broken(4)] show ?thesis by (auto intro: run_inv_frame)
  next
    case (empty n s1 drft s2)
    with fr [OF empty(1)] make_draft_frame [OF empty(4)] have "run_inv e ok kv prompt s2" by (auto intro: run_inv_frame)
    with empty(5,6) show ?thesis by (auto intro: run_inv_frame)
  next
    case (spec n s1 drft s2)
    from fr [OF spec(1)] make_draft_frame [OF spec(2)] have "run_inv e ok kv prompt s2" "spec_continues e s2"
      by (auto intro: run_inv_frame)
    from speculate_kv [OF B this spec(3)] show ?thesis .
  qed simp
qed

lemma spec_loop_kv:
  assumes B: "se_B e = B"
  shows "run_inv e ok kv prompt s \<Longrightarrow> spec_loop e fuel s = Some (Inr u, s') \<Longrightarrow> run_over ok kv prompt s'"
proof (induction fuel arbitrary: s)
  case 0
  then have "s' = s" by (auto simp: spec_loop.simps [of e 0] split: if_splits)
  with 0 show ?case by (auto intro: run_inv_over)
next
  case (Suc fuel)
  show ?case
  proof (cases "spec_continues e s")
    case False
    with Suc.prems have "s' = s" by (auto simp: spec_loop.simps [of e "Suc fuel"] may_go_on_def split: if_splits)
    with Suc.prems show ?thesis by (auto intro: run_inv_over)
  next
    case True
    obtain r s1 where it: "spec_iter e s = (r, s1)" by fastforce
    from Suc.prems(2) True it obtain b where r: "r = Inr b"
      by (cases r) (auto simp: spec_loop.simps [of e "Suc fuel"] may_go_on_def)
    note si = spec_iter_kv [OF B Suc.prems(1) True it [unfolded r]]
    show ?thesis
      using Suc.prems(2) True it r si Suc.IH [of s1]
      by (cases b) (auto simp: spec_loop.simps [of e "Suc fuel"] may_go_on_def)
  qed
qed

end

lemma spec_generate_kv:
  assumes K: "kv_backend (se_B e) ok kv eval"
    and kv: "kv_ready = 0 \<or> ok b \<and> kv b = take kv_ready prompt"
    and g: "spec_generate_stream e dec prompt kv_ready rng arng b d = Some (Inr u, s, corpus)"
  shows "run_over ok kv prompt s"
proof -
  from g obtain s0 where ne: "prompt \<noteq> []" and s0: "spec_start e dec prompt kv_ready rng arng b d = (Inr (), s0)"
    and l: "spec_loop e (spec_fuel (se_gen e)) s0 = Some (Inr u, s)"
    by (auto simp: spec_generate_stream_def Let_def split: if_splits sum.splits prod.splits option.splits)
  from spec_start_inv [OF K ne kv s0] have i: "kv_inv ok kv s0" "sr_history s0 = prompt" "sr_delivered s0 = []" by simp_all
  have "comparable (kv (sr_target s0)) prompt"
    by (rule comparableI [of _ "length prompt - 1" prompt _ "length prompt"]) (use i in \<open>simp_all add: kv_inv_def butlast_conv_take\<close>)
  then have "run_inv e ok kv prompt s0" using i by (simp add: run_inv_def kv_inv_def)
  from kv_backend.spec_loop_kv [OF K refl this l] show ?thesis .
qed

section \<open>Prompt lookup\<close>

text \<open>An earlier occurrence of the last \<open>n\<close> tokens, followed by at least one token.\<close>

definition recurs_at :: "tokens \<Rightarrow> nat \<Rightarrow> nat \<Rightarrow> bool" where
  "recurs_at history n i \<longleftrightarrow> i + n < length history \<and> take n (drop i history) = drop (length history - n) history"

lemma lookup_at_spec:
  "start + n \<le> length history \<Longrightarrow>
   (case lookup_at history n k start of
      None \<Rightarrow> \<forall>i < start. \<not> recurs_at history n i
    | Some d \<Rightarrow> \<exists>i < start. recurs_at history n i \<and> (\<forall>j. i < j \<and> j < start \<longrightarrow> \<not> recurs_at history n j) \<and>
        d = take k (drop (i + n) history))"
proof (induction start)
  case (Suc start)
  show ?case
  proof (cases "recurs_at history n start")
    case True
    with Suc.prems show ?thesis
      by (auto simp: recurs_at_def min_def intro!: exI [of _ start])
  next
    case False
    with Suc.prems have "lookup_at history n k (Suc start) = lookup_at history n k start"
      by (auto simp: recurs_at_def)
    with Suc False show ?thesis by (auto simp: less_Suc_eq split: option.splits)
  qed
qed simp

lemma lookup_ngram_spec:
  assumes "0 < k" and "0 < min_n"
  shows "if lookup_ngram history k min_n n = [] then \<forall>m i. min_n \<le> m \<and> m \<le> n \<longrightarrow> \<not> recurs_at history m i
    else \<exists>m i. min_n \<le> m \<and> m \<le> n \<and> recurs_at history m i \<and> (\<forall>j>i. \<not> recurs_at history m j) \<and>
      (\<forall>m' j. m < m' \<and> m' \<le> n \<longrightarrow> \<not> recurs_at history m' j) \<and>
      lookup_ngram history k min_n n = take k (drop (i + m) history)"
proof (induction n)
  case 0
  with assms show ?case by simp
next
  case (Suc n)
  show ?case
  proof (cases "Suc n < min_n")
    case True
    then show ?thesis by auto
  next
    case ge: False
    have start: "(length history - Suc n) + Suc n \<le> length history" if "Suc n < length history" using that by simp
    show ?thesis
    proof (cases "\<exists>i. recurs_at history (Suc n) i")
      case False
      then have same: "lookup_ngram history k min_n (Suc n) = lookup_ngram history k min_n n"
        using ge lookup_at_spec [OF start, of k] by (auto split: option.splits)
      show ?thesis
      proof (cases "lookup_ngram history k min_n n = []")
        case True
        with Suc.IH False show ?thesis unfolding same by (auto simp: le_Suc_eq)
      next
        case ne: False
        from Suc.IH [unfolded if_not_P [OF ne]] obtain m i where "min_n \<le> m" "m \<le> n" "recurs_at history m i"
          "\<forall>j>i. \<not> recurs_at history m j" "\<forall>m' j. m < m' \<and> m' \<le> n \<longrightarrow> \<not> recurs_at history m' j"
          "lookup_ngram history k min_n n = take k (drop (i + m) history)" by blast
        with False show ?thesis unfolding same if_not_P [OF ne]
          by (intro exI [of _ m] exI [of _ i]) (auto simp: le_Suc_eq)
      qed
    next
      case True
      then have l: "Suc n < length history" by (auto simp: recurs_at_def)
      have lt: "i < length history - Suc n" if "recurs_at history (Suc n) i" for i
        using that by (auto simp: recurs_at_def)
      from lookup_at_spec [OF start [OF l], of k] True lt
      obtain d i where d: "lookup_at history (Suc n) k (length history - Suc n) = Some d" "recurs_at history (Suc n) i"
        "\<forall>j. i < j \<and> j < length history - Suc n \<longrightarrow> \<not> recurs_at history (Suc n) j" "d = take k (drop (i + Suc n) history)"
        by (cases "lookup_at history (Suc n) k (length history - Suc n)") auto
      have e: "lookup_ngram history k min_n (Suc n) = take k (drop (i + Suc n) history)" using ge l d by simp
      have "drop (i + Suc n) history \<noteq> []" using d(2) by (simp add: recurs_at_def)
      then have ne: "lookup_ngram history k min_n (Suc n) \<noteq> []" using assms(1) e by auto
      have "\<forall>j>i. \<not> recurs_at history (Suc n) j" using d(3) lt by blast
      moreover have "min_n \<le> Suc n" using ge by simp
      ultimately show ?thesis
        unfolding if_not_P [OF ne] using d(2) e by (intro exI [of _ "Suc n"] exI [of _ i]) auto
    qed
  qed
qed

section \<open>The draft length\<close>

definition draft_length_ok :: "spec_config \<Rightarrow> spec_dec \<Rightarrow> bool" where
  "draft_length_ok cfg d \<longleftrightarrow>
     sc_min_draft_tokens cfg \<le> sd_current_draft_tokens d \<and> sd_current_draft_tokens d \<le> sc_max_draft_tokens cfg"

lemma adapt_draft_length_ok:
  "draft_length_ok cfg d \<Longrightarrow> draft_length_ok cfg (adapt_draft_length cfg d a n)"
  by (auto simp: draft_length_ok_def adapt_draft_length_def Let_def)

lemma draft_length_ok_update [simp]:
  "draft_length_ok cfg (d\<lparr>sd_active := x\<rparr>) = draft_length_ok cfg d"
  "draft_length_ok cfg (d\<lparr>sd_generated := y\<rparr>) = draft_length_ok cfg d"
  "draft_length_ok cfg (d\<lparr>sd_total_draft := u, sd_total_accepted := v, sd_total_rejected := w\<rparr>) = draft_length_ok cfg d"
  by (simp_all add: draft_length_ok_def)

lemma maybe_auto_disable_length [simp]: "draft_length_ok cfg (maybe_auto_disable cfg d) = draft_length_ok cfg d"
  by (simp add: maybe_auto_disable_def)

lemma make_draft_length: "make_draft e s n = (r, s') \<Longrightarrow> draft_length_ok cfg (sr_dec s') = draft_length_ok cfg (sr_dec s)"
  by (auto simp: make_draft_def deactivate_def split: if_splits sum.splits prod.splits spec_mode.splits option.splits)

lemma kv_sync_dec: "kv_sync e s n a c = (r, s') \<Longrightarrow> sr_dec s' = sr_dec s"
  by (auto simp: kv_sync_def Let_def split: if_splits sum.splits prod.splits spec_mode.splits option.splits)

lemma speculate_length:
  assumes "speculate e s drft = (r, s')" and "draft_length_ok (se_cfg e) (sr_dec s)"
  shows "draft_length_ok (se_cfg e) (sr_dec s')"
  using assms
  by (auto simp: speculate_def Let_def split: sum.splits prod.splits if_splits dest!: kv_sync_dec intro!: adapt_draft_length_ok)

lemma plain_step_length:
  "plain_step e s = (r, s') \<Longrightarrow> draft_length_ok cfg (sr_dec s') = draft_length_ok cfg (sr_dec s)"
  by (auto simp: plain_step_def Let_def split: sum.splits prod.splits if_splits)

lemma deactivate_length [simp]: "draft_length_ok cfg (sr_dec (deactivate s)) = draft_length_ok cfg (sr_dec s)"
  by (simp add: deactivate_def)

lemma spec_iter_length:
  assumes "spec_iter e s = (r, s')" and "draft_length_ok (se_cfg e) (sr_dec s)"
  shows "draft_length_ok (se_cfg e) (sr_dec s')"
  using assms(1)
  by (cases rule: spec_iter_cases)
     (use assms(2) in \<open>auto simp: plain_step_length make_draft_length dest: speculate_length\<close>)

lemma spec_loop_length:
  "spec_loop e fuel s = Some (r, s') \<Longrightarrow> draft_length_ok (se_cfg e) (sr_dec s) \<Longrightarrow> draft_length_ok (se_cfg e) (sr_dec s')"
proof (induction fuel arbitrary: s)
  case (Suc fuel)
  obtain x s1 where it: "spec_iter e s = (x, s1)" by fastforce
  from spec_iter_length [OF it Suc.prems(2)] Suc.prems Suc.IH [of s1] it show ?case
    by (auto simp: spec_loop.simps [of e "Suc fuel"] split: if_splits sum.splits bool.splits)
qed (auto simp: spec_loop.simps [of e 0] split: if_splits)

section \<open>A concrete run\<close>

text \<open>Prompt lookup on the history \<open>[7, 7]\<close> over a model that always prefers token 7.\<close>

definition demo_logits :: "tokens \<Rightarrow> logits" where
  "demo_logits ts = one_hot 256 7"

definition demo_env :: "(ref_ctx RealLlamaBackend, unit, nat) spec_env" where
  "demo_env = \<lparr>se_cfg = \<lparr>sc_mode = PromptLookup, sc_draft_tokens = 4, sc_min_draft_tokens = 2, sc_max_draft_tokens = 8,
       sc_lookup = \<lparr>lk_max_ngram = 3, lk_min_ngram = 1\<rparr>, sc_use_speculative = True,
       sc_disable_after_drafted = 64, sc_disable_below_acceptance = 1 / 4\<rparr>,
     se_gen = \<lparr>gc_max_tokens = 1, gc_temperature = 0, gc_top_p = 1, gc_repeat_penalty = 1, gc_repeat_last_n = 0,
       gc_seed = 0, gc_echo_prompt = False\<rparr>,
     se_B = real_backend (ref_llama demo_logits (\<lambda>_. False) 16), se_D = None,
     se_uniform = (\<lambda>n. (1 / 2, Suc n)), se_cb = (\<lambda>_. Inr True), se_corpus = None\<rparr>"

definition demo_dec :: spec_dec where
  "demo_dec = \<lparr>sd_current_draft_tokens = 4, sd_active = True, sd_total_draft = 0, sd_total_accepted = 0,
     sd_total_rejected = 0, sd_generated = 0\<rparr>"

definition demo_target :: "ref_ctx RealLlamaBackend" where
  "demo_target = \<lparr>rb_ctx = \<lparr>rc_seqs = [], rc_logits = []\<rparr>, rb_n_past = 0\<rparr>"

definition demo_target1 :: "ref_ctx RealLlamaBackend" where
  "demo_target1 = \<lparr>rb_ctx = \<lparr>rc_seqs = [[7]], rc_logits = [one_hot 256 7]\<rparr>, rb_n_past = 1\<rparr>"

definition demo_target2 :: "ref_ctx RealLlamaBackend" where
  "demo_target2 = \<lparr>rb_ctx = \<lparr>rc_seqs = [[7, 7]], rc_logits = [one_hot 256 7]\<rparr>, rb_n_past = 2\<rparr>"

lemma demo_env_kv: "kv_backend (se_B demo_env) (real_ok ref_cells) (\<lambda>b. ref_cells (rb_ctx b) 0) demo_logits"
  unfolding demo_env_def spec_env.simps by (rule real_backend_kv [OF ref_llama_ok])

lemma demo_env_greedy: "greedy_env demo_env demo_logits"
  by (simp add: greedy_env_def demo_env_def demo_logits_def real_backend_def ref_llama_def)

lemma demo_reset: "be_reset (se_B demo_env) demo_target = demo_target"
  by (simp add: demo_env_def real_backend_def real_reset_def ref_llama_def demo_target_def)

lemma demo_prefill: "be_decode_append (se_B demo_env) demo_target [7] =
    (Inr (one_hot 256 7), demo_target1)"
  by (simp add: demo_env_def real_backend_def real_decode_append_def decode_impl_def ref_llama_def demo_target_def demo_target1_def
      single_batch_def ref_decode_def placed_def batch_tokens_def ref_cells_def ref_update_def demo_logits_def)

lemma demo_batch: "be_decode_batch (se_B demo_env) demo_target1 [7] =
    (Inr [one_hot 256 7], demo_target2)"
  by (simp add: demo_env_def real_backend_def real_decode_batch_def decode_impl_def ref_llama_def demo_target1_def demo_target2_def
      single_batch_def ref_decode_def placed_def batch_tokens_def ref_cells_def ref_update_def demo_logits_def)

lemma demo_params:
  "se_gen demo_env = \<lparr>gc_max_tokens = 1, gc_temperature = 0, gc_top_p = 1, gc_repeat_penalty = 1, gc_repeat_last_n = 0,
     gc_seed = 0, gc_echo_prompt = False\<rparr>"
  "be_context_length (se_B demo_env) = 16" "be_vocab_size (se_B demo_env) = 256" "be_is_eog (se_B demo_env) t = False"
  "se_D demo_env = None" "se_uniform demo_env r = (1 / 2, Suc r)" "se_cb demo_env ts = Inr True" "se_corpus demo_env = None"
  "max_out (se_gen demo_env) = 1" "sc_mode (se_cfg demo_env) = PromptLookup"
  "sc_lookup (se_cfg demo_env) = \<lparr>lk_max_ngram = 3, lk_min_ngram = 1\<rparr>"
  by (simp_all add: demo_env_def real_backend_def ref_llama_def max_out_def)

lemma demo_lookup: "lookup_draft (se_B demo_env) (se_cfg demo_env) None [7, 7] 4 = Inr [7]"
  by (simp add: lookup_draft_def demo_params find_draft_def eval_nat_numeral)

lemma demo_dist: "distribution (se_gen demo_env) (one_hot 256 7) ts = Inr (one_hot 256 7)"
proof -
  have "one_hot 256 7 \<noteq> []" by (metis length_0_conv length_one_hot zero_neq_numeral)
  then show ?thesis by (simp add: distribution_def demo_params repeat_penalty_def argmax_one_hot)
qed

lemma demo_verify: "verify_batch (se_uniform demo_env) (se_gen demo_env) (se_B demo_env) 7
    \<lparr>dr_tokens = [7], dr_probs = [one_hot 256 7]\<rparr> [7, 7] n
    demo_target1 =
  (Inr ([7], None), Suc n, demo_target2)"
  by (simp add: verify_batch_def demo_batch demo_dist demo_params(6) accept_token_def nth_one_hot)

lemma demo_run:
  "\<exists>s c. spec_generate_stream demo_env demo_dec [7, 7] 0 0 0 demo_target () = Some (Inr (), s, c) \<and>
    sr_delivered s = [7] \<and> sd_total_accepted (sr_dec s) = 1"
proof -
  have start: "spec_start demo_env demo_dec [7, 7] 0 0 0 demo_target () = (Inr (),
    \<lparr>sr_target = demo_target1, sr_draft = (),
     sr_history = [7, 7], sr_cur = 7, sr_base = Suc 0, sr_delivered = [], sr_rng = 0, sr_arng = 0, sr_dec = demo_dec,
     sr_skip = False\<rparr>)" (is "_ = (_, ?s)")
    by (simp add: spec_start_def target_prefill_def demo_reset demo_prefill demo_params(2-) demo_dec_def Let_def)
  have md: "make_draft demo_env ?s 4 = (Inr (Some \<lparr>dr_tokens = [7], dr_probs = [one_hot 256 7]\<rparr>), ?s)"
    by (simp add: make_draft_def demo_params(3,5,8,10) demo_lookup)
  obtain s where sp: "speculate demo_env ?s \<lparr>dr_tokens = [7], dr_probs = [one_hot 256 7]\<rparr> = (Inr False, s)"
    and d: "sr_delivered s = [7]" "sr_history s = [7, 7, 7]" "sd_total_accepted (sr_dec s) = 1"
    by (simp add: speculate_def demo_verify kv_sync_def demo_params(2-) Let_def demo_dec_def adapt_draft_length_def maybe_auto_disable_def)
  have it: "spec_iter demo_env ?s = (Inr False, s)"
    using md sp by (simp add: spec_iter_def demo_params(2,3,5,10) demo_dec_def)
  have "spec_loop demo_env (spec_fuel (se_gen demo_env)) ?s = Some (Inr (), s)"
    by (simp add: spec_fuel_def demo_params(9) spec_loop.simps [of _ "Suc _"] it d demo_params(2) numeral_eq_Suc)
  with start d show ?thesis by (simp add: spec_generate_stream_def demo_params(2) Let_def)
qed

section \<open>Properties\<close>



text \<open>
  C21. The decoding loop ends on every input: each iteration delivers a token, gives up
  speculation or skips one lookup, so the number of iterations is bounded by the token budget,
  whatever the backends, the callback and the random source do.
\<close>

theorem speculative_loop_terminates:
  "\<exists>r s corpus. spec_generate_stream e dec prompt kv_ready rng arng b d = Some (r, s, corpus)"
  using spec_generate_ends [of e dec prompt kv_ready rng arng b d] by (metis not_None_eq prod_cases3)

text \<open>
  The adaptive draft length stays between its configured bounds: from construction on and
  after any generation, however it ends.
\<close>

theorem draft_length_bounded:
  assumes "sc_min_draft_tokens (se_cfg e) \<le> sc_max_draft_tokens (se_cfg e)"
    and "SpeculativeDecoder_init (se_cfg e) tv dv = Inr dec"
    and "spec_generate_stream e dec prompt kv_ready rng arng b d = Some (r, s, corpus)"
  shows "draft_length_ok (se_cfg e) dec \<and> draft_length_ok (se_cfg e) (sr_dec s)"
proof -
  have dec: "draft_length_ok (se_cfg e) dec"
    using assms(1,2)
    by (auto simp: SpeculativeDecoder_init_def clamp_int_def draft_length_ok_def split: option.splits if_splits)
  have "draft_length_ok (se_cfg e) (sr_dec s0)" if "spec_start e dec prompt kv_ready rng arng b d = (x, s0)" for x s0
    using that dec
    by (auto simp: spec_start_def Let_def split: if_splits sum.splits prod.splits bool.splits spec_mode.splits option.splits)
  then have "draft_length_ok (se_cfg e) (sr_dec s)"
    using assms(3) dec
    by (auto simp: spec_generate_stream_def Let_def dest: spec_loop_length split: if_splits sum.splits prod.splits option.splits)
  with dec show ?thesis by simp
qed

theorem draft_length_bounded_witness:
  "SpeculativeDecoder_init (se_cfg demo_env) 256 None = Inr demo_dec \<and>
   (\<exists>s c. spec_generate_stream demo_env demo_dec [7, 7] 0 0 0 demo_target () = Some (Inr (), s, c) \<and>
     draft_length_ok (se_cfg demo_env) (sr_dec s))"
proof -
  have i: "SpeculativeDecoder_init (se_cfg demo_env) 256 None = Inr demo_dec"
    by (simp add: SpeculativeDecoder_init_def demo_env_def demo_dec_def clamp_int_def)
  have le: "sc_min_draft_tokens (se_cfg demo_env) \<le> sc_max_draft_tokens (se_cfg demo_env)" by (simp add: demo_env_def)
  obtain s c where r: "spec_generate_stream demo_env demo_dec [7, 7] 0 0 0 demo_target () = Some (Inr (), s, c)"
    using demo_run by blast
  from draft_length_bounded [OF le i r] i r show ?thesis by blast
qed

text \<open>
  Prompt lookup is a longest-match search: a draft is what followed the most recent earlier
  occurrence of the longest n-gram suffix that occurs before, cut to the requested length, and
  an empty draft means that no n-gram of the configured sizes occurs before.
\<close>

theorem find_draft_longest_match:
  assumes "0 < n_draft" and "1 \<le> lk_min_ngram cfg" and "lk_min_ngram cfg \<le> lk_max_ngram cfg"
  shows "if find_draft cfg history n_draft = []
    then \<forall>m i. lk_min_ngram cfg \<le> int m \<and> int m \<le> lk_max_ngram cfg \<longrightarrow> \<not> recurs_at history m i
    else \<exists>m i. lk_min_ngram cfg \<le> int m \<and> int m \<le> lk_max_ngram cfg \<and> recurs_at history m i \<and>
      (\<forall>j>i. \<not> recurs_at history m j) \<and>
      (\<forall>m' j. m < m' \<and> int m' \<le> lk_max_ngram cfg \<longrightarrow> \<not> recurs_at history m' j) \<and>
      find_draft cfg history n_draft = take (nat n_draft) (drop (i + m) history)"
proof -
  have le: "(nat a \<le> m) = (a \<le> int m)" "(m \<le> nat (lk_max_ngram cfg)) = (int m \<le> lk_max_ngram cfg)" for a m
    using assms(2,3) by auto
  have f: "find_draft cfg history n_draft =
      lookup_ngram history (nat n_draft) (nat (lk_min_ngram cfg)) (nat (lk_max_ngram cfg))"
    using assms by (simp add: find_draft_def max_absorb1)
  show ?thesis unfolding f le [symmetric] by (rule lookup_ngram_spec) (use assms in simp_all)
qed

theorem find_draft_longest_match_witness:
  "find_draft \<lparr>lk_max_ngram = 3, lk_min_ngram = 1\<rparr> [1, 2, 3, 1, 2] 2 = [3, 1] \<and>
   (\<exists>m i. recurs_at [1, 2, 3, 1, 2 :: TokenId] m i \<and> [3, 1] = take 2 (drop (i + m) [1, 2, 3, 1, 2 :: TokenId]))"
proof -
  have e: "find_draft \<lparr>lk_max_ngram = 3, lk_min_ngram = 1\<rparr> [1, 2, 3, 1, 2] 2 = [3, 1]"
    by (simp add: find_draft_def eval_nat_numeral)
  from find_draft_longest_match [of 2 "\<lparr>lk_max_ngram = 3, lk_min_ngram = 1\<rparr>" "[1, 2, 3, 1, 2]"] e
  show ?thesis by auto
qed

end
