(* ===== verification/Scheduler.thy ===== *)
theory Scheduler
  imports Sampling
begin

text \<open>
  The multi-request scheduler (\<open>src/src/core/scheduler.cpp\<close>): admission into slots with KV
  cloning from an identical prompt, the batched step, retirement and draining. The calls of
  the callbacks are recorded in \<open>sch_log\<close>, in order, with the id of the request. A callback
  is a function of the tokens delivered to it so far; it may throw. \<open>step\<close> runs under the
  scheduler's mutex, so operations are atomic; \<open>done\<close> has its own mutex and is only read
  by others.

  The main results: slots and KV sequences stay separate, every request gets exactly the
  tokens it would get alone, whatever runs beside it, and the scheduler drains.
\<close>

section \<open>Model\<close>

record 'r Request =
  rq_id :: nat
  rq_history :: tokens
  rq_prompt_len :: nat
  rq_gen :: GenerationConfig
  rq_on_token :: "tokens \<Rightarrow> engine_exn + bool"
  rq_rng :: 'r
  rq_emitted :: int
  rq_seq_id :: int
  rq_n_past :: nat
  rq_needs_prefill :: bool

record ('b, 'r) sched =
  sch_backend :: 'b
  sch_n_parallel :: int
  sch_n_ctx :: nat
  sch_pending :: "'r Request list"
  sch_active :: "'r Request list"
  sch_slot_used :: "bool list"
  sch_done :: "nat \<rightharpoonup> engine_exn option"
  sch_next_id :: nat
  sch_log :: "(nat \<times> TokenId) list"

definition Scheduler_init :: "'b LlamaBackend \<Rightarrow> 'b \<Rightarrow> int \<Rightarrow> engine_exn + ('b, 'r) sched" where
  "Scheduler_init B b n_parallel =
     (if n_parallel < 1 then Inl (EngineError ''n_parallel must be >= 1'')
      else Inr \<lparr>sch_backend = b, sch_n_parallel = n_parallel, sch_n_ctx = be_context_length B, sch_pending = [],
                sch_active = [], sch_slot_used = replicate (nat (max n_parallel 1)) False, sch_done = Map.empty,
                sch_next_id = 1, sch_log = []\<rparr>)"

text \<open>Sums of \<open>uint32_t\<close> wrap around.\<close>

definition cells_used :: "'r Request list \<Rightarrow> nat" where
  "cells_used active = sum_list (map (\<lambda>r. length (rq_history r)) active) mod 2 ^ 32"

definition finish :: "'b LlamaBackend \<Rightarrow> 'r Request \<Rightarrow> engine_exn option \<Rightarrow> ('b, 'r) sched \<Rightarrow> ('b, 'r) sched" where
  "finish B r err s =
     (let s1 = (if 0 \<le> rq_seq_id r
                then s\<lparr>sch_backend := be_clear_seq B (sch_backend s) (rq_seq_id r),
                       sch_slot_used := (sch_slot_used s)[nat (rq_seq_id r) := False]\<rparr>
                else s)
      in s1\<lparr>sch_done := (sch_done s1)(rq_id r \<mapsto> err)\<rparr>)"

fun find_donor :: "tokens \<Rightarrow> 'r Request list \<Rightarrow> 'r Request option" where
  "find_donor prompt [] = None"
| "find_donor prompt (a # active) =
     (if rq_prompt_len a \<noteq> length prompt then find_donor prompt active
      else if take (length prompt) (rq_history a) = prompt then Some a
      else find_donor prompt active)"

text \<open>The first free slot; \<open>-1\<close>, the initial value, when there is none.\<close>

definition free_slot :: "bool list \<Rightarrow> int" where
  "free_slot used = (let i = length (takeWhile id used) in if i < length used then int i else - 1)"

fun admit_loop :: "'b LlamaBackend \<Rightarrow> 'r Request list \<Rightarrow> ('b, 'r) sched \<Rightarrow> ('b, 'r) sched" where
  "admit_loop B [] s = s\<lparr>sch_pending := []\<rparr>"
| "admit_loop B (p # pending) s =
     (if \<not> length (sch_active s) < nat (sch_n_parallel s) then s\<lparr>sch_pending := p # pending\<rparr>
      else if sch_n_ctx s < (cells_used (sch_active s) + length (rq_history p)) mod 2 ^ 32
      then s\<lparr>sch_pending := p # pending\<rparr>
      else let donor = (if 1 < length (rq_history p) then find_donor (rq_history p) (sch_active s) else None)
           in if (case donor of None \<Rightarrow> False | Some d \<Rightarrow> rq_n_past d < rq_prompt_len d)
              then s\<lparr>sch_pending := p # pending\<rparr>
              else let slot = free_slot (sch_slot_used s);
                       r = p\<lparr>rq_seq_id := (if slot = - 1 then rq_seq_id p else slot)\<rparr>;
                       used = (if slot = - 1 then sch_slot_used s else (sch_slot_used s)[nat slot := True])
                   in case donor of
                        None \<Rightarrow> admit_loop B pending (s\<lparr>sch_slot_used := used, sch_active := sch_active s @ [r]\<rparr>)
                      | Some d \<Rightarrow>
                          let shared = rq_prompt_len r - 1
                          in admit_loop B pending
                               (s\<lparr>sch_slot_used := used,
                                  sch_backend := be_copy_seq B (sch_backend s) (rq_seq_id d) (rq_seq_id r) shared,
                                  sch_active := sch_active s @ [r\<lparr>rq_n_past := shared, rq_needs_prefill := False\<rparr>]\<rparr>))"

definition admit :: "'b LlamaBackend \<Rightarrow> ('b, 'r) sched \<Rightarrow> ('b, 'r) sched" where
  "admit B s = admit_loop B (sch_pending s) s"

definition make_slice :: "'r Request \<Rightarrow> SeqSlice" where
  "make_slice r =
     (if rq_needs_prefill r
      then \<lparr>sl_seq_id = rq_seq_id r, sl_tokens = rq_history r, sl_pos_start = 0\<rparr>
      else \<lparr>sl_seq_id = rq_seq_id r, sl_tokens = [last (rq_history r)], sl_pos_start = rq_n_past r\<rparr>)"

text \<open>
  The \<open>try\<close> block of one request: the token handed to the callback, the request, and how it
  ended, if it did.
\<close>

definition advance_request :: "'b LlamaBackend \<Rightarrow> 'r uniform \<Rightarrow> nat \<Rightarrow> 'r Request \<Rightarrow> logits
    \<Rightarrow> TokenId option \<times> 'r Request \<times> engine_exn option option" where
  "advance_request B uniform n_ctx r logits =
     (case sample uniform (rq_gen r) logits (rq_history r) (rq_rng r) of
        (Inl e, rng1) \<Rightarrow> (None, r\<lparr>rq_rng := rng1\<rparr>, Some (Some e))
      | (Inr t, rng1) \<Rightarrow>
          let r1 = r\<lparr>rq_rng := rng1\<rparr>
          in if be_is_eog B t then (None, r1, Some None)
             else (case rq_on_token r1 (drop (rq_prompt_len r1) (rq_history r1) @ [t]) of
                     Inl e \<Rightarrow> (Some t, r1, Some (Some e))
                   | Inr keep_going \<Rightarrow>
                       let r2 = r1\<lparr>rq_history := rq_history r1 @ [t], rq_emitted := rq_emitted r1 + 1\<rparr>
                       in (Some t, r2,
                           if \<not> keep_going \<or> gc_max_tokens (rq_gen r2) \<le> rq_emitted r2 \<or> n_ctx \<le> length (rq_history r2)
                           then Some None else None)))"

text \<open>
  The loop over the active requests, with the requests that stay. A missing vector of logits
  would be an access out of bounds.
\<close>

fun sample_loop :: "'b LlamaBackend \<Rightarrow> 'r uniform \<Rightarrow> 'r Request list \<Rightarrow> logits list \<Rightarrow> 'r Request list \<Rightarrow> ('b, 'r) sched
    \<Rightarrow> ('b, 'r) sched" where
  "sample_loop B uniform [] ls still s = s\<lparr>sch_active := still\<rparr>"
| "sample_loop B uniform (r # rs) [] still s = sample_loop B uniform rs [] still (finish B r (Some Out_of_bounds) s)"
| "sample_loop B uniform (r # rs) (l # ls) still s =
     (let r0 = r\<lparr>rq_n_past := rq_n_past r + length (sl_tokens (make_slice r)), rq_needs_prefill := False\<rparr>;
          (tok, r1, ended) = advance_request B uniform (sch_n_ctx s) r0 l;
          s1 = s\<lparr>sch_log := sch_log s @ (case tok of None \<Rightarrow> [] | Some t \<Rightarrow> [(rq_id r, t)])\<rparr>
      in case ended of
           Some err \<Rightarrow> sample_loop B uniform rs ls still (finish B r1 err s1)
         | None \<Rightarrow> sample_loop B uniform rs ls (still @ [r1]) s1)"

definition fail_all :: "'b LlamaBackend \<Rightarrow> engine_exn \<Rightarrow> ('b, 'r) sched \<Rightarrow> ('b, 'r) sched" where
  "fail_all B err s = (foldl (\<lambda>s r. finish B r (Some err) s) s (sch_active s))\<lparr>sch_active := []\<rparr>"

definition step :: "'b LlamaBackend \<Rightarrow> 'r uniform \<Rightarrow> ('b, 'r) sched \<Rightarrow> bool \<times> ('b, 'r) sched" where
  "step B uniform s0 =
     (let s = admit B s0
      in if sch_active s = [] then (sch_pending s \<noteq> [], s)
         else (case be_decode_seqs B (sch_backend s) (map make_slice (sch_active s)) of
                 (Inl e, b1) \<Rightarrow>
                   let s1 = fail_all B (Engine_model e) (s\<lparr>sch_backend := b1\<rparr>)
                   in (sch_pending s1 \<noteq> [], s1)
               | (Inr logits, b1) \<Rightarrow>
                   let s1 = sample_loop B uniform (sch_active s) logits [] (s\<lparr>sch_backend := b1\<rparr>)
                   in (sch_active s1 \<noteq> [] \<or> sch_pending s1 \<noteq> [], s1)))"

text \<open>\<open>submit\<close>; \<open>seed\<close> is the construction of the random engine of a sampler.\<close>

definition submit :: "(int \<Rightarrow> 'r) \<Rightarrow> tokens \<Rightarrow> GenerationConfig \<Rightarrow> (tokens \<Rightarrow> engine_exn + bool) option \<Rightarrow> ('b, 'r) sched
    \<Rightarrow> (engine_exn + nat) \<times> ('b, 'r) sched" where
  "submit seed prompt gen on_token s =
     (if prompt = [] then (Inl (EngineError ''prompt is empty''), s)
      else if sch_n_ctx s < length prompt
      then (Inl (EngineError (''prompt of '' @ string_of_nat (length prompt) @ '' tokens exceeds context length '' @
              string_of_nat (sch_n_ctx s))), s)
      else (case on_token of
              None \<Rightarrow> (Inl (EngineError ''callback is null''), s)
            | Some cb \<Rightarrow>
                (Inr (sch_next_id s),
                 s\<lparr>sch_next_id := sch_next_id s + 1,
                   sch_pending := sch_pending s @
                     [\<lparr>rq_id = sch_next_id s, rq_history = prompt, rq_prompt_len = length prompt, rq_gen = gen,
                       rq_on_token = cb, rq_rng = seed (gc_seed gen), rq_emitted = 0, rq_seq_id = - 1, rq_n_past = 0,
                       rq_needs_prefill = True\<rparr>]\<rparr>)))"

text \<open>The draining loop, with fuel.\<close>

fun run_until_idle :: "'b LlamaBackend \<Rightarrow> 'r uniform \<Rightarrow> nat \<Rightarrow> ('b, 'r) sched \<Rightarrow> ('b, 'r) sched option" where
  "run_until_idle B uniform 0 s = None"
| "run_until_idle B uniform (Suc n) s =
     (case step B uniform s of (True, s1) \<Rightarrow> run_until_idle B uniform n s1 | (False, s1) \<Rightarrow> Some s1)"

definition finished :: "('b, 'r) sched \<Rightarrow> nat \<Rightarrow> bool" where
  "finished s i \<longleftrightarrow> sch_done s i \<noteq> None"

definition error :: "('b, 'r) sched \<Rightarrow> nat \<Rightarrow> engine_exn option" where
  "error s i = (case sch_done s i of None \<Rightarrow> None | Some err \<Rightarrow> err)"

definition active_count :: "('b, 'r) sched \<Rightarrow> nat" where
  "active_count s = length (sch_active s)"

definition idle :: "('b, 'r) sched \<Rightarrow> bool" where
  "idle s \<longleftrightarrow> sch_active s = [] \<and> sch_pending s = []"

section \<open>Specification\<close>

text \<open>
  A request alone: one token after the other, each sampled from the logits of the request's
  own history; the tokens handed to its callback and how it ends.
\<close>

function solo :: "'r uniform \<Rightarrow> (tokens \<Rightarrow> logits) \<Rightarrow> (TokenId \<Rightarrow> bool) \<Rightarrow> nat \<Rightarrow> GenerationConfig \<Rightarrow> (tokens \<Rightarrow> engine_exn + bool)
    \<Rightarrow> nat \<Rightarrow> int \<Rightarrow> 'r \<Rightarrow> tokens \<Rightarrow> tokens \<times> engine_exn option" where
  "solo uniform eval eog n_ctx gen cb prompt_len emitted rng history =
     (case sample uniform gen (eval history) history rng of
        (Inl e, _) \<Rightarrow> ([], Some e)
      | (Inr t, rng1) \<Rightarrow>
          if eog t then ([], None)
          else (case cb (drop prompt_len history @ [t]) of
                  Inl e \<Rightarrow> ([t], Some e)
                | Inr keep_going \<Rightarrow>
                    if \<not> keep_going \<or> gc_max_tokens gen \<le> emitted + 1 \<or> n_ctx \<le> length history + 1 then ([t], None)
                    else map_prod ((#) t) id
                           (solo uniform eval eog n_ctx gen cb prompt_len (emitted + 1) rng1 (history @ [t]))))"
  by pat_completeness auto
termination
  by (relation "measure (\<lambda>(_, _, _, n_ctx, _, _, _, _, _, history). n_ctx - length history)") auto

declare solo.simps [simp del]

text \<open>The run of a request from its current state.\<close>

definition solo_of :: "'r uniform \<Rightarrow> (tokens \<Rightarrow> logits) \<Rightarrow> (TokenId \<Rightarrow> bool) \<Rightarrow> nat \<Rightarrow> 'r Request \<Rightarrow> tokens \<times> engine_exn option" where
  "solo_of uniform eval eog n_ctx r =
     solo uniform eval eog n_ctx (rq_gen r) (rq_on_token r) (rq_prompt_len r) (rq_emitted r) (rq_rng r) (rq_history r)"

definition log_of :: "(nat \<times> TokenId) list \<Rightarrow> nat \<Rightarrow> tokens" where
  "log_of calls i = map snd (filter (\<lambda>x. fst x = i) calls)"

lemma log_of_append: "log_of (l @ l') i = log_of l i @ log_of l' i"
  by (simp add: log_of_def)

lemma log_of_call: "log_of (case tok of None \<Rightarrow> [] | Some t \<Rightarrow> [(j, t)]) i = (if i = j then (case tok of None \<Rightarrow> [] | Some t \<Rightarrow> [t]) else [])"
  by (simp add: log_of_def split: option.split)

text \<open>One round of the scheduler is one round of the request alone.\<close>

lemma advance_solo:
  assumes "advance_request B uniform n_ctx r (eval (rq_history r)) = (tok, r1, ended)"
  shows "solo_of uniform eval (be_is_eog B) n_ctx r =
    (case ended of
       Some err \<Rightarrow> (case tok of None \<Rightarrow> [] | Some t \<Rightarrow> [t], err)
     | None \<Rightarrow> map_prod ((@) (case tok of None \<Rightarrow> [] | Some t \<Rightarrow> [t])) id (solo_of uniform eval (be_is_eog B) n_ctx r1))"
    and "rq_id r1 = rq_id r" and "rq_seq_id r1 = rq_seq_id r" and "rq_n_past r1 = rq_n_past r"
    and "rq_needs_prefill r1 = rq_needs_prefill r" and "rq_prompt_len r1 = rq_prompt_len r"
    and "ended = None \<Longrightarrow> rq_history r1 = rq_history r @ (case tok of None \<Rightarrow> [] | Some t \<Rightarrow> [t]) \<and> tok \<noteq> None \<and>
      length (rq_history r1) < n_ctx"
proof -
  show "solo_of uniform eval (be_is_eog B) n_ctx r =
    (case ended of
       Some err \<Rightarrow> (case tok of None \<Rightarrow> [] | Some t \<Rightarrow> [t], err)
     | None \<Rightarrow> map_prod ((@) (case tok of None \<Rightarrow> [] | Some t \<Rightarrow> [t])) id (solo_of uniform eval (be_is_eog B) n_ctx r1))"
    unfolding solo_of_def using assms
    by (subst solo.simps)
       (auto simp: advance_request_def Let_def map_prod_def split: sum.splits prod.splits if_splits)
qed (use assms in \<open>auto simp: advance_request_def Let_def split: sum.splits prod.splits if_splits\<close>)

section \<open>Invariants\<close>

text \<open>A throwing batch leaves the sequences that are not part of it alone.\<close>

locale isolated_seq_backend = seq_backend +
  assumes seqs_isolated: "be_decode_seqs B b ss = (Inl e, b') \<Longrightarrow> i \<notin> sl_seq_id ` set ss \<Longrightarrow> kvs b' i = kvs b i"

text \<open>
  Slots: the occupied ones are those of the active requests, one each, and the KV sequence of
  a free slot is empty.
\<close>

definition slots_ok :: "(int \<Rightarrow> tokens) \<Rightarrow> nat \<Rightarrow> bool list \<Rightarrow> 'r Request list \<Rightarrow> bool" where
  "slots_ok kvs n used as \<longleftrightarrow>
     length used = n \<and> distinct (map rq_seq_id as) \<and>
     (\<forall>r\<in>set as. 0 \<le> rq_seq_id r \<and> nat (rq_seq_id r) < n) \<and>
     (\<forall>i<n. used ! i = (int i \<in> rq_seq_id ` set as)) \<and> (\<forall>i<n. \<not> used ! i \<longrightarrow> kvs (int i) = [])"

text \<open>
  Between steps a request waits for its prefill, with an empty sequence, or for its newest
  token, with all the others in the KV cache.
\<close>

definition waiting :: "(int \<Rightarrow> tokens) \<Rightarrow> 'r Request \<Rightarrow> bool" where
  "waiting kvs r \<longleftrightarrow>
     (if rq_needs_prefill r then kvs (rq_seq_id r) = [] \<and> rq_n_past r = 0
      else kvs (rq_seq_id r) = butlast (rq_history r) \<and> rq_n_past r = length (rq_history r) - 1)"

text \<open>
  Bookkeeping, \<open>orig\<close> being the requests as submitted: every request is pending, active or
  done, and what a request has been given so far, followed by what it would still get alone,
  is what it would get alone from the start.
\<close>

definition tracks :: "('r Request \<Rightarrow> tokens \<times> engine_exn option) \<Rightarrow> nat \<Rightarrow> (nat \<rightharpoonup> 'r Request) \<Rightarrow> (nat \<times> TokenId) list
    \<Rightarrow> 'r Request \<Rightarrow> bool" where
  "tracks run n_ctx orig calls r \<longleftrightarrow>
     (\<exists>q. orig (rq_id r) = Some q \<and> rq_history q \<noteq> [] \<and> rq_prompt_len r = length (rq_history q) \<and>
          rq_history r = rq_history q @ log_of calls (rq_id r) \<and> length (rq_history r) \<le> n_ctx \<and>
          run q = map_prod ((@) (log_of calls (rq_id r))) id (run r))"

definition outcome :: "('r Request \<Rightarrow> tokens \<times> engine_exn option) \<Rightarrow> (nat \<rightharpoonup> 'r Request) \<Rightarrow> (nat \<times> TokenId) list \<Rightarrow> nat
    \<Rightarrow> engine_exn option \<Rightarrow> bool" where
  "outcome run orig calls i err \<longleftrightarrow>
     (\<exists>q. orig i = Some q \<and>
       (run q = (log_of calls i, err) \<or> (\<exists>e rest. err = Some (Engine_model e) \<and> fst (run q) = log_of calls i @ rest)))"

definition books :: "('r Request \<Rightarrow> tokens \<times> engine_exn option) \<Rightarrow> nat \<Rightarrow> (nat \<rightharpoonup> 'r Request) \<Rightarrow> (nat \<times> TokenId) list
    \<Rightarrow> (nat \<rightharpoonup> engine_exn option) \<Rightarrow> 'r Request list \<Rightarrow> bool" where
  "books run n_ctx orig calls done rs \<longleftrightarrow>
     distinct (map rq_id rs) \<and> (\<forall>r\<in>set rs. done (rq_id r) = None \<and> tracks run n_ctx orig calls r) \<and>
     dom orig = rq_id ` set rs \<union> dom done \<and> fst ` set calls \<subseteq> dom orig \<and>
     (\<forall>i err. done i = Some err \<longrightarrow> outcome run orig calls i err)"

definition fresh :: "'r Request \<Rightarrow> bool" where
  "fresh p \<longleftrightarrow> rq_needs_prefill p \<and> rq_n_past p = 0 \<and> rq_prompt_len p = length (rq_history p)"

text \<open>The invariant of the scheduler.\<close>

definition sched_inv :: "'b LlamaBackend \<Rightarrow> ('b \<Rightarrow> int \<Rightarrow> tokens) \<Rightarrow> (tokens \<Rightarrow> logits) \<Rightarrow> 'r uniform \<Rightarrow> (nat \<rightharpoonup> 'r Request)
    \<Rightarrow> ('b, 'r) sched \<Rightarrow> bool" where
  "sched_inv B kvs eval uniform orig s \<longleftrightarrow>
     1 \<le> sch_n_parallel s \<and> sch_n_ctx s < 2 ^ 32 \<and> (\<forall>i\<in>dom orig. i < sch_next_id s) \<and>
     slots_ok (kvs (sch_backend s)) (nat (sch_n_parallel s)) (sch_slot_used s) (sch_active s) \<and>
     (\<forall>r\<in>set (sch_active s). waiting (kvs (sch_backend s)) r) \<and> (\<forall>p\<in>set (sch_pending s). fresh p) \<and>
     books (solo_of uniform eval (be_is_eog B) (sch_n_ctx s)) (sch_n_ctx s) orig (sch_log s) (sch_done s)
       (sch_active s @ sch_pending s)"

subsection \<open>Slots\<close>

lemma slots_ok_count:
  assumes "slots_ok kvs n used as"
  shows "length as \<le> n"
proof -
  have "rq_seq_id ` set as \<subseteq> {0..<int n}" using assms by (auto simp: slots_ok_def)
  then have "card (rq_seq_id ` set as) \<le> card {0..<int n}" by (intro card_mono) auto
  then show ?thesis using assms distinct_card [of "map rq_seq_id as"] by (simp add: slots_ok_def)
qed

lemma free_slot_spec:
  assumes "slots_ok kvs n used as" and "length as < n"
  obtains i where "free_slot used = int i" "i < n" "\<not> used ! i" "kvs (int i) = []"
proof -
  have "\<not> (\<forall>i<n. used ! i)"
  proof
    assume "\<forall>i<n. used ! i"
    with assms(1) have "int i \<in> rq_seq_id ` set as" if "i < n" for i using that unfolding slots_ok_def by blast
    then have "int ` {..<n} \<subseteq> rq_seq_id ` set as" by blast
    then have "{0..<int n} \<subseteq> rq_seq_id ` set as" by (simp add: image_int_atLeastLessThan lessThan_atLeast0)
    then have "card {0..<int n} \<le> card (rq_seq_id ` set as)" by (intro card_mono) auto
    also have "\<dots> \<le> length as" by (metis card_length length_map list.set_map)
    finally show False using assms(2) by simp
  qed
  moreover have len: "length used = n" using assms(1) by (simp add: slots_ok_def)
  ultimately have "\<not> (\<forall>x\<in>set used. id x)" by (metis id_apply nth_mem)
  then have "takeWhile id used \<noteq> used" by (auto simp: takeWhile_eq_all_conv)
  then have "length (takeWhile id used) \<noteq> length used"
    by (metis append.right_neutral append_eq_append_conv takeWhile_dropWhile_id)
  then have l: "length (takeWhile id used) < length used" using length_takeWhile_le [of id used] by simp
  have "\<not> used ! length (takeWhile id used)" using nth_length_takeWhile [OF l] by simp
  then show ?thesis using that [of "length (takeWhile id used)"] l assms(1) by (auto simp: free_slot_def slots_ok_def)
qed

lemma slots_ok_add:
  assumes "slots_ok kvs n used as" and "i < n" and "\<not> used ! i" and "rq_seq_id r = int i"
    and "\<And>j. j \<noteq> int i \<Longrightarrow> kvs' j = kvs j"
  shows "slots_ok kvs' n (used[i := True]) (as @ [r])"
proof -
  have "int i \<notin> rq_seq_id ` set as" using assms(1-3) by (auto simp: slots_ok_def)
  then show ?thesis using assms by (auto simp: slots_ok_def nth_list_update)
qed

lemma slots_ok_remove:
  assumes "slots_ok kvs n used (xs @ r # ys)"
  shows "slots_ok (kvs(rq_seq_id r := [])) n (used[nat (rq_seq_id r) := False]) (xs @ ys)"
  unfolding slots_ok_def
proof (intro conjI allI impI)
  fix i assume i: "i < n"
  have r: "0 \<le> rq_seq_id r" "nat (rq_seq_id r) < n" "rq_seq_id r \<notin> rq_seq_id ` set (xs @ ys)"
    using assms by (auto simp: slots_ok_def)
  have used: "used ! i = (int i \<in> rq_seq_id ` set (xs @ r # ys))" using assms i unfolding slots_ok_def by blast
  have l: "length used = n" using assms by (simp add: slots_ok_def)
  have iff: "(nat (rq_seq_id r) = i) = (int i = rq_seq_id r)" using r(1) by auto
  show "used[nat (rq_seq_id r) := False] ! i = (int i \<in> rq_seq_id ` set (xs @ ys))"
  proof (cases "int i = rq_seq_id r")
    case True
    with r(3) i l iff show ?thesis by (metis nth_list_update_eq)
  next
    case False
    with used iff show ?thesis by (simp add: nth_list_update)
  qed
  show "(kvs(rq_seq_id r := [])) (int i) = []" if "\<not> used[nat (rq_seq_id r) := False] ! i"
    using that i l r(1) assms by (auto simp: nth_list_update iff slots_ok_def split: if_splits)
qed (use assms in \<open>auto simp: slots_ok_def\<close>)

lemma find_donor_Some:
  "find_donor prompt as = Some d \<Longrightarrow> d \<in> set as \<and> rq_prompt_len d = length prompt \<and> take (length prompt) (rq_history d) = prompt"
  by (induction as) (auto split: if_splits)

subsection \<open>Books\<close>

lemma tracks_log:
  "log_of calls' (rq_id r) = log_of calls (rq_id r) \<Longrightarrow> tracks run n orig calls' r = tracks run n orig calls r"
  by (simp add: tracks_def)

lemma log_of_other: "i \<noteq> j \<Longrightarrow> log_of (calls @ map (Pair j) ts) i = log_of calls i"
  by (simp add: log_of_def)

lemma log_of_self: "log_of (calls @ map (Pair j) ts) j = log_of calls j @ ts"
  by (simp add: log_of_def comp_def)

lemma books_other: "books run n orig calls done (xs @ r # ys) \<Longrightarrow> q \<in> set (xs @ ys) \<Longrightarrow> rq_id q \<noteq> rq_id r"
  by (simp add: books_def) (metis Un_iff imageI)

lemma books_log:
  assumes "books run n orig calls done rs" and "r \<in> set rs"
  shows "fst ` set (calls @ map (Pair (rq_id r)) ts) \<subseteq> dom orig"
proof -
  have "fst ` set calls \<subseteq> dom orig" "rq_id r \<in> dom orig" using assms unfolding books_def by blast+
  then show ?thesis by (auto simp: image_Un image_image)
qed

lemma books_retire:
  assumes "books run n orig calls done (xs @ r # ys)"
    and "outcome run orig (calls @ map (Pair (rq_id r)) ts) (rq_id r) err"
  shows "books run n orig (calls @ map (Pair (rq_id r)) ts) (done(rq_id r \<mapsto> err)) (xs @ ys)"
  unfolding books_def
proof (intro conjI ballI allI impI)
  note other = books_other [OF assms(1)]
  fix q assume q: "q \<in> set (xs @ ys)"
  show "(done(rq_id r \<mapsto> err)) (rq_id q) = None" using assms(1) other [OF q] q by (auto simp: books_def)
  show "tracks run n orig (calls @ map (Pair (rq_id r)) ts) q"
    using assms(1) q tracks_log [OF log_of_other [OF other [OF q]]] by (auto simp: books_def)
next
  show "fst ` set (calls @ map (Pair (rq_id r)) ts) \<subseteq> dom orig" by (rule books_log [OF assms(1)]) simp
next
  fix i e assume "(done(rq_id r \<mapsto> err)) i = Some e"
  then show "outcome run orig (calls @ map (Pair (rq_id r)) ts) i e"
    using assms log_of_other [of i "rq_id r"] by (auto simp: books_def outcome_def split: if_splits)
qed (use assms(1) in \<open>auto simp: books_def\<close>)

lemma books_advance:
  assumes "books run n orig calls done (xs @ r # ys)"
    and "rq_id r1 = rq_id r" and "rq_prompt_len r1 = rq_prompt_len r" and "rq_history r1 = rq_history r @ ts"
    and "length (rq_history r1) \<le> n" and "run r = map_prod ((@) ts) id (run r1)"
  shows "books run n orig (calls @ map (Pair (rq_id r)) ts) done (xs @ r1 # ys)"
  unfolding books_def
proof (intro conjI ballI allI impI)
  note other = books_other [OF assms(1)]
  fix q assume q: "q \<in> set (xs @ r1 # ys)"
  show "done (rq_id q) = None" using assms(1,2) q by (auto simp: books_def)
  have "tracks run n orig (calls @ map (Pair (rq_id r)) ts) r1"
    using assms by (auto simp: books_def tracks_def log_of_self prod.map_comp comp_def map_prod_def split: prod.splits)
  moreover have "tracks run n orig (calls @ map (Pair (rq_id r)) ts) q" if "q \<in> set (xs @ ys)"
    using assms(1) that tracks_log [OF log_of_other [OF other [OF that]]] by (auto simp: books_def)
  ultimately show "tracks run n orig (calls @ map (Pair (rq_id r)) ts) q" using q by auto
next
  show "fst ` set (calls @ map (Pair (rq_id r)) ts) \<subseteq> dom orig" by (rule books_log [OF assms(1)]) simp
next
  fix i e assume d: "done i = Some e"
  then have "i \<noteq> rq_id r" using assms(1) by (auto simp: books_def)
  then show "outcome run orig (calls @ map (Pair (rq_id r)) ts) i e"
    using d assms(1) by (auto simp: books_def outcome_def log_of_other)
qed (use assms(1,2) in \<open>auto simp: books_def\<close>)

lemma books_cong:
  assumes "books run n orig calls done rs"
    and "map (\<lambda>r. (rq_id r, rq_prompt_len r, rq_history r, run r)) rs' = map (\<lambda>r. (rq_id r, rq_prompt_len r, rq_history r, run r)) rs"
  shows "books run n orig calls done rs'"
proof -
  let ?f = "\<lambda>r. (rq_id r, rq_prompt_len r, rq_history r, run r)"
  have ids: "map rq_id rs' = map rq_id rs"
    using arg_cong [OF assms(2), of "map fst"] by (simp add: comp_def)
  have set_ids: "rq_id ` set rs' = rq_id ` set rs" using arg_cong [OF ids, of set] by simp
  have img: "?f ` set rs' = ?f ` set rs" using arg_cong [OF assms(2), of set] by simp
  have A: "\<forall>r\<in>set rs'. done (rq_id r) = None \<and> tracks run n orig calls r"
  proof
    fix r assume "r \<in> set rs'"
    then have "?f r \<in> ?f ` set rs" using img by blast
    then obtain q where "q \<in> set rs" "rq_id q = rq_id r" "rq_prompt_len q = rq_prompt_len r" "rq_history q = rq_history r"
      "run q = run r" by auto
    then show "done (rq_id r) = None \<and> tracks run n orig calls r"
      using assms(1) unfolding books_def tracks_def by metis
  qed
  show ?thesis unfolding books_def ids set_ids using assms(1) [unfolded books_def] A by (intro conjI) blast+
qed

subsection \<open>Operations\<close>

text \<open>
  Inside a step: \<open>still\<close> have been advanced, \<open>rs\<close> have been decoded (\<open>True\<close>: their whole history
  is in the KV cache) or not (a failed batch, where nothing is known of their sequences).
\<close>

definition mid_inv :: "'b LlamaBackend \<Rightarrow> ('b \<Rightarrow> int \<Rightarrow> tokens) \<Rightarrow> (tokens \<Rightarrow> logits) \<Rightarrow> 'r uniform \<Rightarrow> (nat \<rightharpoonup> 'r Request)
    \<Rightarrow> bool \<Rightarrow> 'r Request list \<Rightarrow> 'r Request list \<Rightarrow> ('b, 'r) sched \<Rightarrow> bool" where
  "mid_inv B kvs eval uniform orig decoded still rs s \<longleftrightarrow>
     1 \<le> sch_n_parallel s \<and> sch_n_ctx s < 2 ^ 32 \<and> (\<forall>i\<in>dom orig. i < sch_next_id s) \<and>
     slots_ok (kvs (sch_backend s)) (nat (sch_n_parallel s)) (sch_slot_used s) (still @ rs) \<and>
     (\<forall>r\<in>set still. waiting (kvs (sch_backend s)) r) \<and> (\<forall>p\<in>set (sch_pending s). fresh p) \<and>
     (decoded \<longrightarrow> (\<forall>r\<in>set rs. kvs (sch_backend s) (rq_seq_id r) = rq_history r \<and>
        rq_n_past r + length (sl_tokens (make_slice r)) = length (rq_history r))) \<and>
     books (solo_of uniform eval (be_is_eog B) (sch_n_ctx s)) (sch_n_ctx s) orig (sch_log s) (sch_done s)
       (still @ rs @ sch_pending s)"

lemma solo_of_frame [simp]:
  "solo_of uniform eval eog n (r\<lparr>rq_seq_id := a\<rparr>) = solo_of uniform eval eog n r"
  "solo_of uniform eval eog n (r\<lparr>rq_n_past := b, rq_needs_prefill := c\<rparr>) = solo_of uniform eval eog n r"
  by (simp_all add: solo_of_def)

lemma mid_inv_done:
  "mid_inv B kvs eval uniform orig d still [] s \<Longrightarrow> sched_inv B kvs eval uniform orig (s\<lparr>sch_active := still\<rparr>)"
  by (simp add: mid_inv_def sched_inv_def)

lemma finish_simps [simp]:
  "sch_n_ctx (finish B r err s) = sch_n_ctx s" "sch_n_parallel (finish B r err s) = sch_n_parallel s"
  "sch_pending (finish B r err s) = sch_pending s" "sch_next_id (finish B r err s) = sch_next_id s"
  "sch_log (finish B r err s) = sch_log s" "sch_done (finish B r err s) = (sch_done s)(rq_id r \<mapsto> err)"
  "sch_active (finish B r err s) = sch_active s"
  by (simp_all add: finish_def Let_def)

lemma waiting_cong: "kvs' (rq_seq_id r) = kvs (rq_seq_id r) \<Longrightarrow> waiting kvs' r = waiting kvs r"
  by (simp add: waiting_def)

lemma slots_ok_cong:
  assumes "slots_ok kvs n used as" and "map rq_seq_id as' = map rq_seq_id as" and "\<And>i. i \<notin> rq_seq_id ` set as \<Longrightarrow> kvs' i = kvs i"
  shows "slots_ok kvs' n used as'"
proof -
  have i: "rq_seq_id ` set as' = rq_seq_id ` set as" using arg_cong [OF assms(2), of set] by simp
  have "\<forall>r\<in>set as'. 0 \<le> rq_seq_id r \<and> nat (rq_seq_id r) < n"
    using i assms(1) unfolding slots_ok_def by (metis image_iff)
  then show ?thesis using assms i unfolding slots_ok_def by metis
qed

context isolated_seq_backend
begin

lemma finish_mid:
  assumes m: "mid_inv B kvs eval uniform orig d still (r # rs) s"
    and ids: "rq_id r1 = rq_id r" "rq_seq_id r1 = rq_seq_id r"
    and out: "outcome (solo_of uniform eval (be_is_eog B) (sch_n_ctx s)) orig (sch_log s @ map (Pair (rq_id r)) ts) (rq_id r) err"
    and s1: "s1 = s\<lparr>sch_log := sch_log s @ map (Pair (rq_id r)) ts\<rparr>"
  shows "mid_inv B kvs eval uniform orig d still rs (finish B r1 err s1)"
proof -
  have slots: "slots_ok (kvs (sch_backend s)) (nat (sch_n_parallel s)) (sch_slot_used s) (still @ r # rs)"
    and bk: "books (solo_of uniform eval (be_is_eog B) (sch_n_ctx s)) (sch_n_ctx s) orig (sch_log s) (sch_done s)
       (still @ r # rs @ sch_pending s)"
    using m by (simp_all add: mid_inv_def)
  have seq: "0 \<le> rq_seq_id r" using slots by (simp add: slots_ok_def)
  have b: "kvs (sch_backend (finish B r1 err s1)) = (kvs (sch_backend s))(rq_seq_id r := [])"
    "sch_slot_used (finish B r1 err s1) = (sch_slot_used s)[nat (rq_seq_id r) := False]"
    using seq by (simp_all add: finish_def s1 ids clear_kv)
  have other: "rq_seq_id q \<noteq> rq_seq_id r" if "q \<in> set (still @ rs)" for q
    using slots that by (simp add: slots_ok_def) (metis Un_iff imageI)
  show ?thesis
    unfolding mid_inv_def
  proof (intro conjI)
    show "slots_ok (kvs (sch_backend (finish B r1 err s1))) (nat (sch_n_parallel (finish B r1 err s1)))
        (sch_slot_used (finish B r1 err s1)) (still @ rs)"
      unfolding b using slots_ok_remove [OF slots] by (simp add: s1)
    show "books (solo_of uniform eval (be_is_eog B) (sch_n_ctx (finish B r1 err s1))) (sch_n_ctx (finish B r1 err s1)) orig
        (sch_log (finish B r1 err s1)) (sch_done (finish B r1 err s1)) (still @ rs @ sch_pending (finish B r1 err s1))"
      using books_retire [OF bk out] by (simp add: s1 ids)
    show "\<forall>q\<in>set still. waiting (kvs (sch_backend (finish B r1 err s1))) q"
      using m other by (auto simp: mid_inv_def b waiting_def)
    show "d \<longrightarrow> (\<forall>q\<in>set rs. kvs (sch_backend (finish B r1 err s1)) (rq_seq_id q) = rq_history q \<and>
        rq_n_past q + length (sl_tokens (make_slice q)) = length (rq_history q))"
      using m other by (auto simp: mid_inv_def b)
  qed (use m in \<open>auto simp: mid_inv_def s1\<close>)
qed

lemma mid_tracks:
  assumes "mid_inv B kvs eval uniform orig d still (r # rs) s"
  obtains q where "orig (rq_id r) = Some q" "solo_of uniform eval (be_is_eog B) (sch_n_ctx s) q =
      map_prod ((@) (log_of (sch_log s) (rq_id r))) id (solo_of uniform eval (be_is_eog B) (sch_n_ctx s) r)"
    "length (rq_history r) \<le> sch_n_ctx s" "rq_history r \<noteq> []"
proof -
  have "tracks (solo_of uniform eval (be_is_eog B) (sch_n_ctx s)) (sch_n_ctx s) orig (sch_log s) r"
    using assms by (simp add: mid_inv_def books_def)
  then show ?thesis using that by (auto simp: tracks_def)
qed

lemma sample_loop_inv:
  "mid_inv B kvs eval uniform orig True still rs s \<Longrightarrow>
     sched_inv B kvs eval uniform orig (sample_loop B uniform rs (map (\<lambda>r. eval (rq_history r)) rs) still s)"
proof (induction rs arbitrary: still s)
  case Nil
  then show ?case by (simp add: mid_inv_done)
next
  case (Cons r rs)
  let ?run = "solo_of uniform eval (be_is_eog B) (sch_n_ctx s)"
  define r0 where "r0 = r\<lparr>rq_n_past := rq_n_past r + length (sl_tokens (make_slice r)), rq_needs_prefill := False\<rparr>"
  obtain tok r1 ended where adv: "advance_request B uniform (sch_n_ctx s) r0 (eval (rq_history r)) = (tok, r1, ended)"
    using prod_cases3 by blast
  let ?ts = "case tok of None \<Rightarrow> [] | Some t \<Rightarrow> [t]"
  define s1 where "s1 = s\<lparr>sch_log := sch_log s @ map (Pair (rq_id r)) ?ts\<rparr>"
  have calls: "(case tok of None \<Rightarrow> [] | Some t \<Rightarrow> [(rq_id r, t)]) = map (Pair (rq_id r)) ?ts" by (simp split: option.split)
  have step: "sample_loop B uniform (r # rs) (map (\<lambda>r. eval (rq_history r)) (r # rs)) still s =
    (case ended of
       Some err \<Rightarrow> sample_loop B uniform rs (map (\<lambda>r. eval (rq_history r)) rs) still (finish B r1 err s1)
     | None \<Rightarrow> sample_loop B uniform rs (map (\<lambda>r. eval (rq_history r)) rs) (still @ [r1]) s1)"
    unfolding s1_def by (simp add: adv [unfolded r0_def] calls Let_def)
  have r0: "rq_history r0 = rq_history r" "rq_id r0 = rq_id r" "rq_seq_id r0 = rq_seq_id r" "rq_prompt_len r0 = rq_prompt_len r"
    "?run r0 = ?run r" by (simp_all add: r0_def)
  note a = advance_solo [where eval = eval, OF adv [folded r0(1)], unfolded r0]
  obtain q where q: "orig (rq_id r) = Some q" "?run q = map_prod ((@) (log_of (sch_log s) (rq_id r))) id (?run r)"
    by (rule mid_tracks [OF Cons.prems])
  show ?case
  proof (cases ended)
    case (Some err)
    have "outcome ?run orig (sch_log s @ map (Pair (rq_id r)) ?ts) (rq_id r) err"
      using q a(1) Some by (auto simp: outcome_def log_of_self)
    from finish_mid [OF Cons.prems a(2,3) this s1_def] show ?thesis
      unfolding step Some option.case by (rule Cons.IH)
  next
    case None
    have h: "rq_history r1 = rq_history r @ ?ts" "tok \<noteq> None" "length (rq_history r1) < sch_n_ctx s"
      using a(7) [OF None] by blast+
    have "mid_inv B kvs eval uniform orig True (still @ [r1]) rs s1"
      unfolding mid_inv_def
    proof (intro conjI)
      have "books ?run (sch_n_ctx s) orig (sch_log s) (sch_done s) (still @ r # rs @ sch_pending s)"
        using Cons.prems by (simp add: mid_inv_def)
      from books_advance [OF this a(2) a(6) h(1)] h(3) a(1) None
      show "books (solo_of uniform eval (be_is_eog B) (sch_n_ctx s1)) (sch_n_ctx s1) orig (sch_log s1) (sch_done s1)
          ((still @ [r1]) @ rs @ sch_pending s1)"
        by (simp add: s1_def)
      show "slots_ok (kvs (sch_backend s1)) (nat (sch_n_parallel s1)) (sch_slot_used s1) ((still @ [r1]) @ rs)"
        by (rule slots_ok_cong [of "kvs (sch_backend s)" _ _ "still @ r # rs"])
           (use Cons.prems a(3) in \<open>simp_all add: mid_inv_def s1_def\<close>)
      have "waiting (kvs (sch_backend s)) r1"
        using Cons.prems h(1,2) a(3,4,5) by (auto simp: mid_inv_def waiting_def r0_def)
      then show "\<forall>r\<in>set (still @ [r1]). waiting (kvs (sch_backend s1)) r"
        using Cons.prems by (auto simp: mid_inv_def s1_def)
    qed (use Cons.prems in \<open>auto simp: mid_inv_def s1_def\<close>)
    then show ?thesis unfolding step None option.case by (rule Cons.IH)
  qed
qed

lemma fail_all_inv:
  assumes "mid_inv B kvs eval uniform orig False [] rs s" and "sch_active s = rs"
  shows "sched_inv B kvs eval uniform orig (fail_all B (Engine_model e) s)"
proof -
  have "mid_inv B kvs eval uniform orig False [] [] (foldl (\<lambda>s r. finish B r (Some (Engine_model e)) s) s rs)"
    using assms(1)
  proof (induction rs arbitrary: s)
    case (Cons r rs)
    obtain q where q: "orig (rq_id r) = Some q" "solo_of uniform eval (be_is_eog B) (sch_n_ctx s) q =
      map_prod ((@) (log_of (sch_log s) (rq_id r))) id (solo_of uniform eval (be_is_eog B) (sch_n_ctx s) r)"
      by (rule mid_tracks [OF Cons.prems])
    have "outcome (solo_of uniform eval (be_is_eog B) (sch_n_ctx s)) orig (sch_log s @ map (Pair (rq_id r)) []) (rq_id r)
        (Some (Engine_model e))"
      using q by (auto simp: outcome_def)
    from finish_mid [OF Cons.prems refl refl this, of s] show ?case by (auto intro: Cons.IH)
  qed simp
  from mid_inv_done [OF this] assms(2) show ?thesis by (simp add: fail_all_def)
qed

lemma admit_loop_inv:
  "sched_inv B kvs eval uniform orig (s\<lparr>sch_pending := ps\<rparr>) \<Longrightarrow> sched_inv B kvs eval uniform orig (admit_loop B ps s)"
proof (induction ps arbitrary: s)
  case (Cons p ps)
  let ?run = "solo_of uniform eval (be_is_eog B) (sch_n_ctx s)" and ?as = "sch_active s" and ?kvs = "kvs (sch_backend s)"
  let ?donor = "if 1 < length (rq_history p) then find_donor (rq_history p) ?as else None"
  have slots: "slots_ok ?kvs (nat (sch_n_parallel s)) (sch_slot_used s) ?as" and fr: "fresh p"
    and wt: "\<forall>r\<in>set ?as. waiting ?kvs r"
    and bk: "books ?run (sch_n_ctx s) orig (sch_log s) (sch_done s) (?as @ p # ps)"
    using Cons.prems by (simp_all add: sched_inv_def)
  show ?case
  proof (cases "\<not> length ?as < nat (sch_n_parallel s) \<or> sch_n_ctx s < (cells_used ?as + length (rq_history p)) mod 2 ^ 32 \<or>
      (case ?donor of None \<Rightarrow> False | Some d \<Rightarrow> rq_n_past d < rq_prompt_len d)")
    case True
    then show ?thesis using Cons.prems by (auto simp: Let_def)
  next
    case False
    then have room: "length ?as < nat (sch_n_parallel s)" by simp
    obtain i where i: "free_slot (sch_slot_used s) = int i" "i < nat (sch_n_parallel s)" "\<not> sch_slot_used s ! i" "?kvs (int i) = []"
      by (rule free_slot_spec [OF slots room])
    define r where "r = p\<lparr>rq_seq_id := int i\<rparr>"
    define used where "used = (sch_slot_used s)[i := True]"
    have add: "sched_inv B kvs eval uniform orig (s\<lparr>sch_slot_used := used, sch_backend := b,
        sch_active := ?as @ [r'], sch_pending := ps\<rparr>)"
      if "rq_seq_id r' = int i" "rq_id r' = rq_id p" "rq_prompt_len r' = rq_prompt_len p" "rq_history r' = rq_history p"
        "?run r' = ?run p" "\<And>j. j \<noteq> int i \<Longrightarrow> kvs b j = ?kvs j" "waiting (kvs b) r'" for b r'
    proof -
      have other: "rq_seq_id q \<noteq> int i" if "q \<in> set ?as" for q
        using that i(2,3) slots unfolding slots_ok_def by (metis imageI)
      have "slots_ok (kvs b) (nat (sch_n_parallel s)) used (?as @ [r'])"
        unfolding used_def by (rule slots_ok_add [OF slots i(2,3) that(1,6)])
      moreover have "books ?run (sch_n_ctx s) orig (sch_log s) (sch_done s) ((?as @ [r']) @ ps)"
        by (rule books_cong [OF bk]) (simp add: that)
      moreover have "\<forall>q\<in>set (?as @ [r']). waiting (kvs b) q"
        using wt other that(6,7) by (auto simp: waiting_def)
      ultimately show ?thesis using Cons.prems by (simp add: sched_inv_def)
    qed
    show ?thesis
    proof (cases ?donor)
      case None
      have "sched_inv B kvs eval uniform orig (s\<lparr>sch_slot_used := used, sch_backend := sch_backend s,
          sch_active := ?as @ [r], sch_pending := ps\<rparr>)"
        by (rule add) (use fr i(4) in \<open>simp_all add: r_def waiting_def fresh_def\<close>)
      then have "sched_inv B kvs eval uniform orig
          ((s\<lparr>sch_slot_used := used, sch_active := ?as @ [r]\<rparr>)\<lparr>sch_pending := ps\<rparr>)" by simp
      from Cons.IH [OF this] None False i(1) show ?thesis
        by (simp add: Let_def r_def used_def)
    next
      case (Some d)
      let ?shared = "rq_prompt_len p - 1"
      let ?b = "be_copy_seq B (sch_backend s) (rq_seq_id d) (int i) ?shared"
      let ?r = "r\<lparr>rq_n_past := ?shared, rq_needs_prefill := False\<rparr>"
      have d: "d \<in> set ?as" "rq_prompt_len d = length (rq_history p)" "take (length (rq_history p)) (rq_history d) = rq_history p"
        using find_donor_Some [of "rq_history p" ?as d] Some by (auto split: if_splits)
      have past: "rq_prompt_len d \<le> rq_n_past d" using False Some by simp
      have long: "1 < length (rq_history p)" using Some by (auto split: if_splits)
      have ne: "int i \<noteq> rq_seq_id d" using d(1) i(2,3) slots unfolding slots_ok_def by (metis imageI)
      have cp: "kvs ?b = ?kvs(int i := take ?shared (?kvs (rq_seq_id d)))"
        by (rule copy_kv) (use i(4) ne in simp_all)
      have "?kvs (rq_seq_id d) = butlast (rq_history d)" "rq_n_past d = length (rq_history d) - 1"
        using wt d(1,2) past long by (auto simp: waiting_def split: if_splits)
      then have kvd: "take ?shared (?kvs (rq_seq_id d)) = butlast (rq_history p)"
        using d(2,3) past long fr
        by (auto simp: fresh_def butlast_conv_take min_def) (metis One_nat_def take_take min.absorb1 diff_le_self)
      have "sched_inv B kvs eval uniform orig (s\<lparr>sch_slot_used := used, sch_backend := ?b,
          sch_active := ?as @ [?r], sch_pending := ps\<rparr>)"
        by (rule add) (use cp kvd fr in \<open>auto simp: r_def waiting_def fresh_def\<close>)
      then have "sched_inv B kvs eval uniform orig
          ((s\<lparr>sch_slot_used := used, sch_backend := ?b, sch_active := ?as @ [?r]\<rparr>)\<lparr>sch_pending := ps\<rparr>)" by simp
      from Cons.IH [OF this] Some False i(1) show ?thesis
        by (simp add: Let_def r_def used_def)
    qed
  qed
qed simp

lemma admit_inv: "sched_inv B kvs eval uniform orig s \<Longrightarrow> sched_inv B kvs eval uniform orig (admit B s)"
  unfolding admit_def by (rule admit_loop_inv) simp

lemma active_waits:
  assumes "sched_inv B kvs eval uniform orig s" and "r \<in> set (sch_active s)"
  shows "rq_history r \<noteq> []" and "length (rq_history r) \<le> sch_n_ctx s" and "waiting (kvs (sch_backend s)) r"
proof -
  have t: "tracks (solo_of uniform eval (be_is_eog B) (sch_n_ctx s)) (sch_n_ctx s) orig (sch_log s) r"
    using assms by (auto simp: sched_inv_def books_def)
  then show "rq_history r \<noteq> []" "length (rq_history r) \<le> sch_n_ctx s" by (auto simp: tracks_def)
  show "waiting (kvs (sch_backend s)) r" using assms by (simp add: sched_inv_def)
qed

lemma waiting_slice:
  assumes "waiting k r" and "rq_history r \<noteq> []"
  shows "sl_tokens (make_slice r) \<noteq> []" and "sl_pos_start (make_slice r) = length (k (rq_seq_id r))"
    and "sl_seq_id (make_slice r) = rq_seq_id r" and "k (rq_seq_id r) @ sl_tokens (make_slice r) = rq_history r"
    and "rq_n_past r + length (sl_tokens (make_slice r)) = length (rq_history r)"
  using assms by (auto simp: waiting_def make_slice_def split: if_splits)

lemma step_inv:
  assumes inv0: "sched_inv B kvs eval uniform orig s0" and st: "step B uniform s0 = (x, s')"
  shows "sched_inv B kvs eval uniform orig s'"
proof -
  define s where "s = admit B s0"
  have inv: "sched_inv B kvs eval uniform orig s" unfolding s_def by (rule admit_inv [OF inv0])
  let ?sl = "map make_slice (sch_active s)"
  note w = waiting_slice [OF active_waits(3) [OF inv] active_waits(1) [OF inv]]
  have ids: "map sl_seq_id ?sl = map rq_seq_id (sch_active s)" by (simp add: make_slice_def)
  have set_ids: "sl_seq_id ` set ?sl = rq_seq_id ` set (sch_active s)" using arg_cong [OF ids, of set] by (simp add: image_image)
  have slots: "slots_ok (kvs (sch_backend s)) (nat (sch_n_parallel s)) (sch_slot_used s) (sch_active s)"
    using inv by (simp add: sched_inv_def)
  have dist: "distinct (map sl_seq_id ?sl)" using slots unfolding ids slots_ok_def by blast
  obtain r b1 where dec: "be_decode_seqs B (sch_backend s) ?sl = (r, b1)" by fastforce
  have mid: "mid_inv B kvs eval uniform orig d [] (sch_active s) (s\<lparr>sch_backend := b1\<rparr>)"
    if "\<And>i. i \<notin> sl_seq_id ` set ?sl \<Longrightarrow> kvs b1 i = kvs (sch_backend s) i"
      "d \<Longrightarrow> \<forall>r\<in>set (sch_active s). kvs b1 (rq_seq_id r) = rq_history r" for d
  proof -
    have "slots_ok (kvs b1) (nat (sch_n_parallel s)) (sch_slot_used s) (sch_active s)"
      by (rule slots_ok_cong [OF slots refl]) (use that(1) in \<open>simp only: set_ids\<close>)
    then show ?thesis using inv that(2) w(5) by (auto simp: mid_inv_def sched_inv_def)
  qed
  show ?thesis
  proof (cases "sch_active s = []")
    case True
    then show ?thesis using st inv by (simp add: step_def s_def [symmetric])
  next
    case act: False
    show ?thesis
    proof (cases r)
      case (Inl e)
      have s': "s' = fail_all B (Engine_model e) (s\<lparr>sch_backend := b1\<rparr>)"
        using st act dec Inl by (simp add: step_def s_def [symmetric] Let_def)
      have "mid_inv B kvs eval uniform orig False [] (sch_active s) (s\<lparr>sch_backend := b1\<rparr>)"
        using dec Inl by (intro mid) (auto intro: seqs_isolated)
      then show ?thesis unfolding s' by (rule fail_all_inv) simp
    next
      case (Inr ls)
      have "list_all (\<lambda>s'. sl_tokens s' \<noteq> [] \<and> sl_pos_start s' = length (kvs (sch_backend s) (sl_seq_id s'))) ?sl"
        using w by (auto simp: list_all_iff)
      from seqs_kv [OF dist this dec [unfolded Inr]]
      have ls: "ls = map (\<lambda>s'. eval (kvs (sch_backend s) (sl_seq_id s') @ sl_tokens s')) ?sl"
        and new: "\<forall>s'\<in>set ?sl. kvs b1 (sl_seq_id s') = kvs (sch_backend s) (sl_seq_id s') @ sl_tokens s'"
        and old: "\<And>i. i \<notin> sl_seq_id ` set ?sl \<Longrightarrow> kvs b1 i = kvs (sch_backend s) i" by blast+
      have ls': "ls = map (\<lambda>r. eval (rq_history r)) (sch_active s)" unfolding ls using w(3,4) by simp
      have s': "s' = sample_loop B uniform (sch_active s) ls [] (s\<lparr>sch_backend := b1\<rparr>)"
        using st act dec Inr by (simp add: step_def s_def [symmetric] Let_def)
      have "mid_inv B kvs eval uniform orig True [] (sch_active s) (s\<lparr>sch_backend := b1\<rparr>)"
        using new w(3,4) by (intro mid old) auto
      then show ?thesis unfolding s' ls' by (rule sample_loop_inv)
    qed
  qed
qed

end

subsection \<open>Submission\<close>

lemma init_inv:
  assumes "Scheduler_init B b n = Inr s" and "be_context_length B < 2 ^ 32" and "\<And>i. kvs b i = []"
  shows "sched_inv B kvs eval uniform Map.empty s"
  using assms by (auto simp: Scheduler_init_def sched_inv_def slots_ok_def books_def split: if_splits)

lemma books_submit:
  assumes "books run n orig calls done rs" and "rq_id p \<notin> dom orig" and "rq_history p \<noteq> []" and "length (rq_history p) \<le> n"
    and "rq_prompt_len p = length (rq_history p)"
  shows "books run n (orig(rq_id p \<mapsto> p)) calls done (rs @ [p])"
proof -
  have "fst ` set calls \<subseteq> dom orig" using assms(1) unfolding books_def by blast
  then have new: "log_of calls (rq_id p) = []"
    using assms(2) by (force simp: log_of_def filter_empty_conv)
  have id: "map_prod ((@) []) id x = x" for x :: "tokens \<times> engine_exn option" by (cases x) simp
  have old: "rq_id r \<noteq> rq_id p" if "r \<in> set rs" for r
    using assms(1,2) that unfolding books_def by (metis UnI1 imageI)
  show ?thesis
    unfolding books_def
  proof (intro conjI ballI allI impI)
    fix r assume r: "r \<in> set (rs @ [p])"
    show "done (rq_id r) = None" using assms(1,2) r unfolding books_def by auto
    show "tracks run n (orig(rq_id p \<mapsto> p)) calls r"
      using r assms(1,3,4,5) old new id by (auto simp: books_def tracks_def)
  next
    fix i err assume "done i = Some err"
    then have "outcome run orig calls i err" "i \<in> dom orig" using assms(1) unfolding books_def by blast+
    then show "outcome run (orig(rq_id p \<mapsto> p)) calls i err" using assms(2) by (auto simp: outcome_def)
  next
    have "rq_id p \<notin> rq_id ` set rs" using old by (metis imageE)
    then show "distinct (map rq_id (rs @ [p]))" using assms(1) unfolding books_def by simp
    show "dom (orig(rq_id p \<mapsto> p)) = rq_id ` set (rs @ [p]) \<union> dom done" using assms(1) unfolding books_def by auto
    show "fst ` set calls \<subseteq> dom (orig(rq_id p \<mapsto> p))"
      using \<open>fst ` set calls \<subseteq> dom orig\<close> by (simp add: subset_insertI2)
  qed
qed

text \<open>The request that a successful submission enqueues.\<close>

definition submitted :: "(int \<Rightarrow> 'r) \<Rightarrow> tokens \<Rightarrow> GenerationConfig \<Rightarrow> (tokens \<Rightarrow> engine_exn + bool) \<Rightarrow> nat \<Rightarrow> 'r Request" where
  "submitted seed prompt gen cb i =
     \<lparr>rq_id = i, rq_history = prompt, rq_prompt_len = length prompt, rq_gen = gen, rq_on_token = cb,
      rq_rng = seed (gc_seed gen), rq_emitted = 0, rq_seq_id = - 1, rq_n_past = 0, rq_needs_prefill = True\<rparr>"

lemma submit_inv:
  assumes "sched_inv B kvs eval uniform orig s" and "submit seed prompt gen (Some cb) s = (Inr i, s')"
  shows "sched_inv B kvs eval uniform (orig(i \<mapsto> submitted seed prompt gen cb i)) s'"
proof -
  let ?p = "submitted seed prompt gen cb i"
  have i: "i = sch_next_id s" "prompt \<noteq> []" "length prompt \<le> sch_n_ctx s"
    and s': "s' = s\<lparr>sch_next_id := i + 1, sch_pending := sch_pending s @ [?p]\<rparr>"
    using assms(2) by (auto simp: submit_def submitted_def split: if_splits)
  have new: "i \<notin> dom orig" using assms(1) i(1) by (auto simp: sched_inv_def)
  have "books (solo_of uniform eval (be_is_eog B) (sch_n_ctx s)) (sch_n_ctx s) (orig(rq_id ?p \<mapsto> ?p)) (sch_log s) (sch_done s)
      ((sch_active s @ sch_pending s) @ [?p])"
    by (rule books_submit) (use assms(1) new i in \<open>simp_all add: sched_inv_def submitted_def\<close>)
  then show ?thesis
    using assms(1) i(1) by (auto simp: sched_inv_def s' submitted_def fresh_def less_Suc_eq)
qed

section \<open>Draining\<close>

text \<open>The rounds a request can still take, bounded by the context.\<close>

definition weight :: "nat \<Rightarrow> 'r Request list \<Rightarrow> nat" where
  "weight n rs = sum_list (map (\<lambda>r. Suc n - length (rq_history r)) rs)"

lemma weight_append [simp]: "weight n (xs @ ys) = weight n xs + weight n ys"
  and weight_Cons [simp]: "weight n (x # xs) = (Suc n - length (rq_history x)) + weight n xs"
  and weight_Nil [simp]: "weight n [] = 0"
  by (simp_all add: weight_def)

lemma weight_histories: "weight n rs = sum_list (map (\<lambda>h. Suc n - length h) (map rq_history rs))"
  by (simp add: weight_def comp_def)

lemma admit_loop_frame:
  "map rq_history (sch_active (admit_loop B ps s) @ sch_pending (admit_loop B ps s)) = map rq_history (sch_active s @ ps) \<and>
   sch_n_ctx (admit_loop B ps s) = sch_n_ctx s \<and> length (sch_active s) \<le> length (sch_active (admit_loop B ps s))"
proof (induction ps arbitrary: s)
  case (Cons p ps)
  have "length (sch_active s) \<le> length (sch_active (admit_loop B ps (s'\<lparr>sch_active := sch_active s @ [r]\<rparr>)))" for s' r
    using Cons.IH [of "s'\<lparr>sch_active := sch_active s @ [r]\<rparr>"] by simp
  then show ?case
    using Cons.IH by (auto simp: Let_def split: option.split)
qed simp

lemma admit_progress:
  assumes "sched_inv B kvs eval uniform orig s" and "sch_active s \<noteq> [] \<or> sch_pending s \<noteq> []"
  shows "sch_active (admit B s) \<noteq> []"
proof (cases "sch_active s")
  case (Cons a as)
  then show ?thesis using admit_loop_frame [of B "sch_pending s" s] by (auto simp: admit_def)
next
  case Nil
  with assms(2) obtain p ps where p: "sch_pending s = p # ps" by (cases "sch_pending s") auto
  have "tracks (solo_of uniform eval (be_is_eog B) (sch_n_ctx s)) (sch_n_ctx s) orig (sch_log s) p"
    using assms(1) p by (simp add: sched_inv_def books_def)
  then have l: "length (rq_history p) \<le> sch_n_ctx s" by (auto simp: tracks_def)
  have n: "1 \<le> sch_n_parallel s" "sch_n_ctx s < 2 ^ 32" using assms(1) by (simp_all add: sched_inv_def)
  have grow: "sch_active (admit_loop B ps (s'\<lparr>sch_active := [r]\<rparr>)) \<noteq> []" for s' r
    using admit_loop_frame [of B ps "s'\<lparr>sch_active := [r]\<rparr>"] by auto
  show ?thesis using n l by (simp add: admit_def p Nil cells_used_def Let_def grow)
qed

lemma sample_loop_weight:
  assumes "\<forall>r\<in>set rs. length (rq_history r) \<le> sch_n_ctx s"
  shows "weight (sch_n_ctx s) (sch_active (sample_loop B uniform rs ls still s)) + length rs \<le>
      weight (sch_n_ctx s) still + weight (sch_n_ctx s) rs \<and>
    sch_pending (sample_loop B uniform rs ls still s) = sch_pending s \<and> sch_n_ctx (sample_loop B uniform rs ls still s) = sch_n_ctx s"
  using assms
proof (induction rs arbitrary: ls still s)
  case (Cons r rs)
  show ?case
  proof (cases ls)
    case Nil
    then show ?thesis using Cons.IH [of "finish B r (Some Out_of_bounds) s" "[]" still] Cons.prems by auto
  next
    case (Cons l ls')
    define r0 where "r0 = r\<lparr>rq_n_past := rq_n_past r + length (sl_tokens (make_slice r)), rq_needs_prefill := False\<rparr>"
    obtain tok r1 ended where adv: "advance_request B uniform (sch_n_ctx s) r0 l = (tok, r1, ended)"
      using prod_cases3 by blast
    define s1 where "s1 = s\<lparr>sch_log := sch_log s @ (case tok of None \<Rightarrow> [] | Some t \<Rightarrow> [(rq_id r, t)])\<rparr>"
    have s1: "sch_n_ctx s1 = sch_n_ctx s" "sch_pending s1 = sch_pending s" by (simp_all add: s1_def)
    have h: "length (rq_history r1) = Suc (length (rq_history r))" if "ended = None"
      using adv that by (auto simp: advance_request_def r0_def Let_def split: sum.splits prod.splits if_splits)
    have step: "sample_loop B uniform (r # rs) ls still s =
      (case ended of Some err \<Rightarrow> sample_loop B uniform rs ls' still (finish B r1 err s1)
       | None \<Rightarrow> sample_loop B uniform rs ls' (still @ [r1]) s1)"
      unfolding s1_def by (simp add: Cons adv [unfolded r0_def] Let_def)
    show ?thesis
    proof (cases ended)
      case None
      with Cons.IH [of s1 ls' "still @ [r1]"] Cons.prems h s1 show ?thesis unfolding step by auto
    next
      case (Some err)
      with Cons.IH [of "finish B r1 err s1" ls' still] Cons.prems s1 show ?thesis unfolding step by auto
    qed
  qed
qed simp

lemma foldl_finish_frame [simp]:
  "sch_pending (foldl (\<lambda>s r. finish B r err s) s rs) = sch_pending s"
  "sch_n_ctx (foldl (\<lambda>s r. finish B r err s) s rs) = sch_n_ctx s"
  by (induction rs arbitrary: s) auto

lemma sample_loop_n_ctx: "sch_n_ctx (sample_loop B uniform rs ls still s) = sch_n_ctx s"
  by (induction B uniform rs ls still s rule: sample_loop.induct) (auto simp: Let_def split: prod.split option.split)

lemma step_result: "step B uniform s = (x, s') \<Longrightarrow> x = (\<not> idle s')"
  by (auto simp: step_def Let_def idle_def fail_all_def split: if_splits sum.splits prod.splits)

lemma step_decreases:
  assumes inv: "sched_inv B kvs eval uniform orig s0" and n: "\<not> idle s0" and st: "step B uniform s0 = (x, s')"
  shows "weight (sch_n_ctx s') (sch_active s' @ sch_pending s') < weight (sch_n_ctx s0) (sch_active s0 @ sch_pending s0) \<and>
    sch_n_ctx s' = sch_n_ctx s0"
proof -
  define s where "s = admit B s0"
  note fr = admit_loop_frame [of B "sch_pending s0" s0, folded admit_def s_def]
  have w: "weight (sch_n_ctx s) (sch_active s @ sch_pending s) = weight (sch_n_ctx s0) (sch_active s0 @ sch_pending s0)"
    using fr by (simp only: weight_histories)
  have act: "sch_active s \<noteq> []" using admit_progress [OF inv] n by (auto simp: idle_def s_def)
  have "\<forall>r\<in>set (sch_active s0 @ sch_pending s0). length (rq_history r) \<le> sch_n_ctx s0"
    using inv by (auto simp: sched_inv_def books_def tracks_def)
  then have "\<forall>h\<in>set (map rq_history (sch_active s0 @ sch_pending s0)). length h \<le> sch_n_ctx s0" by auto
  then have len: "\<forall>r\<in>set (sch_active s). length (rq_history r) \<le> sch_n_ctx s"
    unfolding fr [THEN conjunct1, symmetric] using fr by simp
  obtain r b1 where dec: "be_decode_seqs B (sch_backend s) (map make_slice (sch_active s)) = (r, b1)" by fastforce
  have pos: "0 < weight (sch_n_ctx s) (sch_active s)" using act len by (cases "sch_active s") auto
  have "weight (sch_n_ctx s') (sch_active s' @ sch_pending s') < weight (sch_n_ctx s) (sch_active s @ sch_pending s) \<and>
    sch_n_ctx s' = sch_n_ctx s"
  proof (cases r)
    case (Inl e)
    then show ?thesis using st act dec pos by (auto simp: step_def s_def [symmetric] Let_def fail_all_def)
  next
    case (Inr ls)
    have s': "s' = sample_loop B uniform (sch_active s) ls [] (s\<lparr>sch_backend := b1\<rparr>)"
      using st act dec Inr by (simp add: step_def s_def [symmetric] Let_def)
    obtain k where k: "length (sch_active s) = Suc k" using act by (cases "sch_active s") auto
    show ?thesis
      using sample_loop_weight [of "sch_active s" "s\<lparr>sch_backend := b1\<rparr>" B uniform ls "[]"] len unfolding s' by (auto simp: k)
  qed
  with w fr show ?thesis by auto
qed

section \<open>Reachable states\<close>

text \<open>
  The scheduler as a state machine: any interleaving of submissions and steps, with the requests
  submitted so far.
\<close>

inductive reach :: "'b LlamaBackend \<Rightarrow> 'r uniform \<Rightarrow> (int \<Rightarrow> 'r) \<Rightarrow> 'b \<Rightarrow> int \<Rightarrow> (nat \<rightharpoonup> 'r Request) \<Rightarrow> ('b, 'r) sched \<Rightarrow> bool"
  for B uniform seed b n where
  reach_init: "Scheduler_init B b n = Inr s \<Longrightarrow> reach B uniform seed b n Map.empty s"
| reach_submit: "\<lbrakk>reach B uniform seed b n orig s; submit seed prompt gen (Some cb) s = (Inr i, s')\<rbrakk> \<Longrightarrow>
    reach B uniform seed b n (orig(i \<mapsto> submitted seed prompt gen cb i)) s'"
| reach_step: "\<lbrakk>reach B uniform seed b n orig s; step B uniform s = (x, s')\<rbrakk> \<Longrightarrow> reach B uniform seed b n orig s'"

lemma reach_inv:
  assumes "isolated_seq_backend B kvs eval" and "be_context_length B < 2 ^ 32" and "\<And>i. kvs b i = []"
  shows "reach B uniform seed b n orig s \<Longrightarrow> sched_inv B kvs eval uniform orig s \<and> sch_n_ctx s = be_context_length B"
proof (induction rule: reach.induct)
  case (reach_init s)
  then show ?case using init_inv [where kvs = kvs, OF reach_init assms(2,3)] by (auto simp: Scheduler_init_def split: if_splits)
next
  case (reach_submit orig s prompt gen cb i s')
  have "sch_n_ctx s' = sch_n_ctx s" using reach_submit(2) by (auto simp: submit_def split: if_splits)
  with reach_submit submit_inv show ?case by metis
next
  case (reach_step orig s x s')
  have "sch_n_ctx s' = sch_n_ctx s"
    using reach_step(2) admit_loop_frame [of B "sch_pending s" s]
    by (auto simp: sample_loop_n_ctx step_def admit_def Let_def fail_all_def split: if_splits sum.splits prod.splits)
  with reach_step isolated_seq_backend.step_inv [OF assms(1)] show ?case by metis
qed

lemma run_until_idle_drains:
  assumes "isolated_seq_backend B kvs eval"
  shows "sched_inv B kvs eval uniform orig s \<Longrightarrow> weight (sch_n_ctx s) (sch_active s @ sch_pending s) < fuel \<Longrightarrow>
    \<exists>s'. run_until_idle B uniform fuel s = Some s' \<and> idle s' \<and> sched_inv B kvs eval uniform orig s' \<and> sch_n_ctx s' = sch_n_ctx s"
proof (induction fuel arbitrary: s)
  case (Suc fuel)
  obtain x s1 where st: "step B uniform s = (x, s1)" by fastforce
  have inv1: "sched_inv B kvs eval uniform orig s1" by (rule isolated_seq_backend.step_inv [OF assms Suc.prems(1) st])
  have x: "x = (\<not> idle s1)" by (rule step_result [OF st])
  show ?case
  proof (cases "idle s")
    case True
    then have "s1 = s" "\<not> x"
      using st by (auto simp: idle_def step_def admit_def Let_def)
    then show ?thesis using st inv1 True by simp
  next
    case False
    note d = step_decreases [OF Suc.prems(1) False st]
    show ?thesis
    proof (cases "idle s1")
      case True
      then show ?thesis using st x inv1 d by simp
    next
      case False
      have "weight (sch_n_ctx s1) (sch_active s1 @ sch_pending s1) < fuel" using d Suc.prems(2) by linarith
      from Suc.IH [OF inv1 this] st x False d show ?thesis by simp
    qed
  qed
qed simp

section \<open>The backend over llama.cpp\<close>

text \<open>A \<open>llama_decode\<close>, failed or not, touches only the sequences of its batch.\<close>

definition llama_isolated :: "'c llama_lib \<Rightarrow> ('c \<Rightarrow> int \<Rightarrow> tokens) \<Rightarrow> bool" where
  "llama_isolated L cells \<longleftrightarrow>
     (\<forall>c bt rc c' i. llama_decode L c bt = (rc, c') \<and> i \<notin> bt_seq ` set bt \<longrightarrow> cells c' i = cells c i)"

lemma slices_seqs: "bt_seq ` set (concat (map slice_batch ss)) \<subseteq> sl_seq_id ` set ss"
  by (auto simp: slice_batch_def)

lemma real_backend_isolated:
  assumes "llama_ok L cells eval" and "llama_isolated L cells"
  shows "isolated_seq_backend (real_backend L) (\<lambda>b. cells (rb_ctx b)) eval"
proof -
  have "cells (rb_ctx b') i = cells (rb_ctx b) i"
    if d: "be_decode_seqs (real_backend L) b ss = (Inl e, b')" and i: "i \<notin> sl_seq_id ` set ss" for b ss e b' i
  proof -
    obtain rc ctx where l: "llama_decode L (rb_ctx b) (concat (map slice_batch ss)) = (rc, ctx)" by fastforce
    have "cells ctx i = cells (rb_ctx b) i" using assms(2) l i slices_seqs [of ss] unfolding llama_isolated_def by blast
    moreover have "b' = b \<or> b' = b\<lparr>rb_ctx := ctx\<rparr>"
      using d l by (auto simp: real_backend_def real_decode_seqs_def Let_def split: if_splits)
    ultimately show ?thesis by auto
  qed
  then show ?thesis
    by (intro isolated_seq_backend.intro real_backend_seqs [OF assms(1)] isolated_seq_backend_axioms.intro) blast
qed

lemma ref_llama_isolated: "llama_isolated (ref_llama ev eog n) ref_cells"
proof -
  have "ref_cells c' i = ref_cells c i" if "ref_decode ev c bt = (rc, c')" "i \<notin> bt_seq ` set bt" for c bt rc c' i
  proof -
    have "batch_tokens bt i = []" using that(2) by (auto simp: batch_tokens_def filter_empty_conv)
    then show ?thesis using that(1) by (auto simp: ref_decode_def ref_cells_append split: if_splits)
  qed
  then show ?thesis unfolding llama_isolated_def by (auto simp: ref_llama_def)
qed

interpretation real: isolated_seq_backend "real_backend (ref_llama ev eog n)" "\<lambda>b. ref_cells (rb_ctx b)" ev
  for ev eog n
  by (rule real_backend_isolated [OF ref_llama_ok ref_llama_isolated])

section \<open>A concrete run\<close>

text \<open>One slot, one request for one token, over a model that always prefers token 7.\<close>

definition sched_backend :: "ref_ctx RealLlamaBackend LlamaBackend" where
  "sched_backend = real_backend (ref_llama (\<lambda>_. one_hot 256 7) (\<lambda>_. False) 16)"

definition sched_b0 :: "ref_ctx RealLlamaBackend" where
  "sched_b0 = \<lparr>rb_ctx = \<lparr>rc_seqs = [], rc_logits = []\<rparr>, rb_n_past = 0\<rparr>"

definition sched_gen :: GenerationConfig where
  "sched_gen = \<lparr>gc_max_tokens = 1, gc_temperature = 0, gc_top_p = 1, gc_repeat_penalty = 1, gc_repeat_last_n = 0,
     gc_seed = 0, gc_echo_prompt = False\<rparr>"

definition sched_s1 :: "(ref_ctx RealLlamaBackend, nat) sched" where
  "sched_s1 = \<lparr>sch_backend = sched_b0, sch_n_parallel = 1, sch_n_ctx = 16,
     sch_pending = [submitted (\<lambda>_. 0) [5] sched_gen (\<lambda>_. Inr True) 1],
     sch_active = [], sch_slot_used = [False], sch_done = Map.empty, sch_next_id = 2, sch_log = []\<rparr>"

abbreviation sched_uniform :: "nat uniform" where
  "sched_uniform \<equiv> \<lambda>k. (1 / 2, Suc k)"

abbreviation sched_orig :: "nat \<rightharpoonup> nat Request" where
  "sched_orig \<equiv> [1 \<mapsto> submitted (\<lambda>_. 0) [5] sched_gen (\<lambda>_. Inr True) 1]"

lemma sched_backend_ok: "isolated_seq_backend sched_backend (\<lambda>b. ref_cells (rb_ctx b)) (\<lambda>_. one_hot 256 7)"
  unfolding sched_backend_def by (rule real.isolated_seq_backend_axioms)

lemma sched_backend_ctx: "be_context_length sched_backend = 16"
  by (simp add: sched_backend_def real_backend_def ref_llama_def)

lemma sched_b0_empty: "ref_cells (rb_ctx sched_b0) i = []"
  by (simp add: sched_b0_def ref_cells_def)

lemma sched_reach1: "reach sched_backend sched_uniform (\<lambda>_. 0) sched_b0 1 sched_orig sched_s1"
proof -
  let ?s0 = "\<lparr>sch_backend = sched_b0, sch_n_parallel = 1, sch_n_ctx = 16, sch_pending = [], sch_active = [],
    sch_slot_used = [False], sch_done = Map.empty, sch_next_id = 1, sch_log = []\<rparr>"
  have "reach sched_backend sched_uniform (\<lambda>_. 0) sched_b0 1 Map.empty ?s0"
    by (rule reach_init) (simp add: Scheduler_init_def sched_backend_ctx)
  then show ?thesis
    by (rule reach_submit) (simp add: submit_def submitted_def sched_s1_def)
qed

lemma sched_step1:
  obtains s2 where "step sched_backend sched_uniform sched_s1 = (False, s2)" "sch_log s2 = [(1, 7)]"
    "sch_done s2 = [1 \<mapsto> None]"
proof -
  let ?r = "(submitted (\<lambda>_. 0) [5] sched_gen (\<lambda>_. Inr True) 1)\<lparr>rq_seq_id := 0\<rparr> :: nat Request"
  let ?s = "sched_s1\<lparr>sch_slot_used := [True], sch_active := [?r], sch_pending := []\<rparr>"
  have ad: "admit sched_backend sched_s1 = ?s"
    by (simp add: admit_def sched_s1_def cells_used_def submitted_def free_slot_def Let_def)
  have dec: "be_decode_seqs sched_backend sched_b0 (map make_slice [?r]) =
    (Inr [one_hot 256 7], sched_b0\<lparr>rb_ctx := \<lparr>rc_seqs = [[5]], rc_logits = [one_hot 256 7]\<rparr>\<rparr>)"
    by (simp add: sched_backend_def real_backend_def real_decode_seqs_def ref_llama_def sched_b0_def make_slice_def
        submitted_def slice_batch_def ref_decode_def placed_def batch_tokens_def ref_cells_def ref_update_def Let_def)
  have ne: "one_hot 256 7 \<noteq> []" by (metis length_0_conv length_one_hot zero_neq_numeral)
  have sm: "sample sched_uniform sched_gen (one_hot 256 7) [5] 0 = (Inr 7, 0)"
    by (subst sample_greedy [OF _ ne])
       (simp_all add: sched_gen_def greedy_token_def repeat_penalty_def argmax_one_hot)
  have eog: "be_is_eog sched_backend 7 = False" by (simp add: sched_backend_def real_backend_def ref_llama_def)
  let ?b = "sched_b0\<lparr>rb_ctx := \<lparr>rc_seqs = [[5]], rc_logits = [one_hot 256 7]\<rparr>\<rparr>"
  have s: "sch_active ?s = [?r]" "sch_backend ?s = sched_b0" by (simp_all add: sched_s1_def)
  have adv: "advance_request sched_backend sched_uniform 16 r (one_hot 256 7) =
      (Some 7, r\<lparr>rq_rng := 0, rq_history := [5, 7], rq_emitted := 1\<rparr>, Some None)"
    if "rq_gen r = sched_gen" "rq_history r = [5]" "rq_rng r = 0" "rq_on_token r = (\<lambda>_. Inr True)" "rq_emitted r = 0" for r
    using that by (simp add: advance_request_def sm eog Let_def) (simp add: sched_gen_def)
  define s2 where "s2 = sample_loop sched_backend sched_uniform [?r] [one_hot 256 7] [] (?s\<lparr>sch_backend := ?b\<rparr>)"
  have s2: "sch_active s2 = []" "sch_pending s2 = []" "sch_log s2 = [(1, 7)]" "sch_done s2 = [1 \<mapsto> None]"
    using adv by (simp_all add: s2_def sched_s1_def submitted_def Let_def)
  have "step sched_backend sched_uniform sched_s1 = (False, s2)"
    unfolding step_def ad Let_def s dec prod.case sum.case s2_def [symmetric] s2 by simp
  then show ?thesis using that s2 by blast
qed

section \<open>Properties\<close>

text \<open>
  C6. Sharing the batch is invisible: in every reachable state, whatever was submitted before,
  beside and after it, a finished request has been given exactly the tokens, and has ended
  exactly the way, it would alone, sampling from the logits of its own history; the one other
  way to end is a failed batch, and then it has been given a prefix of them. In particular
  cloning the KV sequence of a request with the same prompt changes nothing.
\<close>

theorem scheduled_as_if_alone:
  assumes "isolated_seq_backend B kvs eval" and "be_context_length B < 2 ^ 32" and "\<And>i. kvs b i = []"
    and "reach B uniform seed b n orig s" and "sch_done s i = Some err"
  shows "\<exists>q. orig i = Some q \<and>
    (solo_of uniform eval (be_is_eog B) (be_context_length B) q = (log_of (sch_log s) i, err) \<or>
     (\<exists>e rest. err = Some (Engine_model e) \<and>
        fst (solo_of uniform eval (be_is_eog B) (be_context_length B) q) = log_of (sch_log s) i @ rest))"
  using reach_inv [where kvs = kvs, OF assms(1,2,3,4)] assms(5) unfolding sched_inv_def books_def outcome_def by metis

theorem scheduled_as_if_alone_witness:
  "\<exists>s. reach sched_backend sched_uniform (\<lambda>_. 0) sched_b0 1 sched_orig s \<and> sch_done s 1 = Some None \<and>
    solo_of sched_uniform (\<lambda>_. one_hot 256 7) (be_is_eog sched_backend) 16
      (submitted (\<lambda>_. 0) [5] sched_gen (\<lambda>_. Inr True) 1) = ([7], None)"
proof -
  obtain s2 where s2: "step sched_backend sched_uniform sched_s1 = (False, s2)" "sch_log s2 = [(1, 7)]" "sch_done s2 = [1 \<mapsto> None]"
    by (rule sched_step1)
  have r: "reach sched_backend sched_uniform (\<lambda>_. 0) sched_b0 1 sched_orig s2" by (rule reach_step [OF sched_reach1 s2(1)])
  have lt: "be_context_length sched_backend < 2 ^ 32" by (simp add: sched_backend_ctx)
  have d: "sch_done s2 1 = Some None" by (simp add: s2(3))
  from scheduled_as_if_alone [where kvs = "\<lambda>b. ref_cells (rb_ctx b)", OF sched_backend_ok lt sched_b0_empty r d]
  show ?thesis using r d by (auto simp: s2(2) log_of_def sched_backend_ctx)
qed

text \<open>
  C11. The scheduler keeps its requests apart: in every reachable state at most \<open>n_parallel\<close>
  requests are active, each in a slot and a KV sequence of its own, the slots marked as used
  are theirs, the sequence of a request holds all of its history but the newest token (or
  nothing, before its prefill), with \<open>n_past\<close> its length, and a free slot's sequence is empty.
\<close>

theorem scheduler_slots_separate:
  assumes "isolated_seq_backend B kvs eval" and "be_context_length B < 2 ^ 32" and "\<And>i. kvs b i = []"
    and "reach B uniform seed b n orig s"
  shows "length (sch_active s) \<le> nat (sch_n_parallel s) \<and>
    slots_ok (kvs (sch_backend s)) (nat (sch_n_parallel s)) (sch_slot_used s) (sch_active s) \<and>
    (\<forall>r\<in>set (sch_active s). waiting (kvs (sch_backend s)) r)"
  using reach_inv [where kvs = kvs, OF assms] slots_ok_count unfolding sched_inv_def by blast

theorem scheduler_slots_separate_witness:
  "length (sch_active sched_s1) \<le> nat (sch_n_parallel sched_s1) \<and>
   slots_ok (ref_cells (rb_ctx (sch_backend sched_s1))) (nat (sch_n_parallel sched_s1)) (sch_slot_used sched_s1) (sch_active sched_s1)"
  using scheduler_slots_separate [where kvs = "\<lambda>b. ref_cells (rb_ctx b)", OF sched_backend_ok _ sched_b0_empty sched_reach1]
  by (simp add: sched_backend_ctx)

text \<open>
  C20. The scheduler drains: from every reachable state \<open>run_until_idle\<close> comes to an end, with
  nothing pending or active and every submitted request finished. The number of steps it takes
  is bounded by the room the histories have left in the context, even when batches fail,
  callbacks throw or admission has to wait for space or for a donor.
\<close>

theorem scheduler_drains:
  assumes "isolated_seq_backend B kvs eval" and "be_context_length B < 2 ^ 32" and "\<And>i. kvs b i = []"
    and "reach B uniform seed b n orig s"
  shows "\<exists>s'. run_until_idle B uniform (Suc (weight (be_context_length B) (sch_active s @ sch_pending s))) s = Some s' \<and>
    idle s' \<and> (\<forall>i. finished s' i = (i \<in> dom orig))"
proof -
  note inv = reach_inv [where kvs = kvs, OF assms]
  then have "sched_inv B kvs eval uniform orig s" by blast
  from run_until_idle_drains [OF assms(1) this lessI] inv obtain s' where
    s': "run_until_idle B uniform (Suc (weight (be_context_length B) (sch_active s @ sch_pending s))) s = Some s'"
    "idle s'" "sched_inv B kvs eval uniform orig s'" by metis
  have "dom orig = dom (sch_done s')" using s'(2,3) unfolding sched_inv_def books_def idle_def by simp
  then show ?thesis using s'(1,2) by (auto simp: finished_def)
qed

theorem scheduler_drains_witness:
  "\<exists>s'. run_until_idle sched_backend sched_uniform (Suc (weight 16 (sch_pending sched_s1))) sched_s1 = Some s' \<and>
    idle s' \<and> finished s' 1"
  using scheduler_drains [where kvs = "\<lambda>b. ref_cells (rb_ctx b)", OF sched_backend_ok _ sched_b0_empty sched_reach1]
  by (auto simp: sched_backend_ctx sched_s1_def)

end
