(* ===== verification/Conclave.thy ===== *)
theory Conclave
  imports Sampling
begin

text \<open>
  The conclave (\<open>src/src/core/conclave.cpp\<close>): the similarity of two answers, the number an
  answer concludes with, and the election of one of several answers. Doubles are reals.

  The main results: the similarity is the symmetric Jaccard index in the unit interval, the
  medoid has the greatest summed similarity, and a number that more than half of the answers
  conclude with is always elected.
\<close>

section \<open>Model\<close>

text \<open>The words of a text, lower-cased, with the unfinished word \<open>cur\<close>.\<close>

fun words_from :: "bytes \<Rightarrow> bytes \<Rightarrow> bytes list" where
  "words_from [] cur = (if cur \<noteq> [] then [cur] else [])"
| "words_from (ch # text) cur =
     (if isalnum ch then words_from text (cur @ [tolower ch])
      else if cur \<noteq> [] then cur # words_from text []
      else words_from text [])"

definition word_set :: "bytes \<Rightarrow> bytes set" where
  "word_set text = set (words_from text [])"

definition answer_similarity :: "bytes \<Rightarrow> bytes \<Rightarrow> real" where
  "answer_similarity a b =
     (let wa = word_set a; wb = word_set b
      in if wa = {} \<or> wb = {} then 0
         else let common = card {w\<in>wa. w \<in> wb}; uni = card wa + card wb - common
              in if uni = 0 then 0 else real common / real uni)"

text \<open>The inner loop of \<open>final_number\<close>, from position \<open>i\<close>: where it stops and the number read.\<close>

function number_loop :: "bytes \<Rightarrow> nat \<Rightarrow> bool \<Rightarrow> bytes \<Rightarrow> nat \<times> bytes" where
  "number_loop text i seen_dot cur =
     (if i < length text
      then let ch = text ! i; digit_next = (i + 1 < length text \<and> isdigit (text ! (i + 1)))
           in if isdigit ch then number_loop text (i + 1) seen_dot (cur @ [ch])
              else if ch = CHR '','' \<and> digit_next then number_loop text (i + 1) seen_dot cur
              else if ch = CHR ''.'' \<and> \<not> seen_dot \<and> digit_next then number_loop text (i + 1) True (cur @ [CHR ''.''])
              else (i, cur)
      else (i, cur))"
  by pat_completeness auto
termination
  by (relation "measure (\<lambda>(text, i, _, _). length text - i)") auto

declare number_loop.simps [simp del]

lemma number_loop_mono: "i \<le> fst (number_loop t i seen_dot cur)"
  by (induction t i seen_dot cur rule: number_loop.induct)
     (subst number_loop.simps, force simp: Let_def)

definition is_sign :: "bytes \<Rightarrow> nat \<Rightarrow> bool" where
  "is_sign text i \<longleftrightarrow>
     text ! i = CHR ''-'' \<and> i + 1 < length text \<and> isdigit (text ! (i + 1)) \<and> (i = 0 \<or> \<not> isalnum (text ! (i - 1)))"

text \<open>A number read from a digit or a sign is not empty.\<close>

lemma number_progress:
  assumes "i < length t" and "isdigit (t ! i) \<or> is_sign t i"
  shows "i < fst (if is_sign t i then number_loop t (i + 1) False ''-'' else number_loop t i False [])"
proof (cases "is_sign t i")
  case True
  with number_loop_mono [of "i + 1" t False "''-''"] show ?thesis by simp
next
  case False
  have "number_loop t i False [] = number_loop t (i + 1) False [t ! i]"
    using False assms by (subst number_loop.simps) (simp add: Let_def)
  with False number_loop_mono [of "i + 1" t False "[t ! i]"] show ?thesis by simp
qed

function final_loop :: "bytes \<Rightarrow> nat \<Rightarrow> bytes \<Rightarrow> bytes" where
  "final_loop text i last_number =
     (if i < length text
      then if \<not> isdigit (text ! i) \<and> \<not> is_sign text i then final_loop text (i + 1) last_number
           else let (j, cur) = (if is_sign text i then number_loop text (i + 1) False ''-'' else number_loop text i False [])
                in final_loop text j cur
      else last_number)"
  by pat_completeness auto
termination
proof (relation "measure (\<lambda>(text, i, _). length text - i)", goal_cases)
  case (3 t i n p j cur)
  have "i < j" using number_progress [OF 3(1)] 3(2-4) by (metis fst_conv)
  with 3(1) show ?case by simp
qed auto

declare final_loop.simps [simp del]

definition final_number :: "bytes \<Rightarrow> bytes" where
  "final_number text = final_loop text 0 []"

definition similarity_score :: "bytes list \<Rightarrow> nat \<Rightarrow> real" where
  "similarity_score candidates i =
     sum_list (map (\<lambda>j. if i \<noteq> j then answer_similarity (candidates ! i) (candidates ! j) else 0) [0..<length candidates])"

text \<open>The loop of \<open>elect\<close> over the candidates \<open>is\<close>.\<close>

fun elect_loop :: "(nat \<Rightarrow> real) \<Rightarrow> nat list \<Rightarrow> nat \<Rightarrow> real \<Rightarrow> nat" where
  "elect_loop score [] best best_score = best"
| "elect_loop score (i # is) best best_score =
     (if best_score < score i then elect_loop score is i (score i) else elect_loop score is best best_score)"

definition elect :: "bytes list \<Rightarrow> nat" where
  "elect candidates =
     (if length candidates < 2 then 0
      else elect_loop (similarity_score candidates) [0..<length candidates] 0 (- 1))"

definition votes_of :: "bytes list \<Rightarrow> bytes \<Rightarrow> nat" where
  "votes_of numbers n = length (filter (\<lambda>m. m = n) numbers)"

text \<open>The numeric vote; the number of candidates when no number has two votes.\<close>

fun vote_loop :: "bytes list \<Rightarrow> nat list \<Rightarrow> nat \<Rightarrow> nat \<Rightarrow> nat" where
  "vote_loop numbers [] best best_votes = best"
| "vote_loop numbers (i # is) best best_votes =
     (if numbers ! i = [] then vote_loop numbers is best best_votes
      else let votes = votes_of numbers (numbers ! i)
           in if best_votes < votes then vote_loop numbers is i votes
              else vote_loop numbers is best best_votes)"

definition elect_numeric :: "bytes list \<Rightarrow> nat" where
  "elect_numeric candidates =
     (if length candidates < 2 then 0
      else let numbers = map final_number candidates;
               numeric = length (filter (\<lambda>n. n \<noteq> []) numbers);
               best = (if length candidates \<le> numeric * 2
                       then vote_loop numbers [0..<length candidates] (length candidates) 1 else length candidates)
           in if best < length candidates then best else elect candidates)"

definition conclave_attempt :: "GenerationConfig \<Rightarrow> int \<Rightarrow> GenerationConfig" where
  "conclave_attempt gen i =
     (if i = 0 then gen
      else gen\<lparr>gc_seed := gc_seed gen + i,
               gc_temperature := (if gc_temperature gen < 7 / 10 then 7 / 10 else gc_temperature gen)\<rparr>)"

section \<open>Similarity\<close>

lemma finite_word_set [simp]: "finite (word_set t)"
  by (simp add: word_set_def)

lemma answer_similarity_jaccard:
  assumes "word_set a \<noteq> {}" and "word_set b \<noteq> {}"
  shows "answer_similarity a b = real (card (word_set a \<inter> word_set b)) / real (card (word_set a \<union> word_set b))"
proof -
  have "{w\<in>word_set a. w \<in> word_set b} = word_set a \<inter> word_set b" by blast
  moreover have "card (word_set a \<union> word_set b) = card (word_set a) + card (word_set b) - card (word_set a \<inter> word_set b)"
    using card_Un_Int [of "word_set a" "word_set b"] by simp
  moreover have "card (word_set a \<union> word_set b) \<noteq> 0" using assms by simp
  ultimately show ?thesis using assms by (simp add: answer_similarity_def Let_def)
qed

section \<open>Elections\<close>

lemma elect_loop_spec:
  "let r = elect_loop score is best best_score
   in r = best \<and> (\<forall>i\<in>set is. score i \<le> best_score) \<or>
      r \<in> set is \<and> best_score < score r \<and> (\<forall>i\<in>set is. score i \<le> score r)"
proof (induction "is" arbitrary: best best_score)
  case (Cons i "is")
  show ?case
  proof (cases "best_score < score i")
    case True
    with Cons.IH [of i "score i"] show ?thesis by (auto simp: Let_def)
  next
    case False
    with Cons.IH [of best best_score] show ?thesis by (auto simp: Let_def)
  qed
qed simp

lemma vote_loop_spec:
  "let r = vote_loop numbers is best best_votes
   in r = best \<and> (\<forall>i\<in>set is. numbers ! i \<noteq> [] \<longrightarrow> votes_of numbers (numbers ! i) \<le> best_votes) \<or>
      r \<in> set is \<and> numbers ! r \<noteq> [] \<and> best_votes < votes_of numbers (numbers ! r) \<and>
      (\<forall>i\<in>set is. numbers ! i \<noteq> [] \<longrightarrow> votes_of numbers (numbers ! i) \<le> votes_of numbers (numbers ! r))"
proof (induction "is" arbitrary: best best_votes)
  case (Cons i "is")
  show ?case
  proof (cases "numbers ! i \<noteq> [] \<and> best_votes < votes_of numbers (numbers ! i)")
    case True
    with Cons.IH [of i "votes_of numbers (numbers ! i)"] show ?thesis by (auto simp: Let_def)
  next
    case False
    with Cons.IH [of best best_votes] show ?thesis by (auto simp: Let_def)
  qed
qed simp

lemma answer_similarity_bounds: "0 \<le> answer_similarity a b \<and> answer_similarity a b \<le> 1"
proof (cases "word_set a = {} \<or> word_set b = {}")
  case True
  then show ?thesis by (auto simp: answer_similarity_def)
next
  case False
  then have "answer_similarity a b = real (card (word_set a \<inter> word_set b)) / real (card (word_set a \<union> word_set b))"
    by (simp add: answer_similarity_jaccard)
  moreover have "card (word_set a \<inter> word_set b) \<le> card (word_set a \<union> word_set b)" by (intro card_mono) auto
  moreover have "0 < card (word_set a \<union> word_set b)" using False by (simp add: card_gt_0_iff)
  ultimately show ?thesis by (simp add: divide_le_eq_1)
qed

lemma similarity_score_nonneg: "0 \<le> similarity_score cs i"
  unfolding similarity_score_def by (intro sum_list_nonneg) (auto simp: answer_similarity_bounds)

lemma elect_medoid:
  assumes "2 \<le> length cs"
  shows "elect cs < length cs \<and> (\<forall>i<length cs. similarity_score cs i \<le> similarity_score cs (elect cs))"
proof -
  have "\<not> (\<forall>i\<in>set [0..<length cs]. similarity_score cs i \<le> - 1)"
  proof
    assume "\<forall>i\<in>set [0..<length cs]. similarity_score cs i \<le> - 1"
    moreover have "0 \<in> set [0..<length cs]" using assms by auto
    ultimately have "similarity_score cs 0 \<le> - 1" by blast
    with similarity_score_nonneg [of cs 0] show False by linarith
  qed
  with elect_loop_spec [of "similarity_score cs" "[0..<length cs]" 0 "- 1"] assms show ?thesis
    by (auto simp: elect_def Let_def)
qed

lemma elect_less: "cs \<noteq> [] \<Longrightarrow> elect cs < length cs"
  using elect_medoid [of cs] by (cases "length cs < 2") (auto simp: elect_def)

lemma votes_disjoint: "m \<noteq> n \<Longrightarrow> votes_of ns m + votes_of ns n \<le> length ns"
  by (induction ns) (auto simp: votes_of_def)

lemma votes_numeric: "m \<noteq> [] \<Longrightarrow> votes_of ns m \<le> length (filter (\<lambda>n. n \<noteq> []) ns)"
  by (induction ns) (auto simp: votes_of_def)

lemma votes_pos: "0 < votes_of ns m \<Longrightarrow> \<exists>i<length ns. ns ! i = m"
  by (auto simp: votes_of_def filter_empty_conv in_set_conv_nth)

lemma elect_numeric_less: "cs \<noteq> [] \<Longrightarrow> elect_numeric cs < length cs"
  using elect_less [of cs] by (auto simp: elect_numeric_def Let_def)

lemma elect_numeric_majority:
  assumes "m \<noteq> []" and "length cs < 2 * votes_of (map final_number cs) m"
  shows "elect_numeric cs < length cs \<and> final_number (cs ! elect_numeric cs) = m"
proof -
  let ?ns = "map final_number cs"
  obtain i where i: "i < length cs" "?ns ! i = m" using votes_pos [of ?ns m] assms(2) by auto
  show ?thesis
  proof (cases "length cs < 2")
    case True
    with i have "length cs = 1" "i = 0" by auto
    with i show ?thesis by (simp add: elect_numeric_def)
  next
    case False
    have half: "length cs \<le> length (filter (\<lambda>n. n \<noteq> []) ?ns) * 2" using votes_numeric [OF assms(1), of ?ns] assms(2) by linarith
    define r where "r = vote_loop ?ns [0..<length cs] (length cs) 1"
    have "1 < votes_of ?ns m" using False assms(2) by linarith
    then have not: "\<not> (\<forall>i\<in>set [0..<length cs]. ?ns ! i \<noteq> [] \<longrightarrow> votes_of ?ns (?ns ! i) \<le> 1)" using i assms(1) by force
    with vote_loop_spec [of ?ns "[0..<length cs]" "length cs" 1] have r: "r \<in> set [0..<length cs]"
      "\<forall>i\<in>set [0..<length cs]. ?ns ! i \<noteq> [] \<longrightarrow> votes_of ?ns (?ns ! i) \<le> votes_of ?ns (?ns ! r)"
      unfolding r_def [symmetric] Let_def by blast+
    have "votes_of ?ns m \<le> votes_of ?ns (?ns ! r)" using r(2) i assms(1) by force
    then have "?ns ! r = m" using votes_disjoint [of "?ns ! r" m ?ns] assms(2) by fastforce
    moreover have "elect_numeric cs = r" using False half r(1) by (simp add: elect_numeric_def Let_def r_def)
    ultimately show ?thesis using r(1) by simp
  qed
qed

section \<open>The last number\<close>

lemma number_loop_digits:
  "list_all isdigit ds \<Longrightarrow> number_loop (pre @ ds) (length pre) b cur = (length (pre @ ds), cur @ ds)"
proof (induction ds arbitrary: pre cur)
  case Nil
  then show ?case by (subst number_loop.simps) simp
next
  case (Cons d ds)
  from Cons.IH [of "pre @ [d]" "cur @ [d]"] Cons.prems show ?case
    by (subst number_loop.simps) (simp add: Let_def nth_append)
qed

text \<open>A character no number can reach across.\<close>

definition breaks_number :: "char \<Rightarrow> bool" where
  "breaks_number c \<longleftrightarrow> \<not> isdigit c \<and> c \<noteq> CHR '','' \<and> c \<noteq> CHR ''.'' \<and> c \<noteq> CHR ''-''"

lemma number_loop_stops:
  "p < length t \<Longrightarrow> breaks_number (t ! p) \<Longrightarrow> i \<le> p \<Longrightarrow> fst (number_loop t i b cur) \<le> p"
proof (induction t i b cur rule: number_loop.induct)
  case (1 t i b cur)
  show ?case
  proof (cases "i = p")
    case True
    with 1(4,5) show ?thesis by (subst number_loop.simps) (simp add: breaks_number_def Let_def)
  next
    case False
    with 1 show ?thesis by (subst number_loop.simps) (auto simp: Let_def)
  qed
qed

lemma final_loop_skips:
  assumes "p < length t" and "breaks_number (t ! p)"
  shows "i \<le> p \<Longrightarrow> \<exists>l'. final_loop t i l = final_loop t (Suc p) l'"
proof (induction "Suc p - i" arbitrary: i l rule: less_induct)
  case less
  have i: "i < length t" using less.prems assms(1) by simp
  show ?case
  proof (cases "isdigit (t ! i) \<or> is_sign t i")
    case False
    then have step: "final_loop t i l = final_loop t (Suc i) l" using i by (subst final_loop.simps) simp
    show ?thesis
    proof (cases "i = p")
      case True
      with step show ?thesis by auto
    next
      case False
      with less.hyps [of "Suc i" l] less.prems step show ?thesis by auto
    qed
  next
    case True
    then have "i \<noteq> p" using assms(2) by (auto simp: breaks_number_def is_sign_def)
    define jc where "jc = (if is_sign t i then number_loop t (i + 1) False ''-'' else number_loop t i False [])"
    have step: "final_loop t i l = final_loop t (fst jc) (snd jc)"
      using True i by (subst final_loop.simps) (auto simp: jc_def Let_def split: prod.splits)
    have "i < fst jc" unfolding jc_def by (rule number_progress [OF i True])
    moreover have "fst jc \<le> p"
      unfolding jc_def using number_loop_stops [OF assms] less.prems \<open>i \<noteq> p\<close> by simp
    ultimately show ?thesis using less.hyps [of "fst jc" "snd jc"] less.prems step by simp
  qed
qed

lemma final_number_digits:
  assumes "list_all isdigit ds" and "ds \<noteq> []" and "pre = [] \<or> breaks_number (last pre)"
  shows "final_number (pre @ ds) = ds"
proof -
  have d: "isdigit (ds ! 0)" using assms(1,2) by (cases ds) auto
  then have not: "\<not> is_sign (pre @ ds) (length pre)" by (auto simp: is_sign_def nth_append isdigit_def)
  have "final_loop (pre @ ds) (length pre) l = final_loop (pre @ ds) (length (pre @ ds)) ds" for l
    using d assms(2) not number_loop_digits [OF assms(1), of pre False "[]"]
    by (subst final_loop.simps) (simp add: nth_append)
  then have at: "final_loop (pre @ ds) (length pre) l = ds" for l by (simp add: final_loop.simps)
  show ?thesis
  proof (cases "pre = []")
    case True
    then show ?thesis using at by (simp add: final_number_def)
  next
    case False
    with assms(3) have "breaks_number ((pre @ ds) ! (length pre - 1))" by (simp add: nth_append last_conv_nth)
    moreover have "length pre - 1 < length (pre @ ds)" using False by (simp add: diff_less trans_less_add1)
    ultimately obtain l' where
      "final_loop (pre @ ds) 0 [] = final_loop (pre @ ds) (Suc (length pre - 1)) l'"
      using final_loop_skips [of "length pre - 1" "pre @ ds" 0 "[]"] by blast
    with False at show ?thesis by (simp add: final_number_def)
  qed
qed

section \<open>Properties\<close>

text \<open>
  The similarity of two answers is the Jaccard index of their sets of words: symmetric,
  between 0 and 1, and 1 exactly for answers with the same words.
\<close>

theorem answer_similarity_metric:
  "answer_similarity a b = answer_similarity b a \<and> 0 \<le> answer_similarity a b \<and> answer_similarity a b \<le> 1 \<and>
   (answer_similarity a b = 1) = (word_set a = word_set b \<and> word_set a \<noteq> {})"
proof (cases "word_set a = {} \<or> word_set b = {}")
  case True
  then show ?thesis by (auto simp: answer_similarity_def)
next
  case False
  then have j: "answer_similarity a b = real (card (word_set a \<inter> word_set b)) / real (card (word_set a \<union> word_set b))"
    "answer_similarity b a = real (card (word_set b \<inter> word_set a)) / real (card (word_set b \<union> word_set a))"
    by (simp_all add: answer_similarity_jaccard)
  have pos: "0 < card (word_set a \<union> word_set b)" using False by (simp add: card_gt_0_iff)
  have "(card (word_set a \<inter> word_set b) = card (word_set a \<union> word_set b)) = (word_set a = word_set b)"
    using card_subset_eq [of "word_set a \<union> word_set b" "word_set a \<inter> word_set b"] by auto
  then show ?thesis
    using pos False answer_similarity_bounds [of a b] by (auto simp: j Int_commute Un_commute divide_eq_1_iff)
qed

text \<open>
  The election: the elected index is always a candidate; a number that more than half of the
  candidates conclude with is the number of the elected one; and when no number has two votes,
  the elected answer has the greatest summed similarity to the others.
\<close>

theorem election_correct:
  assumes "cs \<noteq> []"
  shows "elect_numeric cs < length cs \<and>
    (\<forall>m. m \<noteq> [] \<and> length cs < 2 * votes_of (map final_number cs) m \<longrightarrow> final_number (cs ! elect_numeric cs) = m) \<and>
    ((\<forall>m. m \<noteq> [] \<longrightarrow> votes_of (map final_number cs) m \<le> 1) \<longrightarrow>
      (\<forall>i<length cs. similarity_score cs i \<le> similarity_score cs (elect_numeric cs)))"
proof (intro conjI allI impI)
  show "elect_numeric cs < length cs" by (rule elect_numeric_less [OF assms])
  show "final_number (cs ! elect_numeric cs) = m" if "m \<noteq> [] \<and> length cs < 2 * votes_of (map final_number cs) m" for m
    using elect_numeric_majority [of m cs] that by blast
  fix i assume scattered: "\<forall>m. m \<noteq> [] \<longrightarrow> votes_of (map final_number cs) m \<le> 1" and i: "i < length cs"
  show "similarity_score cs i \<le> similarity_score cs (elect_numeric cs)"
  proof (cases "length cs < 2")
    case True
    with i have "i = 0" by linarith
    with True show ?thesis by (simp add: elect_numeric_def)
  next
    case False
    have "vote_loop (map final_number cs) [0..<length cs] (length cs) 1 = length cs"
      using vote_loop_spec [of "map final_number cs" "[0..<length cs]" "length cs" 1] scattered unfolding Let_def
      by (meson not_le)
    then have "elect_numeric cs = elect cs" using False by (simp add: elect_numeric_def Let_def)
    with elect_medoid [of cs] False i show ?thesis by simp
  qed
qed

theorem election_correct_witness:
  "elect_numeric [''it is 42'', ''maybe 7'', ''42''] < 3 \<and>
   final_number ([''it is 42'', ''maybe 7'', ''42''] ! elect_numeric [''it is 42'', ''maybe 7'', ''42'']) = ''42''"
proof -
  have n: "final_number ''it is 42'' = ''42''" "final_number ''maybe 7'' = ''7''" "final_number ''42'' = ''42''"
    using final_number_digits [of "''42''" "''it is ''"] final_number_digits [of "''7''" "''maybe ''"]
      final_number_digits [of "''42''" "[]"] by (simp_all add: isdigit_def breaks_number_def)
  from election_correct [of "[''it is 42'', ''maybe 7'', ''42'']", THEN conjunct2, THEN conjunct1, rule_format, of "''42''"]
    election_correct [of "[''it is 42'', ''maybe 7'', ''42'']", THEN conjunct1] n
  show ?thesis by (simp add: votes_of_def)
qed

text \<open>
  The number an answer ends with is found: whatever precedes it, a final run of digits after
  a character that cannot belong to a number is the final number.
\<close>

theorem final_number_of_conclusion:
  assumes "list_all isdigit ds" and "ds \<noteq> []" and "pre = [] \<or> breaks_number (last pre)"
  shows "final_number (pre @ ds) = ds"
  using assms by (rule final_number_digits)

theorem final_number_of_conclusion_witness: "final_number ''3,000 or -2.5? It is 42'' = ''42''"
  using final_number_of_conclusion [of "''42''" "''3,000 or -2.5? It is ''"] by (simp add: isdigit_def breaks_number_def)

end
