(* ===== verification/Engine.thy ===== *)
theory Engine
  imports Prefix_Cache Speculative Scheduler Conclave
begin

text \<open>
  The engine (\<open>src/src/core/engine.cpp\<close>): configuration and construction, the three ways of
  generating (classic sampling, speculative decoding, the parallel scheduler), the hot
  continuation of a conversation, the transparent ARCA response cache, the Conclave, sessions
  and warming. The state is the record \<open>engine\<close> (\<open>ReameEngine::Impl\<close>); what never changes during
  the life of an engine and what lies outside the repository is the record \<open>engine_env\<close>.

  A callback is a function of all the pieces it was given so far: it throws, stops or goes on.
  Every operation returns what it throws or returns, the pieces it delivered, and the engine.
\<close>

section \<open>Configuration\<close>

record engine_config =
  ec_model_path :: bytes
  ec_draft_model_path :: bytes
  ec_n_ctx :: int
  ec_n_threads :: int
  ec_use_mmap :: bool
  ec_use_mlock :: bool
  ec_kv_cache_type :: bytes
  ec_n_ubatch :: int
  ec_use_speculative :: bool
  ec_use_prompt_lookup :: bool
  ec_draft_tokens :: int
  ec_use_corpus :: bool
  ec_spec_disable_after_drafted :: nat
  ec_spec_disable_below_acceptance :: real
  ec_cache_dir :: bytes
  ec_cache_max_mb :: nat
  ec_cache_compress :: bool
  ec_cache_block_tokens :: int
  ec_n_parallel :: int
  ec_verbose :: bool

definition validate :: "engine_config \<Rightarrow> engine_exn + unit" where
  "validate c =
     (if ec_model_path c = [] then Inl (EngineError ''model_path is empty'')
      else if ec_n_ctx c \<le> 0 then Inl (EngineError (''n_ctx must be positive, got '' @ string_of_int (ec_n_ctx c)))
      else if ec_n_threads c \<le> 0
      then Inl (EngineError (''n_threads must be positive, got '' @ string_of_int (ec_n_threads c)))
      else if ec_kv_cache_type c \<noteq> ''f16'' \<and> ec_kv_cache_type c \<noteq> ''q8_0'' \<and> ec_kv_cache_type c \<noteq> ''q4_0''
      then Inl (EngineError (''kv_cache_type must be f16, q8_0 or q4_0, got '' @ [CHR 0x27] @ ec_kv_cache_type c @ [CHR 0x27]))
      else if ec_n_parallel c < 1
      then Inl (EngineError (''n_parallel must be >= 1, got '' @ string_of_int (ec_n_parallel c)))
      else if 1 < ec_n_parallel c \<and> (ec_use_prompt_lookup c \<or> ec_draft_model_path c \<noteq> [])
      then Inl (EngineError (''n_parallel > 1 is not compatible with speculative decoding '' @
                  ''yet: disable [speculative] or set parallel = 1''))
      else if 1 < ec_n_parallel c \<and> ec_cache_dir c \<noteq> []
      then Inl (EngineError (''n_parallel > 1 is not compatible with the disk cache yet: '' @
                  ''unset cache.directory or set parallel = 1''))
      else Inr ())"

record ModelParams =
  mp_path :: bytes
  mp_context_length :: int
  mp_threads :: int
  mp_use_mmap :: bool
  mp_use_mlock :: bool
  mp_kv_cache_type :: bytes
  mp_n_seq_max :: int
  mp_n_ubatch :: int

definition to_model_params :: "engine_config \<Rightarrow> ModelParams" where
  "to_model_params c =
     \<lparr>mp_path = ec_model_path c, mp_context_length = ec_n_ctx c, mp_threads = ec_n_threads c,
      mp_use_mmap = ec_use_mmap c, mp_use_mlock = ec_use_mlock c, mp_kv_cache_type = ec_kv_cache_type c,
      mp_n_seq_max = max (ec_n_parallel c) 1, mp_n_ubatch = ec_n_ubatch c\<rparr>"

definition wants_draft_backend :: "engine_config \<Rightarrow> bool" where
  "wants_draft_backend c \<longleftrightarrow> ec_use_speculative c \<and> \<not> ec_use_prompt_lookup c \<and> ec_draft_model_path c \<noteq> []"

text \<open>\<open>file_exists\<close> is \<open>std::filesystem::exists\<close>; the dash of the messages is UTF-8.\<close>

definition em_dash :: bytes where "em_dash = [CHR 0xE2, CHR 0x80, CHR 0x94]"

definition missing_model_file_error :: "(bytes \<Rightarrow> bool) \<Rightarrow> engine_config \<Rightarrow> bytes" where
  "missing_model_file_error file_exists c =
     (if \<not> file_exists (ec_model_path c)
      then ''model file not found: '' @ [CHR 0x27] @ ec_model_path c @ [CHR 0x27] @ '' '' @ em_dash @
           '' check model.path in your config. Relative paths resolve '' @
           ''from the working directory you run reame from, not from the '' @ ''config file'' @ [CHR 0x27] @ ''s location.''
      else if wants_draft_backend c \<and> \<not> file_exists (ec_draft_model_path c)
      then ''draft model file not found: '' @ [CHR 0x27] @ ec_draft_model_path c @ [CHR 0x27] @ '' '' @ em_dash @
           '' [speculative] mode = model needs a second, smaller GGUF '' @
           ''at speculative.draft_model_path. Either download one, or set '' @
           ''mode = lookup (drafts from n-grams, no second model), or '' @ ''enabled = false.''
      else [])"

definition speculation_silently_off :: "engine_config \<Rightarrow> bool \<Rightarrow> bool" where
  "speculation_silently_off c decoder_built \<longleftrightarrow>
     (ec_use_speculative c \<and> (ec_use_prompt_lookup c \<or> ec_draft_model_path c \<noteq> [])) \<and> \<not> decoder_built"

text \<open>
  The production constructor: which backends it loads with which parameters. A path that ends
  with \<open>.nuc\<close> goes to the nucleo engine.
\<close>

datatype backend_kind = Llama_backend | Nucleo_backend

definition choose_backends :: "engine_config \<Rightarrow> engine_exn + (backend_kind \<times> ModelParams) \<times> ModelParams option" where
  "choose_backends c =
     (case validate c of
        Inl x \<Rightarrow> Inl x
      | Inr _ \<Rightarrow>
          let params = to_model_params c; path = mp_path params
          in Inr ((if 4 < length path \<and> drop (length path - 4) path = ''.nuc'' then Nucleo_backend else Llama_backend, params),
                  if wants_draft_backend c then Some (params\<lparr>mp_path := ec_draft_model_path c\<rparr>) else None))"

section \<open>State\<close>

text \<open>The response cache of the engine (\<open>arca_cache.hpp\<close>): a miss or any failure is \<open>None\<close>, a store never fails.\<close>

record 'a ArcaCache =
  ac_get :: "'a \<Rightarrow> bytes \<Rightarrow> bytes option \<times> 'a"
  ac_set :: "'a \<Rightarrow> bytes \<Rightarrow> bytes \<Rightarrow> 'a"

text \<open>
  The environment: the backends, the random source and how the engines of a sampler and of the
  acceptance test are seeded, the compression library, \<open>std::hash\<close> and the response cache.
\<close>

record ('b, 'd, 'r, 'a) engine_env =
  ee_B :: "'b LlamaBackend"
  ee_D :: "'d LlamaBackend option"
  ee_uniform :: "'r uniform"
  ee_seed :: "int \<Rightarrow> 'r"
  ee_accept_seed :: "int \<Rightarrow> 'r"
  ee_z :: zstd_lib
  ee_hash :: "bytes \<Rightarrow> u64"
  ee_arca :: "'a ArcaCache"

record ('b, 'd, 'r, 'a) engine =
  en_backend :: 'b
  en_draft :: 'd
  en_decoder :: "(spec_config \<times> spec_dec) option"
  en_cache :: "CacheManager option"
  en_prefix_cache :: "PrefixCache option"
  en_corpus :: "CorpusIndex option"
  en_model_tag :: bytes
  en_arca :: "'a option"
  en_scheduler :: "('b, 'r) sched option"
  en_context_tokens :: tokens
  en_sessions :: "bytes \<rightharpoonup> tokens"
  en_next_session_id :: u64

definition spec_config_of :: "engine_config \<Rightarrow> spec_config" where
  "spec_config_of c =
     \<lparr>sc_mode = (if ec_use_prompt_lookup c then PromptLookup else ModelDraft), sc_draft_tokens = ec_draft_tokens c,
      sc_min_draft_tokens = 2, sc_max_draft_tokens = 32, sc_lookup = \<lparr>lk_max_ngram = 3, lk_min_ngram = 1\<rparr>,
      sc_use_speculative = True, sc_disable_after_drafted = ec_spec_disable_after_drafted c,
      sc_disable_below_acceptance = ec_spec_disable_below_acceptance c\<rparr>"

text \<open>
  The constructor over given backends, \<open>None\<close> for a null pointer; \<open>items\<close> is the content of the
  cache directory and \<open>corpus_file\<close> the file of the corpus below it.
\<close>

definition ReameEngine_init :: "('b, 'd, 'r, 'a) engine_env \<Rightarrow> engine_config \<Rightarrow> 'a option \<Rightarrow> 'b option \<Rightarrow> 'd
    \<Rightarrow> dir_item list \<Rightarrow> bytes option \<Rightarrow> engine_exn + ('b, 'd, 'r, 'a) engine" where
  "ReameEngine_init E c arca backend draft_b items corpus_file =
     (case validate c of
        Inl x \<Rightarrow> Inl x
      | Inr _ \<Rightarrow>
          (case backend of
             None \<Rightarrow> Inl (EngineError ''backend is null'')
           | Some b \<Rightarrow>
               if 1 < ec_n_parallel c \<and> ee_D E \<noteq> None
               then Inl (EngineError ''n_parallel > 1 is not compatible with a draft model yet'')
               else
                 let s0 = \<lparr>en_backend = b, en_draft = draft_b, en_decoder = None, en_cache = None, en_prefix_cache = None,
                           en_corpus = None, en_model_tag = ec_model_path c, en_arca = arca, en_scheduler = None,
                           en_context_tokens = [], en_sessions = Map.empty, en_next_session_id = 1\<rparr>
                 in if 1 < ec_n_parallel c
                    then map_sum id (\<lambda>sc. s0\<lparr>en_scheduler := Some sc\<rparr>) (Scheduler_init (ee_B E) b (ec_n_parallel c))
                    else
                      let s1 = (if ec_cache_dir c = [] then s0
                                else s0\<lparr>en_cache := Some (CacheManager_open (ec_cache_max_mb c * 1024 * 1024 mod 2 ^ 64)
                                          (ec_cache_compress c) (256 * 1024 * 1024) items),
                                        en_prefix_cache := Some (PrefixCache_init (ec_model_path c) (ec_cache_block_tokens c))\<rparr>)
                      in if ec_use_speculative c \<and> be_supports_rollback (ee_B E) \<and> (ee_D E \<noteq> None \<or> ec_use_prompt_lookup c)
                         then
                           let s2 = (if ec_use_prompt_lookup c \<and> ec_use_corpus c \<and> ec_cache_dir c \<noteq> []
                                     then s1\<lparr>en_corpus := Some (CorpusIndex_open
                                            \<lparr>cc_ngram = 3, cc_max_log_bytes = 64 * 2 ^ 20, cc_max_sites = 8\<rparr> corpus_file)\<rparr>
                                     else s1)
                           in map_sum id (\<lambda>d. s2\<lparr>en_decoder := Some (spec_config_of c, d)\<rparr>)
                                (SpeculativeDecoder_init (spec_config_of c) (be_vocab_size (ee_B E))
                                   (map_option be_vocab_size (ee_D E)))
                         else Inr s1))"

section \<open>Generation\<close>

text \<open>The pieces of tokens, and the callback over tokens that hands their pieces to \<open>cb\<close>.\<close>

definition pieces_of :: "'b LlamaBackend \<Rightarrow> tokens \<Rightarrow> bytes list" where
  "pieces_of B ts = List.map_filter (\<lambda>t. case be_token_piece B t of Inl _ \<Rightarrow> None | Inr p \<Rightarrow> Some p) ts"

definition token_cb :: "'b LlamaBackend \<Rightarrow> bytes list \<Rightarrow> (bytes list \<Rightarrow> engine_exn + bool) \<Rightarrow> tokens \<Rightarrow> engine_exn + bool" where
  "token_cb B pre cb ts =
     (case be_token_piece B (last ts) of
        Inl e \<Rightarrow> Inl (Engine_model e)
      | Inr _ \<Rightarrow> cb (pre @ pieces_of B ts))"

fun engine_exn_of :: "cache_exn \<Rightarrow> engine_exn" where
  "engine_exn_of (Cache_exn (CacheError msg)) = Engine_cache msg"
| "engine_exn_of (Model_exn e) = Engine_model e"

text \<open>
  The hot continuation: the request extends the conversation the backend still holds.
\<close>

definition estende :: "'b LlamaBackend \<Rightarrow> tokens \<Rightarrow> tokens \<Rightarrow> 'b \<Rightarrow> bool" where
  "estende B context_tokens tokens b \<longleftrightarrow>
     context_tokens \<noteq> [] \<and> length context_tokens < length tokens \<and> be_n_past B b = length context_tokens \<and>
     take (length context_tokens) tokens = context_tokens"

text \<open>The prefix cache fills the backend; \<open>disk\<close> says which of its writes succeed.\<close>

definition cached_prefill :: "('b, 'd, 'r, 'a) engine_env \<Rightarrow> (nat \<Rightarrow> bool) \<Rightarrow> PrefixCache \<Rightarrow> tokens \<Rightarrow> ('b, 'd, 'r, 'a) engine
    \<Rightarrow> (engine_exn + nat) \<times> ('b, 'd, 'r, 'a) engine" where
  "cached_prefill E disk p prefix s =
     (case en_cache s of
        None \<Rightarrow> (Inl Out_of_bounds, s)
      | Some m \<Rightarrow>
          (case prefill (ee_z E) (ee_B E) disk p m prefix (en_backend s) of
             (r, m1, b1) \<Rightarrow> (map_sum engine_exn_of id r, s\<lparr>en_cache := Some m1, en_backend := b1\<rparr>)))"

definition classic_prefill :: "('b, 'd, 'r, 'a) engine_env \<Rightarrow> (nat \<Rightarrow> bool) \<Rightarrow> tokens \<Rightarrow> ('b, 'd, 'r, 'a) engine
    \<Rightarrow> (engine_exn + logits) \<times> ('b, 'd, 'r, 'a) engine" where
  "classic_prefill E disk tokens s =
     (let B = ee_B E; ctx = en_context_tokens s;
          wrap = (\<lambda>s r. (map_sum Engine_model id (fst r), s\<lparr>en_backend := snd r\<rparr>))
      in if estende B ctx tokens (en_backend s)
         then wrap s (be_decode_append B (en_backend s) (drop (length ctx) tokens))
         else (case en_prefix_cache s of
                 Some p \<Rightarrow>
                   (case cached_prefill E disk p (butlast tokens) s of
                      (Inl x, s1) \<Rightarrow> (Inl x, s1)
                    | (Inr _, s1) \<Rightarrow> wrap s1 (be_decode_append B (en_backend s1) [last tokens]))
               | None \<Rightarrow> wrap s (be_decode B (en_backend s) tokens)))"

text \<open>
  The sampling loop of the classic path with the budget that is left; the tokens handed over
  (the piece of the last one may have thrown), the context and the backend.
\<close>

fun classic_loop :: "'b LlamaBackend \<Rightarrow> 'r uniform \<Rightarrow> GenerationConfig \<Rightarrow> (tokens \<Rightarrow> engine_exn + bool) \<Rightarrow> nat \<Rightarrow> logits \<Rightarrow> tokens
    \<Rightarrow> tokens \<Rightarrow> 'r \<Rightarrow> 'b \<Rightarrow> (engine_exn + unit) \<times> tokens \<times> tokens \<times> 'b" where
  "classic_loop B uniform gen cb 0 logits tokens delivered rng b = (Inr (), delivered, tokens, b)"
| "classic_loop B uniform gen cb (Suc n) logits tokens delivered rng b =
     (case sample uniform gen logits tokens rng of
        (Inl x, _) \<Rightarrow> (Inl x, delivered, tokens, b)
      | (Inr nxt, rng1) \<Rightarrow>
          if be_is_eog B nxt then (Inr (), delivered, tokens, b)
          else (case cb (delivered @ [nxt]) of
                  Inl x \<Rightarrow> (Inl x, delivered @ [nxt], tokens, b)
                | Inr keep_going \<Rightarrow>
                    if \<not> keep_going then (Inr (), delivered @ [nxt], tokens, b)
                    else if be_context_length B \<le> length tokens + 1 \<or> n = 0
                    then (Inr (), delivered @ [nxt], tokens @ [nxt], b)
                    else (case be_decode_append B b [nxt] of
                            (Inl x, b1) \<Rightarrow> (Inl (Engine_model x), delivered @ [nxt], tokens @ [nxt], b1)
                          | (Inr logits1, b1) \<Rightarrow>
                              classic_loop B uniform gen cb n logits1 (tokens @ [nxt]) (delivered @ [nxt]) rng1 b1)))"

definition classic_generate :: "('b, 'd, 'r, 'a) engine_env \<Rightarrow> (nat \<Rightarrow> bool) \<Rightarrow> tokens \<Rightarrow> (tokens \<Rightarrow> engine_exn + bool)
    \<Rightarrow> GenerationConfig \<Rightarrow> ('b, 'd, 'r, 'a) engine \<Rightarrow> (engine_exn + unit) \<times> tokens \<times> ('b, 'd, 'r, 'a) engine" where
  "classic_generate E disk tokens cb gen s =
     (case classic_prefill E disk tokens s of
        (Inl x, s1) \<Rightarrow> (Inl x, [], s1)
      | (Inr logits, s1) \<Rightarrow>
          (case classic_loop (ee_B E) (ee_uniform E) gen cb (nat (gc_max_tokens gen)) logits tokens []
                  (ee_seed E (gc_seed gen)) (en_backend s1) of
             (Inl x, delivered, _, b1) \<Rightarrow> (Inl x, delivered, s1\<lparr>en_backend := b1\<rparr>)
           | (Inr _, delivered, context, b1) \<Rightarrow>
               (Inr (), delivered, s1\<lparr>en_backend := b1, en_context_tokens := context\<rparr>)))"

text \<open>The speculative path: how much of the KV cache the decoder inherits, and its run.\<close>

definition decoder_prefill :: "('b, 'd, 'r, 'a) engine_env \<Rightarrow> (nat \<Rightarrow> bool) \<Rightarrow> tokens \<Rightarrow> ('b, 'd, 'r, 'a) engine
    \<Rightarrow> (engine_exn + nat) \<times> ('b, 'd, 'r, 'a) engine" where
  "decoder_prefill E disk tokens s =
     (if estende (ee_B E) (en_context_tokens s) tokens (en_backend s)
      then (Inr (length (en_context_tokens s)), s)
      else (case en_prefix_cache s of
              Some p \<Rightarrow>
                if 1 < length tokens
                then (case cached_prefill E disk p (butlast tokens) s of
                        (Inl x, s1) \<Rightarrow> (Inl x, s1)
                      | (Inr _, s1) \<Rightarrow> (Inr (length (butlast tokens)), s1))
                else (Inr 0, s)
            | None \<Rightarrow> (Inr 0, s)))"

definition decoder_env :: "('b, 'd, 'r, 'a) engine_env \<Rightarrow> spec_config \<Rightarrow> CorpusIndex option \<Rightarrow> (tokens \<Rightarrow> engine_exn + bool)
    \<Rightarrow> GenerationConfig \<Rightarrow> ('b, 'd, 'r) spec_env" where
  "decoder_env E dc corpus cb gen =
     \<lparr>se_cfg = dc, se_gen = gen, se_B = ee_B E, se_D = ee_D E, se_uniform = ee_uniform E, se_cb = cb, se_corpus = corpus\<rparr>"

text \<open>The decoder always ends (\<open>spec_generate_ends\<close>), so that its result is there.\<close>

definition decoder_generate :: "('b, 'd, 'r, 'a) engine_env \<Rightarrow> (nat \<Rightarrow> bool) \<Rightarrow> spec_config \<Rightarrow> spec_dec \<Rightarrow> tokens
    \<Rightarrow> (tokens \<Rightarrow> engine_exn + bool) \<Rightarrow> GenerationConfig \<Rightarrow> ('b, 'd, 'r, 'a) engine
    \<Rightarrow> (engine_exn + unit) \<times> tokens \<times> ('b, 'd, 'r, 'a) engine" where
  "decoder_generate E disk dc dec tokens cb gen s =
     (case decoder_prefill E disk tokens s of
        (Inl x, s1) \<Rightarrow> (Inl x, [], s1)
      | (Inr kv_ready, s1) \<Rightarrow>
          (case the (spec_generate_stream (decoder_env E dc (en_corpus s1) cb gen) dec tokens kv_ready
                  (ee_seed E (gc_seed gen)) (ee_accept_seed E (gc_seed gen)) (en_backend s1) (en_draft s1)) of
             (r, run, corpus) \<Rightarrow>
               let s2 = s1\<lparr>en_backend := sr_target run, en_draft := sr_draft run, en_corpus := corpus,
                           en_decoder := Some (dc, sr_dec run)\<rparr>
               in (r, sr_delivered run,
                   case r of Inl _ \<Rightarrow> s2 | Inr _ \<Rightarrow> s2\<lparr>en_context_tokens := tokens @ sr_delivered run\<rparr>)))"

text \<open>
  The parallel path: the request is queued, and the worker steps the scheduler until there is
  nothing left to do; the caller then sees how its request ended. (Requests of other callers
  are interleaved by \<open>Scheduler.reach\<close>; from every reachable state the worker gets idle.)
\<close>

definition worker_loop :: "('b, 'd, 'r, 'a) engine_env \<Rightarrow> ('b, 'r) sched \<Rightarrow> ('b, 'r) sched" where
  "worker_loop E sc =
     the (run_until_idle (ee_B E) (ee_uniform E) (Suc (weight (sch_n_ctx sc) (sch_active sc @ sch_pending sc))) sc)"

definition parallel_generate :: "('b, 'd, 'r, 'a) engine_env \<Rightarrow> ('b, 'r) sched \<Rightarrow> tokens \<Rightarrow> (tokens \<Rightarrow> engine_exn + bool)
    \<Rightarrow> GenerationConfig \<Rightarrow> ('b, 'd, 'r, 'a) engine \<Rightarrow> (engine_exn + unit) \<times> tokens \<times> ('b, 'd, 'r, 'a) engine" where
  "parallel_generate E sc tokens cb gen s =
     (case submit (ee_seed E) tokens gen (Some cb) sc of
        (Inl x, sc1) \<Rightarrow> (Inl x, [], s\<lparr>en_scheduler := Some sc1\<rparr>)
      | (Inr i, sc1) \<Rightarrow>
          let sc2 = worker_loop E sc1
          in (case error sc2 i of Some x \<Rightarrow> Inl x | None \<Rightarrow> Inr (), log_of (sch_log sc2) i, s\<lparr>en_scheduler := Some sc2\<rparr>))"

definition prompt_tokens :: "'b LlamaBackend \<Rightarrow> bytes \<Rightarrow> engine_exn + tokens" where
  "prompt_tokens B prompt =
     (case be_tokenize B prompt True of
        Inl e \<Rightarrow> Inl (Engine_model e)
      | Inr tokens \<Rightarrow>
          if tokens = [] then Inl (EngineError ''prompt tokenized to zero tokens'')
          else if be_context_length B < length tokens
          then Inl (EngineError (''prompt of '' @ string_of_nat (length tokens) @ '' tokens exceeds context length '' @
                      string_of_nat (be_context_length B)))
          else Inr tokens)"

definition run_tokens :: "('b, 'd, 'r, 'a) engine_env \<Rightarrow> (nat \<Rightarrow> bool) \<Rightarrow> tokens \<Rightarrow> (tokens \<Rightarrow> engine_exn + bool)
    \<Rightarrow> GenerationConfig \<Rightarrow> ('b, 'd, 'r, 'a) engine \<Rightarrow> (engine_exn + unit) \<times> tokens \<times> ('b, 'd, 'r, 'a) engine" where
  "run_tokens E disk tokens cb gen s =
     (case en_scheduler s of
        Some sc \<Rightarrow> parallel_generate E sc tokens cb gen s
      | None \<Rightarrow>
          (case en_decoder s of
             Some (dc, dec) \<Rightarrow> decoder_generate E disk dc dec tokens cb gen s
           | None \<Rightarrow> classic_generate E disk tokens cb gen s))"

definition generate_stream_impl :: "('b, 'd, 'r, 'a) engine_env \<Rightarrow> (nat \<Rightarrow> bool) \<Rightarrow> bytes \<Rightarrow> (bytes list \<Rightarrow> engine_exn + bool)
    \<Rightarrow> GenerationConfig \<Rightarrow> ('b, 'd, 'r, 'a) engine \<Rightarrow> (engine_exn + unit) \<times> bytes list \<times> ('b, 'd, 'r, 'a) engine" where
  "generate_stream_impl E disk prompt cb gen s =
     (case prompt_tokens (ee_B E) prompt of
        Inl x \<Rightarrow> (Inl x, [], s)
      | Inr tokens \<Rightarrow>
          (case (if gc_echo_prompt gen then cb [prompt] else Inr True) of
             Inl x \<Rightarrow> (Inl x, [prompt], s)
           | Inr keep_going \<Rightarrow>
               if \<not> keep_going then (Inr (), [prompt], s)
               else
                 let pre = (if gc_echo_prompt gen then [prompt] else []);
                     (r, delivered, s1) = run_tokens E disk tokens (token_cb (ee_B E) pre cb) gen s
                 in (r, pre @ pieces_of (ee_B E) delivered, s1)))"

section \<open>The response cache\<close>

definition cacheable :: "GenerationConfig \<Rightarrow> bool" where
  "cacheable gen \<longleftrightarrow> gc_temperature gen \<le> 0"

text \<open>\<open>%016zx\<close>: at least sixteen lower-case hexadecimal digits.\<close>

definition hex16 :: "u64 \<Rightarrow> bytes" where
  "hex16 h = map (\<lambda>i. ''0123456789abcdef'' ! unat (drop_bit (4 * (15 - i)) h AND 15)) [0..<16]"

definition cache_material :: "bytes \<Rightarrow> bytes \<Rightarrow> GenerationConfig \<Rightarrow> bytes" where
  "cache_material model_tag prompt gen =
     model_tag @ [CHR 0x1F] @ string_of_int (gc_max_tokens gen) @ [CHR 0x1F] @ prompt"

definition cache_key :: "(bytes \<Rightarrow> u64) \<Rightarrow> bytes \<Rightarrow> bytes \<Rightarrow> GenerationConfig \<Rightarrow> bytes" where
  "cache_key hash model_tag prompt gen = ''resp:'' @ hex16 (hash (cache_material model_tag prompt gen))"

definition engine_generate_stream :: "('b, 'd, 'r, 'a) engine_env \<Rightarrow> (nat \<Rightarrow> bool) \<Rightarrow> bytes
    \<Rightarrow> (bytes list \<Rightarrow> engine_exn + bool) option \<Rightarrow> GenerationConfig \<Rightarrow> ('b, 'd, 'r, 'a) engine
    \<Rightarrow> (engine_exn + unit) \<times> bytes list \<times> ('b, 'd, 'r, 'a) engine" where
  "engine_generate_stream E disk prompt callback gen s =
     (case callback of
        None \<Rightarrow> (Inl (EngineError ''callback is null''), [], s)
      | Some cb \<Rightarrow>
          (case en_arca s of
             Some a \<Rightarrow>
               if cacheable gen \<and> \<not> gc_echo_prompt gen
               then
                 let key = cache_key (ee_hash E) (en_model_tag s) prompt gen
                 in case ac_get (ee_arca E) a key of
                      (Some hit, a1) \<Rightarrow> (map_sum id (\<lambda>_. ()) (cb [hit]), [hit], s\<lparr>en_arca := Some a1\<rparr>)
                    | (None, a1) \<Rightarrow>
                        (case generate_stream_impl E disk prompt cb gen (s\<lparr>en_arca := Some a1\<rparr>) of
                           (Inl x, pieces, s1) \<Rightarrow> (Inl x, pieces, s1)
                         | (Inr _, pieces, s1) \<Rightarrow>
                             (Inr (), pieces, s1\<lparr>en_arca := Some (ac_set (ee_arca E) a1 key (concat pieces))\<rparr>))
               else generate_stream_impl E disk prompt cb gen s
           | None \<Rightarrow> generate_stream_impl E disk prompt cb gen s))"

definition engine_generate :: "('b, 'd, 'r, 'a) engine_env \<Rightarrow> (nat \<Rightarrow> bool) \<Rightarrow> bytes \<Rightarrow> GenerationConfig
    \<Rightarrow> ('b, 'd, 'r, 'a) engine \<Rightarrow> (engine_exn + bytes) \<times> ('b, 'd, 'r, 'a) engine" where
  "engine_generate E disk prompt gen s =
     (case engine_generate_stream E disk prompt (Some (\<lambda>_. Inr True)) gen s of
        (r, pieces, s1) \<Rightarrow> (map_sum id (\<lambda>_. concat pieces) r, s1))"

section \<open>The Conclave\<close>

record best_state =
  bs_outs :: "bytes list"
  bs_tally :: "bytes \<Rightarrow> nat"
  bs_stop :: bool
  bs_winner :: int

definition best_init :: "int \<Rightarrow> best_state" where
  "best_init n = \<lparr>bs_outs = replicate (nat n) [], bs_tally = (\<lambda>_. 0), bs_stop = False, bs_winner = - 1\<rparr>"

text \<open>What \<open>run_attempt\<close> does under the lock with the text of candidate \<open>i\<close>.\<close>

definition deposit :: "int \<Rightarrow> nat \<times> bytes \<Rightarrow> best_state \<Rightarrow> best_state" where
  "deposit n c t =
     (let t1 = t\<lparr>bs_outs := (bs_outs t)[fst c := snd c]\<rparr>; num = final_number (snd c)
      in if bs_stop t1 \<or> num = [] then t1
         else let t2 = t1\<lparr>bs_tally := (bs_tally t1)(num := Suc (bs_tally t1 num))\<rparr>
              in if n < 2 * int (bs_tally t2 num) then t2\<lparr>bs_winner := int (fst c), bs_stop := True\<rparr> else t2)"

definition votes_for :: "bytes list \<Rightarrow> nat \<Rightarrow> nat" where
  "votes_for outs i =
     (let num = final_number (outs ! i)
      in if num = [] then 1 else length (filter (\<lambda>out. final_number out = num) outs))"

text \<open>The verdict: the elected text and its votes.\<close>

definition verdict :: "best_state \<Rightarrow> bytes \<times> nat" where
  "verdict t =
     (let elected = (if 0 \<le> bs_winner t then nat (bs_winner t) else elect_numeric (bs_outs t))
      in (bs_outs t ! elected, votes_for (bs_outs t) elected))"

text \<open>The attempts one after the other, until all are made or the election is decided.\<close>

fun best_loop :: "('b, 'd, 'r, 'a) engine_env \<Rightarrow> (nat \<Rightarrow> nat \<Rightarrow> bool) \<Rightarrow> bytes \<Rightarrow> GenerationConfig \<Rightarrow> int \<Rightarrow> nat list \<Rightarrow> best_state
    \<Rightarrow> ('b, 'd, 'r, 'a) engine \<Rightarrow> (engine_exn + best_state) \<times> ('b, 'd, 'r, 'a) engine" where
  "best_loop E disk prompt gen n [] t s = (Inr t, s)"
| "best_loop E disk prompt gen n (i # is) t s =
     (if bs_stop t then (Inr t, s)
      else case engine_generate_stream E (disk i) prompt (Some (\<lambda>_. Inr (\<not> bs_stop t))) (conclave_attempt gen (int i)) s of
             (Inl x, _, s1) \<Rightarrow> (Inl x, s1)
           | (Inr _, pieces, s1) \<Rightarrow> best_loop E disk prompt gen n is (deposit n (i, concat pieces) t) s1)"

text \<open>
  \<open>generate_best\<close> on an engine without a scheduler, with the votes of the consensus.
\<close>

definition generate_best :: "('b, 'd, 'r, 'a) engine_env \<Rightarrow> (nat \<Rightarrow> nat \<Rightarrow> bool) \<Rightarrow> bytes \<Rightarrow> GenerationConfig \<Rightarrow> int
    \<Rightarrow> ('b, 'd, 'r, 'a) engine \<Rightarrow> (engine_exn + bytes \<times> nat) \<times> ('b, 'd, 'r, 'a) engine" where
  "generate_best E disk prompt gen n s =
     (if n \<le> 1
      then (case engine_generate E (disk 0) prompt gen s of (r, s1) \<Rightarrow> (map_sum id (\<lambda>out. (out, 1)) r, s1))
      else (case best_loop E disk prompt gen n [0..<nat n] (best_init n) s of
              (Inl x, s1) \<Rightarrow> (Inl x, s1)
            | (Inr t, s1) \<Rightarrow> (Inr (verdict t), s1)))"

text \<open>
  With a scheduler the attempts run on threads: they end, with a text or an exception, in any
  order; the exception of the first candidate that threw is thrown again.
\<close>

fun threads_loop :: "int \<Rightarrow> (nat \<times> (engine_exn + bytes)) list \<Rightarrow> best_state \<Rightarrow> (nat \<rightharpoonup> engine_exn) \<Rightarrow> best_state \<times> (nat \<rightharpoonup> engine_exn)"
where
  "threads_loop n [] t errs = (t, errs)"
| "threads_loop n ((i, Inl x) # rest) t errs = threads_loop n rest t (errs(i \<mapsto> x))"
| "threads_loop n ((i, Inr out) # rest) t errs = threads_loop n rest (deposit n (i, out) t) errs"

definition best_parallel :: "int \<Rightarrow> (nat \<times> (engine_exn + bytes)) list \<Rightarrow> engine_exn + bytes \<times> nat" where
  "best_parallel n results =
     (let (t, errs) = threads_loop n results (best_init n) Map.empty
      in case List.map_filter errs [0..<nat n] of
           x # _ \<Rightarrow> Inl x
         | [] \<Rightarrow> Inr (verdict t))"

section \<open>Sessions and warming\<close>

definition backend_of :: "('b, 'd, 'r, 'a) engine \<Rightarrow> 'b" where
  "backend_of s = (case en_scheduler s of None \<Rightarrow> en_backend s | Some sc \<Rightarrow> sch_backend sc)"

definition set_backend :: "'b \<Rightarrow> ('b, 'd, 'r, 'a) engine \<Rightarrow> ('b, 'd, 'r, 'a) engine" where
  "set_backend b s =
     (case en_scheduler s of
        None \<Rightarrow> s\<lparr>en_backend := b\<rparr>
      | Some sc \<Rightarrow> s\<lparr>en_scheduler := Some (sc\<lparr>sch_backend := b\<rparr>)\<rparr>)"

definition create_session :: "('b, 'd, 'r, 'a) engine \<Rightarrow> bytes \<times> ('b, 'd, 'r, 'a) engine" where
  "create_session s =
     (let i = ''sess-'' @ string_of_nat (unat (en_next_session_id s))
      in (i, s\<lparr>en_next_session_id := en_next_session_id s + 1,
               en_sessions := (if i \<in> dom (en_sessions s) then en_sessions s else (en_sessions s)(i \<mapsto> []))\<rparr>))"

definition session_cache_key :: "bytes \<Rightarrow> bytes \<Rightarrow> tokens \<Rightarrow> bytes" where
  "session_cache_key model_tag session_id tokens = make_key (model_tag @ ''/session/'' @ session_id) tokens"

definition unknown_session :: "bytes \<Rightarrow> engine_exn" where
  "unknown_session session_id = EngineError (''unknown session: '' @ session_id)"

definition save_session :: "('b, 'd, 'r, 'a) engine_env \<Rightarrow> bool \<Rightarrow> bytes \<Rightarrow> ('b, 'd, 'r, 'a) engine
    \<Rightarrow> (engine_exn + unit) \<times> ('b, 'd, 'r, 'a) engine" where
  "save_session E disk session_id s =
     (case en_sessions s session_id of
        None \<Rightarrow> (Inl (unknown_session session_id), s)
      | Some _ \<Rightarrow>
          let ctx = en_context_tokens s; s1 = s\<lparr>en_sessions := (en_sessions s)(session_id \<mapsto> ctx)\<rparr>
          in case en_cache s1 of
               Some m \<Rightarrow>
                 if ctx \<noteq> []
                 then (case store_state (ee_z E) (ee_B E) disk m (session_cache_key (en_model_tag s1) session_id ctx)
                              (backend_of s1) (length ctx mod 2 ^ 32) of
                         (r, m1) \<Rightarrow> (map_sum engine_exn_of (\<lambda>_. ()) r, s1\<lparr>en_cache := Some m1\<rparr>))
                 else (Inr (), s1)
             | None \<Rightarrow> (Inr (), s1))"

text \<open>The disk snapshot of a session, if the cache has it, or a fresh prefill.\<close>

definition restore_session :: "('b, 'd, 'r, 'a) engine_env \<Rightarrow> bytes \<Rightarrow> tokens \<Rightarrow> ('b, 'd, 'r, 'a) engine
    \<Rightarrow> (engine_exn + unit) \<times> ('b, 'd, 'r, 'a) engine" where
  "restore_session E session_id tokens s =
     (let (restored, s1) =
            (case en_cache s of
               None \<Rightarrow> (False, s)
             | Some m \<Rightarrow>
                 (case load_state (ee_z E) (ee_B E) m (session_cache_key (en_model_tag s) session_id tokens) (backend_of s) of
                    (h, m1, b1) \<Rightarrow> (h, set_backend b1 (s\<lparr>en_cache := Some m1\<rparr>))))
      in if restored then (Inr (), s1)
         else (case be_decode (ee_B E) (backend_of s1) tokens of
                 (Inl e, b2) \<Rightarrow> (Inl (Engine_model e), set_backend b2 s1)
               | (Inr _, b2) \<Rightarrow> (Inr (), set_backend b2 s1)))"

definition load_session :: "('b, 'd, 'r, 'a) engine_env \<Rightarrow> bytes \<Rightarrow> ('b, 'd, 'r, 'a) engine
    \<Rightarrow> (engine_exn + unit) \<times> ('b, 'd, 'r, 'a) engine" where
  "load_session E session_id s =
     (case en_sessions s session_id of
        None \<Rightarrow> (Inl (unknown_session session_id), s)
      | Some tokens \<Rightarrow>
          (case (if tokens = [] then (Inr (), s) else restore_session E session_id tokens s) of
             (Inl x, s1) \<Rightarrow> (Inl x, s1)
           | (Inr _, s1) \<Rightarrow> (Inr (), s1\<lparr>en_context_tokens := tokens\<rparr>)))"

definition delete_session :: "bytes \<Rightarrow> ('b, 'd, 'r, 'a) engine \<Rightarrow> (engine_exn + unit) \<times> ('b, 'd, 'r, 'a) engine" where
  "delete_session session_id s =
     (if en_sessions s session_id = None then (Inl (unknown_session session_id), s)
      else (Inr (), s\<lparr>en_sessions := (en_sessions s)(session_id := None)\<rparr>))"

text \<open>Prefetching swallows every exception.\<close>

definition prefetch_prefix :: "('b, 'd, 'r, 'a) engine_env \<Rightarrow> bytes \<Rightarrow> ('b, 'd, 'r, 'a) engine \<Rightarrow> ('b, 'd, 'r, 'a) engine" where
  "prefetch_prefix E prompt s =
     (case (en_prefix_cache s, en_cache s, be_tokenize (ee_B E) prompt True) of
        (Some p, Some m, Inr tokens) \<Rightarrow>
          if length tokens \<le> 1 then s
          else s\<lparr>en_cache := Some (snd (prefix_prefetch (ee_z E) p m (butlast tokens)))\<rparr>
      | _ \<Rightarrow> s)"

definition warm :: "('b, 'd, 'r, 'a) engine_env \<Rightarrow> (nat \<Rightarrow> bool) \<Rightarrow> bytes \<Rightarrow> ('b, 'd, 'r, 'a) engine
    \<Rightarrow> (engine_exn + nat) \<times> ('b, 'd, 'r, 'a) engine" where
  "warm E disk prompt s =
     (case prompt_tokens (ee_B E) prompt of
        Inl x \<Rightarrow> (Inl x, s)
      | Inr tokens \<Rightarrow>
          (case en_prefix_cache s of
             None \<Rightarrow> (Inr (length tokens), s)
           | Some p \<Rightarrow>
               (case cached_prefill E disk p tokens s of
                  (Inl x, s1) \<Rightarrow> (Inl x, s1)
                | (Inr _, s1) \<Rightarrow> (Inr (length tokens), s1))))"

definition engine_format_chat :: "('b, 'd, 'r, 'a) engine_env \<Rightarrow> bytes \<Rightarrow> bytes" where
  "engine_format_chat E user_message = be_format_chat (ee_B E) user_message"

definition engine_format_chat_messages :: "('b, 'd, 'r, 'a) engine_env \<Rightarrow> ChatMessage list \<Rightarrow> bytes" where
  "engine_format_chat_messages E messages = be_format_chat_messages (ee_B E) messages"

definition context_size :: "('b, 'd, 'r, 'a) engine_env \<Rightarrow> nat" where
  "context_size E = be_context_length (ee_B E)"

definition vocab_size :: "('b, 'd, 'r, 'a) engine_env \<Rightarrow> nat" where
  "vocab_size E = be_vocab_size (ee_B E)"

definition count_tokens :: "('b, 'd, 'r, 'a) engine_env \<Rightarrow> bytes \<Rightarrow> engine_exn + nat" where
  "count_tokens E txt = map_sum Engine_model length (be_tokenize (ee_B E) txt True)"

definition speculative_metrics :: "('b, 'd, 'r, 'a) engine \<Rightarrow> spec_dec option" where
  "speculative_metrics s = map_option snd (en_decoder s)"

definition cache_stats :: "('b, 'd, 'r, 'a) engine \<Rightarrow> (nat \<times> nat \<times> nat) option" where
  "cache_stats s = map_option (\<lambda>m. (cg_hits m, cg_misses m, cg_stores m)) (en_cache s)"

definition parallel_capable :: "('b, 'd, 'r, 'a) engine \<Rightarrow> bool" where
  "parallel_capable s \<longleftrightarrow> en_scheduler s \<noteq> None"


section \<open>The reference run\<close>

text \<open>
  Sampling one token after the other from the logits of the conversation, with no KV cache, no
  snapshot and no draft: how the generation ends and the tokens it hands over.
\<close>

fun classic_ref :: "'r uniform \<Rightarrow> (tokens \<Rightarrow> logits) \<Rightarrow> (TokenId \<Rightarrow> bool) \<Rightarrow> nat \<Rightarrow> GenerationConfig \<Rightarrow> (tokens \<Rightarrow> engine_exn + bool) \<Rightarrow> nat
    \<Rightarrow> tokens \<Rightarrow> tokens \<Rightarrow> 'r \<Rightarrow> (engine_exn + unit) \<times> tokens" where
  "classic_ref uniform eval eog n_ctx gen cb 0 tokens delivered rng = (Inr (), delivered)"
| "classic_ref uniform eval eog n_ctx gen cb (Suc n) tokens delivered rng =
     (case sample uniform gen (eval tokens) tokens rng of
        (Inl x, _) \<Rightarrow> (Inl x, delivered)
      | (Inr nxt, rng1) \<Rightarrow>
          if eog nxt then (Inr (), delivered)
          else (case cb (delivered @ [nxt]) of
                  Inl x \<Rightarrow> (Inl x, delivered @ [nxt])
                | Inr keep_going \<Rightarrow>
                    if \<not> keep_going \<or> n_ctx \<le> length tokens + 1 \<or> n = 0 then (Inr (), delivered @ [nxt])
                    else classic_ref uniform eval eog n_ctx gen cb n (tokens @ [nxt]) (delivered @ [nxt]) rng1))"

lemma classic_ref_extends:
  "\<exists>ts. snd (classic_ref uniform eval eog n_ctx gen cb n tokens delivered rng) = delivered @ ts"
proof (induction n arbitrary: tokens delivered rng)
  case (Suc n)
  show ?case
    using Suc.IH [of "tokens @ [_]" "delivered @ [_]"]
    by (auto split: sum.splits prod.splits) (metis append.assoc)+
qed simp

text \<open>
  At temperature 0 the reference run is the greedy one, as long as the prompt leaves room.
\<close>

lemma classic_ref_greedy:
  assumes "gc_temperature gen \<le> 0" and "\<And>ts. eval ts \<noteq> []"
  shows "length tokens < n_ctx \<Longrightarrow> classic_ref uniform eval eog n_ctx gen cb n tokens delivered rng = (Inr (), d) \<Longrightarrow>
    d = greedy_ref gen eval eog cb n_ctx n tokens delivered"
proof (induction n arbitrary: tokens delivered rng)
  case (Suc n)
  have s: "sample uniform gen (eval tokens) tokens rng = (Inr (greedy_token gen (eval tokens) tokens), rng)"
    using assms by (simp add: sample_greedy)
  let ?t = "greedy_token gen (eval tokens) tokens"
  have full: "greedy_ref gen eval eog cb n_ctx n (tokens @ [?t]) (delivered @ [?t]) = delivered @ [?t]" if "n_ctx \<le> length tokens + 1"
    using that by (cases n) simp_all
  show ?case
    using Suc.prems Suc.IH [of "tokens @ [?t]" "delivered @ [?t]" rng] full
    by (auto simp: s Let_def split: sum.splits if_splits)
qed simp

section \<open>The invariant of a serial engine\<close>

text \<open>
  What the guard of the hot continuation relies on: when the position counter equals the length
  of the remembered context, the KV cache holds exactly that context.
\<close>

definition hot_ok :: "'b LlamaBackend \<Rightarrow> ('b \<Rightarrow> bool) \<Rightarrow> ('b \<Rightarrow> tokens) \<Rightarrow> tokens \<Rightarrow> 'b \<Rightarrow> bool" where
  "hot_ok B ok kv ctx b \<longleftrightarrow> (ctx \<noteq> [] \<and> be_n_past B b = length ctx \<longrightarrow> ok b \<and> kv b = ctx)"

text \<open>The disk cache is sound for the prefixes \<open>S\<close>.\<close>

definition disk_ok :: "('b, 'd, 'r, 'a) engine_env \<Rightarrow> ('b \<Rightarrow> bool) \<Rightarrow> ('b \<Rightarrow> tokens) \<Rightarrow> tokens set \<Rightarrow> PrefixCache option
    \<Rightarrow> CacheManager option \<Rightarrow> bool" where
  "disk_ok E ok kv S px cm \<longleftrightarrow>
     (case px of
        None \<Rightarrow> True
      | Some p \<Rightarrow> collision_free p S \<and> 1 \<le> px_block_tokens p \<and> zstd_ok (ee_z E) \<and>
          (case cm of None \<Rightarrow> False | Some m \<Rightarrow> cache_ok (ee_z E) p S (ee_B E) ok kv m))"

definition serial_ok :: "('b, 'd, 'r, 'a) engine_env \<Rightarrow> ('b \<Rightarrow> bool) \<Rightarrow> ('b \<Rightarrow> tokens) \<Rightarrow> tokens set \<Rightarrow> ('b, 'd, 'r, 'a) engine \<Rightarrow> bool" where
  "serial_ok E ok kv S s \<longleftrightarrow>
     en_scheduler s = None \<and> hot_ok (ee_B E) ok kv (en_context_tokens s) (en_backend s) \<and>
     disk_ok E ok kv S (en_prefix_cache s) (en_cache s)"

text \<open>A prompt the prefix cache may be asked for.\<close>

definition in_use :: "tokens set \<Rightarrow> tokens \<Rightarrow> bool" where
  "in_use S tokens \<longleftrightarrow> tokens \<noteq> [] \<and> butlast tokens \<in> S \<and> length tokens < 2 ^ 32"

lemma in_useD: "in_use S tokens \<Longrightarrow> tokens \<noteq> [] \<and> butlast tokens \<in> S \<and> length tokens < 2 ^ 32 \<and> length (butlast tokens) < 2 ^ 32"
  unfolding in_use_def length_butlast by linarith

text \<open>What stays as it is during a generation.\<close>

definition same_setup :: "('b, 'd, 'r, 'a) engine \<Rightarrow> ('b, 'd, 'r, 'a) engine \<Rightarrow> bool" where
  "same_setup s s' \<longleftrightarrow> en_scheduler s' = en_scheduler s \<and> en_prefix_cache s' = en_prefix_cache s \<and>
     en_model_tag s' = en_model_tag s \<and> en_arca s' = en_arca s \<and> en_sessions s' = en_sessions s \<and>
     en_next_session_id s' = en_next_session_id s \<and> (en_cache s' = None \<longleftrightarrow> en_cache s = None) \<and>
     map_option fst (en_decoder s') = map_option fst (en_decoder s)"

lemma same_setup_refl [simp]: "same_setup s s"
  by (simp add: same_setup_def)

context kv_backend
begin

lemma hot_okI:
  assumes "ok b" and "comparable (kv b) ctx"
  shows "hot_ok B ok kv ctx b"
  using assms n_past_kv [OF assms(1)] comparable_same_length [OF assms(2)] by (auto simp: hot_ok_def)

lemma estende_kv:
  assumes "hot_ok B ok kv ctx b" and "estende B ctx tokens b"
  shows "ok b \<and> kv b = ctx \<and> kv b = take (length ctx) tokens"
  using assms by (auto simp: hot_ok_def estende_def)

lemma cached_prefill_ok:
  assumes "ee_B E = B" and "disk_ok E ok kv S (en_prefix_cache s) (en_cache s)" and "en_prefix_cache s = Some p"
    and "prefix \<in> S" and "length prefix < 2 ^ 32" and "cached_prefill E disk p prefix s = (r, s1)"
  shows "disk_ok E ok kv S (en_prefix_cache s1) (en_cache s1) \<and>
    same_setup s s1 \<and> en_context_tokens s1 = en_context_tokens s \<and> en_decoder s1 = en_decoder s \<and> en_draft s1 = en_draft s \<and>
    en_corpus s1 = en_corpus s \<and> (\<forall>n. r = Inr n \<longrightarrow> ok (en_backend s1) \<and> kv (en_backend s1) = prefix)"
proof -
  from assms(2,3) obtain m where d: "collision_free p S" "1 \<le> px_block_tokens p" "zstd_ok (ee_z E)"
    "en_cache s = Some m" "cache_ok (ee_z E) p S B ok kv m"
    by (auto simp: disk_ok_def assms(1) split: option.splits)
  obtain r0 m1 b1 where pf: "prefill (ee_z E) B disk p m prefix (en_backend s) = (r0, m1, b1)" using prod_cases3 by blast
  from assms(6) d(4) pf have r: "r = map_sum engine_exn_of id r0" "s1 = s\<lparr>en_cache := Some m1, en_backend := b1\<rparr>"
    by (auto simp: cached_prefill_def assms(1))
  from prefill_ok [OF d(5,1,3) assms(4,5) d(2) pf] d assms(3) show ?thesis
    by (cases r0) (auto simp: r disk_ok_def same_setup_def assms(1))
qed

lemma classic_prefill_ok:
  assumes "ee_B E = B" and "serial_ok E ok kv S s" and "in_use S tokens"
    and "classic_prefill E disk tokens s = (r, s1)"
  shows "disk_ok E ok kv S (en_prefix_cache s1) (en_cache s1) \<and> same_setup s s1 \<and>
    en_decoder s1 = en_decoder s \<and>
    (\<forall>l. r = Inr l \<longrightarrow> ok (en_backend s1) \<and> kv (en_backend s1) = tokens \<and> l = eval tokens)"
proof -
  let ?ctx = "en_context_tokens s"
  have d: "disk_ok E ok kv S (en_prefix_cache s) (en_cache s)" and h: "hot_ok B ok kv ?ctx (en_backend s)"
    using assms(1,2) by (simp_all add: serial_ok_def)
  consider (hot) "estende B ?ctx tokens (en_backend s)"
    | (disk) p where "\<not> estende B ?ctx tokens (en_backend s)" "en_prefix_cache s = Some p"
    | (cold) "\<not> estende B ?ctx tokens (en_backend s)" "en_prefix_cache s = None" by fastforce
  then show ?thesis
  proof cases
    case hot
    note k = estende_kv [OF h hot]
    obtain q b1 where a: "be_decode_append B (en_backend s) (drop (length ?ctx) tokens) = (q, b1)" by fastforce
    have "kv (en_backend s) @ drop (length ?ctx) tokens = tokens" using k append_take_drop_id by metis
    with a k d hot assms(4) append_kv [of "en_backend s" "drop (length ?ctx) tokens"]
    show ?thesis by (cases q) (auto simp: classic_prefill_def assms(1) Let_def same_setup_def)
  next
    case disk
    obtain q s2 where c: "cached_prefill E disk p (butlast tokens) s = (q, s2)" by fastforce
    have u: "butlast tokens \<in> S" "length (butlast tokens) < 2 ^ 32" "tokens \<noteq> []" using in_useD [OF assms(3)] by simp_all
    note c1 = cached_prefill_ok [OF assms(1) d disk(2) u(1,2) c]
    show ?thesis
    proof (cases q)
      case (Inl x)
      with c c1 disk assms(4) show ?thesis by (auto simp: classic_prefill_def assms(1) Let_def)
    next
      case (Inr n)
      obtain q2 b2 where a: "be_decode_append B (en_backend s2) [last tokens] = (q2, b2)" by fastforce
      have k: "ok (en_backend s2)" "kv (en_backend s2) = butlast tokens" using c1 Inr by auto
      from append_kv [OF k(1), of "[last tokens]"] k a c c1 disk assms(4) Inr u(3)
      show ?thesis by (cases q2) (auto simp: classic_prefill_def assms(1) Let_def same_setup_def)
    qed
  next
    case cold
    obtain q b1 where a: "be_decode B (en_backend s) tokens = (q, b1)" by fastforce
    with decode_kv [of "en_backend s" tokens] d cold assms(4) show ?thesis
      by (cases q) (auto simp: classic_prefill_def assms(1) Let_def same_setup_def)
  qed
qed

lemma classic_loop_ref:
  "\<lbrakk>ok b; kv b = tokens; classic_loop B uniform gen cb n (eval tokens) tokens delivered rng b = (r, d, ctx, b')\<rbrakk> \<Longrightarrow>
   (\<exists>k. d = take k (snd (classic_ref uniform eval (be_is_eog B) (be_context_length B) gen cb n tokens delivered rng))) \<and>
   (r = Inr () \<longrightarrow>
      classic_ref uniform eval (be_is_eog B) (be_context_length B) gen cb n tokens delivered rng = (Inr (), d) \<and>
      ok b' \<and> comparable (kv b') ctx)"
proof (induction n arbitrary: tokens delivered rng b)
  case 0
  have "comparable tokens tokens" by (rule comparableI [of _ "length tokens" tokens _ "length tokens"]) simp_all
  with 0 show ?case by (auto intro: exI [of _ "length delivered"])
next
  case (Suc n)
  let ?ref = "classic_ref uniform eval (be_is_eog B) (be_context_length B) gen cb"
  have refl: "comparable tokens tokens" by (rule comparableI [of _ "length tokens" tokens _ "length tokens"]) simp_all
  have app: "comparable tokens (tokens @ [t])" for t
    by (rule comparableI [of _ "length tokens" "tokens @ [t]" _ "Suc (length tokens)"]) simp_all
  obtain q rng1 where sm: "sample uniform gen (eval tokens) tokens rng = (q, rng1)" by fastforce
  show ?case
  proof (cases q)
    case (Inl x)
    with Suc.prems sm show ?thesis by (auto intro!: exI [of _ "length delivered"])
  next
    case (Inr t)
    consider (over) "be_is_eog B t \<or> cb (delivered @ [t]) \<noteq> Inr True \<or> be_context_length B \<le> length tokens + 1 \<or> n = 0"
      | (more) "\<not> be_is_eog B t" "cb (delivered @ [t]) = Inr True" "\<not> be_context_length B \<le> length tokens + 1" "n \<noteq> 0" by blast
    then show ?thesis
    proof cases
      case over
      with Suc.prems sm Inr refl app show ?thesis
        by (auto split: sum.splits if_splits intro!: exI [of _ "Suc (length delivered)"])
    next
      case more
      obtain q2 b1 where a: "be_decode_append B b [t] = (q2, b1)" by fastforce
      have step: "?ref (Suc n) tokens delivered rng = ?ref n (tokens @ [t]) (delivered @ [t]) rng1"
        using sm Inr more by simp
      show ?thesis
      proof (cases q2)
        case (Inl x)
        obtain ts where "snd (?ref n (tokens @ [t]) (delivered @ [t]) rng1) = (delivered @ [t]) @ ts"
          using classic_ref_extends [of uniform eval "be_is_eog B" "be_context_length B" gen cb n "tokens @ [t]" "delivered @ [t]" rng1]
          by blast
        then have "delivered @ [t] = take (Suc (length delivered)) (snd (?ref (Suc n) tokens delivered rng))"
          unfolding step by simp
        moreover have "r = Inl (Engine_model x)" "d = delivered @ [t]"
          using Suc.prems(3) sm \<open>q = Inr t\<close> more a Inl by auto
        ultimately show ?thesis by blast
      next
        case (Inr l)
        note k = append_kv [OF Suc.prems(1) a [unfolded Inr]]
        have "classic_loop B uniform gen cb n (eval (tokens @ [t])) (tokens @ [t]) (delivered @ [t]) rng1 b1 = (r, d, ctx, b')"
          using Suc.prems sm \<open>q = Inr t\<close> more a Inr k by simp
        from Suc.IH [OF _ _ this] k Suc.prems(2) show ?thesis unfolding step by simp
      qed
    qed
  qed
qed

lemma classic_generate_ok:
  assumes "ee_B E = B" and "serial_ok E ok kv S s" and "in_use S tokens"
    and "classic_generate E disk tokens cb gen s = (r, d, s1)"
  defines "ref \<equiv> classic_ref (ee_uniform E) eval (be_is_eog B) (be_context_length B) gen cb (nat (gc_max_tokens gen)) tokens []
    (ee_seed E (gc_seed gen))"
  shows "same_setup s s1 \<and> (\<exists>k. d = take k (snd ref)) \<and> (r = Inr () \<longrightarrow> ref = (Inr (), d) \<and> serial_ok E ok kv S s1)"
proof -
  obtain q s2 where p: "classic_prefill E disk tokens s = (q, s2)" by fastforce
  note c = classic_prefill_ok [OF assms(1-3) p]
  show ?thesis
  proof (cases q)
    case (Inl x)
    with assms(1,4) p c show ?thesis by (auto simp: classic_generate_def intro!: exI [of _ 0])
  next
    case (Inr l)
    obtain q2 d2 ctx b2 where l: "classic_loop B (ee_uniform E) gen cb (nat (gc_max_tokens gen)) (eval tokens) tokens []
        (ee_seed E (gc_seed gen)) (en_backend s2) = (q2, d2, ctx, b2)" using prod_cases4 by blast
    have k: "ok (en_backend s2)" "kv (en_backend s2) = tokens" "l = eval tokens" using c Inr by auto
    note m = classic_loop_ref [OF k(1,2) l, folded ref_def]
    have u: "(q2 = Inl x \<longrightarrow> r = Inl x \<and> d = d2 \<and> s1 = s2\<lparr>en_backend := b2\<rparr>) \<and>
      (q2 = Inr () \<longrightarrow> r = Inr () \<and> d = d2 \<and> s1 = s2\<lparr>en_backend := b2, en_context_tokens := ctx\<rparr>)" for x
      using assms(1,4) p Inr k(3) l by (auto simp: classic_generate_def split: prod.splits)
    show ?thesis
    proof (cases q2)
      case (Inl x)
      with u m c show ?thesis by (auto simp: same_setup_def)
    next
      case Inr2: (Inr v)
      then have v: "r = Inr ()" "d = d2" "s1 = s2\<lparr>en_backend := b2, en_context_tokens := ctx\<rparr>" using u by auto
      from m Inr2 have "ref = (Inr (), d2)" "hot_ok B ok kv ctx b2" by (auto intro: hot_okI)
      then show ?thesis using c m assms(1,2) by (auto simp: v same_setup_def serial_ok_def)
    qed
  qed
qed

lemma decoder_prefill_ok:
  assumes "ee_B E = B" and "serial_ok E ok kv S s" and "in_use S tokens"
    and "decoder_prefill E disk tokens s = (r, s1)"
  shows "disk_ok E ok kv S (en_prefix_cache s1) (en_cache s1) \<and> same_setup s s1 \<and> en_decoder s1 = en_decoder s \<and>
    (\<forall>n. r = Inr n \<longrightarrow> n = 0 \<or> ok (en_backend s1) \<and> kv (en_backend s1) = take n tokens)"
proof -
  let ?ctx = "en_context_tokens s"
  have d: "disk_ok E ok kv S (en_prefix_cache s) (en_cache s)" and h: "hot_ok B ok kv ?ctx (en_backend s)"
    using assms(1,2) by (simp_all add: serial_ok_def)
  consider (hot) "estende B ?ctx tokens (en_backend s)"
    | (disk) p where "\<not> estende B ?ctx tokens (en_backend s)" "en_prefix_cache s = Some p" "1 < length tokens"
    | (cold) "\<not> estende B ?ctx tokens (en_backend s)" "en_prefix_cache s = None \<or> \<not> 1 < length tokens" by fastforce
  then show ?thesis
  proof cases
    case hot
    with estende_kv [OF h hot] d assms(4) show ?thesis by (auto simp: decoder_prefill_def assms(1))
  next
    case disk
    obtain q s2 where c: "cached_prefill E disk p (butlast tokens) s = (q, s2)" by fastforce
    have u: "butlast tokens \<in> S" "length (butlast tokens) < 2 ^ 32" "tokens \<noteq> []" using in_useD [OF assms(3)] by simp_all
    have "decoder_prefill E disk tokens s = (map_sum id (\<lambda>_. length (butlast tokens)) q, s2)"
      using disk c by (cases q) (simp_all add: decoder_prefill_def assms(1))
    with cached_prefill_ok [OF assms(1) d disk(2) u(1,2) c] assms(4) show ?thesis
      by (cases q) (auto simp: butlast_conv_take)
  next
    case cold
    with d assms(4) show ?thesis by (auto simp: decoder_prefill_def assms(1) split: option.splits)
  qed
qed

lemma decoder_generate_ok:
  assumes "ee_B E = B" and "serial_ok E ok kv S s" and "in_use S tokens" and "en_decoder s = Some (dc, dec)"
    and "decoder_generate E disk dc dec tokens cb gen s = (r, d, s1)"
  shows "same_setup s s1 \<and>
    (r = Inr () \<longrightarrow> serial_ok E ok kv S s1 \<and>
      (greedy_env (decoder_env E dc None cb gen) eval \<longrightarrow>
        d = greedy_ref gen eval (be_is_eog B) cb (be_context_length B) (max_out gen) tokens []))"
proof -
  obtain q s2 where p: "decoder_prefill E disk tokens s = (q, s2)" by fastforce
  note c = decoder_prefill_ok [OF assms(1-3) p]
  show ?thesis
  proof (cases q)
    case (Inl x)
    with assms(5) p c show ?thesis by (auto simp: decoder_generate_def)
  next
    case (Inr n)
    let ?e = "decoder_env E dc (en_corpus s2) cb gen"
    obtain r2 run corpus where g: "spec_generate_stream ?e dec tokens n (ee_seed E (gc_seed gen))
        (ee_accept_seed E (gc_seed gen)) (en_backend s2) (en_draft s2) = Some (r2, run, corpus)"
      using spec_generate_ends by (metis not_None_eq prod_cases3)
    have v: "r = r2" "d = sr_delivered run"
      "s1 = s2\<lparr>en_backend := sr_target run, en_draft := sr_draft run, en_corpus := corpus, en_decoder := Some (dc, sr_dec run),
        en_context_tokens := (case r2 of Inl _ \<Rightarrow> en_context_tokens s2 | Inr _ \<Rightarrow> tokens @ sr_delivered run)\<rparr>"
      using assms(5) p Inr g by (auto simp: decoder_generate_def Let_def split: sum.splits)
    have su: "same_setup s s1" using c assms(4) by (auto simp: v same_setup_def)
    have K: "kv_backend (se_B ?e) ok kv eval" using kv_backend_axioms by (simp add: decoder_env_def assms(1))
    have kv: "n = 0 \<or> ok (en_backend s2) \<and> kv (en_backend s2) = take n tokens" using c Inr by auto
    show ?thesis
    proof (cases r2)
      case (Inl x)
      with su v show ?thesis by simp
    next
      case Inr2: (Inr u)
      note g' = g [unfolded Inr2]
      from spec_generate_kv [OF K kv g'] have "hot_ok B ok kv (tokens @ sr_delivered run) (sr_target run)"
        by (auto simp: run_over_def intro: hot_okI)
      then have "serial_ok E ok kv S s1" using c assms(1,2) by (auto simp: v Inr2 serial_ok_def same_setup_def)
      moreover have "d = greedy_ref gen eval (be_is_eog B) cb (be_context_length B) (max_out gen) tokens []"
        if "greedy_env (decoder_env E dc None cb gen) eval"
      proof -
        have "greedy_env ?e eval" using that unfolding greedy_env_def decoder_env_def spec_env.simps .
        from spec_generate_greedy [OF K this kv g'] show ?thesis by (simp add: v decoder_env_def assms(1))
      qed
      ultimately show ?thesis using su v Inr2 by simp
    qed
  qed
qed

end

end
