(* ===== verification/Cli.thy ===== *)
theory Cli
  imports Config Engine
begin

text \<open>
  From the command line and the configuration file to an engine: the model catalog and the zero-config
  defaults (\<open>core/autoconfig.cpp\<close>), the model parameters and the thin \<open>LlamaModel\<close> wrapper
  (\<open>core/model.cpp\<close>), and the decisions of \<open>main.cpp\<close>: arguments, engine and server configuration, exit
  codes. Downloading, console output and waiting for signals are left out; \<open>std::stof\<close>, \<open>std::stod\<close>, the
  file system and the number of processors are arguments.
\<close>

section \<open>Integer conversions\<close>

text \<open>\<open>static_cast<int>\<close> of a wider integer, and the wrap-around of an \<open>int\<close> product.\<close>

definition cast_int :: "int \<Rightarrow> int" where
  "cast_int x = (x + 2147483648) mod 4294967296 - 2147483648"

definition cast_u64 :: "int \<Rightarrow> nat" where
  "cast_u64 x = nat (x mod 18446744073709551616)"

lemma cast_int_id: "INT_MIN \<le> x \<Longrightarrow> x \<le> INT_MAX \<Longrightarrow> cast_int x = x"
  by (simp add: cast_int_def)

lemma cast_int_range: "INT_MIN \<le> cast_int x \<and> cast_int x \<le> INT_MAX"
  by (simp add: cast_int_def)

section \<open>Zero-config defaults\<close>

record ModelSpec =
  ms_name :: bytes
  ms_url :: bytes
  ms_filename :: bytes
  ms_default_ctx :: int
  ms_note :: bytes

definition hf :: bytes where "hf = ''https://huggingface.co/''"
definition middot :: bytes where "middot = '' '' @ [CHR 0xC2, CHR 0xB7] @ '' ''"

definition model_catalog :: "ModelSpec list" where
  "model_catalog =
    [\<lparr>ms_name = ''tinyllama'',
      ms_url = hf @ ''TheBloke/TinyLlama-1.1B-Chat-v1.0-GGUF/'' @ ''resolve/main/tinyllama-1.1b-chat-v1.0.Q4_K_M.gguf'',
      ms_filename = ''tinyllama-1.1b-chat-v1.0.Q4_K_M.gguf'', ms_default_ctx = 2048,
      ms_note = ''1.1B'' @ middot @ ''~670 MB'' @ middot @ ''fast, basic quality''\<rparr>,
     \<lparr>ms_name = ''qwen2.5-0.5b'',
      ms_url = hf @ ''Qwen/Qwen2.5-0.5B-Instruct-GGUF/resolve/'' @ ''main/qwen2.5-0.5b-instruct-q4_k_m.gguf'',
      ms_filename = ''qwen2.5-0.5b-instruct-q4_k_m.gguf'', ms_default_ctx = 4096,
      ms_note = ''0.5B'' @ middot @ ''~400 MB'' @ middot @ ''very fast, tiny''\<rparr>,
     \<lparr>ms_name = ''qwen2.5-1.5b'',
      ms_url = hf @ ''Qwen/Qwen2.5-1.5B-Instruct-GGUF/resolve/'' @ ''main/qwen2.5-1.5b-instruct-q4_k_m.gguf'',
      ms_filename = ''qwen2.5-1.5b-instruct-q4_k_m.gguf'', ms_default_ctx = 4096,
      ms_note = ''1.5B'' @ middot @ ''~1 GB'' @ middot @ ''good default on a laptop''\<rparr>,
     \<lparr>ms_name = ''qwen2.5-3b'',
      ms_url = hf @ ''Qwen/Qwen2.5-3B-Instruct-GGUF/resolve/'' @ ''main/qwen2.5-3b-instruct-q4_k_m.gguf'',
      ms_filename = ''qwen2.5-3b-instruct-q4_k_m.gguf'', ms_default_ctx = 4096,
      ms_note = ''3B'' @ middot @ ''~2 GB'' @ middot @ ''stronger, still light''\<rparr>,
     \<lparr>ms_name = ''olmoe'',
      ms_url = hf @ ''bartowski/OLMoE-1B-7B-0924-Instruct-GGUF/'' @ ''resolve/main/OLMoE-1B-7B-0924-Instruct-Q4_K_M.gguf'',
      ms_filename = ''olmoe-1b-7b-instruct-q4_k_m.gguf'', ms_default_ctx = 4096,
      ms_note = ''7B MoE, 1B active'' @ middot @ ''~4.3 GB'' @ middot @ ''7B-class extraction at ~5x the '' @
        ''speed of a dense 7B''\<rparr>,
     \<lparr>ms_name = ''qwen3.5-9b'',
      ms_url = hf @ ''unsloth/Qwen3.5-9B-GGUF/resolve/'' @ ''main/Qwen3.5-9B-Q4_K_M.gguf'',
      ms_filename = ''qwen3.5-9b-q4_k_m.gguf'', ms_default_ctx = 8192,
      ms_note = ''9B'' @ middot @ ''~5.3 GB'' @ middot @ ''the judgment pick: audits and reviews measured '' @
        ''right where smaller models invent findings''\<rparr>]"

fun prefix_match :: "bytes \<Rightarrow> ModelSpec list \<Rightarrow> ModelSpec option \<Rightarrow> ModelSpec option" where
  "prefix_match t [] found = found"
| "prefix_match t (m # ms) found =
     (if take (length t) (lower (ms_name m)) = t
      then (if found \<noteq> None then None else prefix_match t ms (Some m))
      else prefix_match t ms found)"

definition resolve_model :: "bytes \<Rightarrow> ModelSpec option" where
  "resolve_model token =
     (let t = lower token
      in case find (\<lambda>m. lower (ms_name m) = t) model_catalog of
           Some m \<Rightarrow> Some m
         | None \<Rightarrow> prefix_match t model_catalog None)"

definition auto_threads :: "nat \<Rightarrow> int" where
  "auto_threads hw = (if hw = 0 then 1 else if hw \<le> 4 then int hw else cast_int (int hw) - 1)"

text \<open>\<open>s.rfind(c)\<close>\<close>

definition str_rfind_char :: "bytes \<Rightarrow> char \<Rightarrow> nat option" where
  "str_rfind_char s c = map_option (\<lambda>i. length s - 1 - i) (str_find_char (rev s) c 0)"

definition default_engine_config :: engine_config where
  "default_engine_config =
     \<lparr>ec_model_path = [], ec_draft_model_path = [], ec_n_ctx = 8192, ec_n_threads = 18,
      ec_use_mmap = True, ec_use_mlock = False, ec_kv_cache_type = ''f16'', ec_n_ubatch = 0,
      ec_use_speculative = True, ec_use_prompt_lookup = False, ec_draft_tokens = 16, ec_use_corpus = True,
      ec_spec_disable_after_drafted = 64, ec_spec_disable_below_acceptance = 0.15, ec_cache_dir = [],
      ec_cache_max_mb = 512, ec_cache_compress = True, ec_cache_block_tokens = 256, ec_n_parallel = 1,
      ec_verbose = False\<rparr>"

definition auto_config :: "bytes \<Rightarrow> bytes \<Rightarrow> nat \<Rightarrow> int \<Rightarrow> engine_config" where
  "auto_config model_path home hw ctx =
     (let c = default_engine_config
                \<lparr>ec_model_path := model_path, ec_n_threads := auto_threads hw,
                 ec_n_ctx := (if 0 < ctx then ctx else 4096), ec_kv_cache_type := ''q8_0'',
                 ec_use_speculative := True, ec_use_prompt_lookup := True\<rparr>;
          base = (if home \<noteq> [] then home @ ''/.reame''
                  else let dir = (case str_rfind_char model_path CHR ''/'' of
                                    None \<Rightarrow> [] | Some slash \<Rightarrow> take slash model_path)
                       in (if dir = [] then ''.'' else dir) @ ''/.reame'')
      in c\<lparr>ec_cache_dir := base @ ''/cache''\<rparr>)"

section \<open>The model wrapper\<close>

datatype startup_exn = Config_exn ConfigError | Model_exn model_exn | Num_exn num_error | Level_exn bytes

definition liftC :: "ConfigError + 'a \<Rightarrow> startup_exn + 'a" where
  "liftC = map_sum Config_exn id"

definition validate_model :: "ModelParams \<Rightarrow> model_exn + unit" where
  "validate_model p =
     (if mp_path p = [] then Inl (ModelError ''model path is empty'')
      else if mp_context_length p \<le> 0
      then Inl (ModelError (''context_length must be positive, got '' @ string_of_int (mp_context_length p)))
      else if mp_threads p \<le> 0
      then Inl (ModelError (''threads must be positive, got '' @ string_of_int (mp_threads p)))
      else Inr ())"

definition default_threads :: "nat \<Rightarrow> int" where
  "default_threads hw = (if hw = 0 then 1 else cast_int (int hw))"

definition from_config :: "nat \<Rightarrow> Config \<Rightarrow> startup_exn + ModelParams" where
  "from_config hw cfg =
     bindE (case get_string cfg ''model.path'' of
              Inl _ \<Rightarrow> Inl (Model_exn (ModelError (''config key '' @ quoted ''model.path'' @ '' is required to load a model'')))
            | Inr path \<Rightarrow> Inr path) (\<lambda>path.
     bindE (liftC (get_int_or cfg ''model.context_length'' 4096)) (\<lambda>ctx.
     bindE (liftC (get_int_or cfg ''model.threads'' (default_threads hw))) (\<lambda>threads.
     bindE (liftC (get_bool_or cfg ''memory.use_mmap'' True)) (\<lambda>mmap.
     bindE (liftC (get_bool_or cfg ''memory.use_mlock'' False)) (\<lambda>mlock.
     bindE (liftC (get_string_or cfg ''memory.kv_cache_type'' ''f16'')) (\<lambda>kv.
       if kv \<noteq> ''f16'' \<and> kv \<noteq> ''q8_0'' \<and> kv \<noteq> ''q4_0''
       then Inl (Model_exn (ModelError (''memory.kv_cache_type must be f16, q8_0 or q4_0, '' @ ''got '' @ quoted kv)))
       else Inr \<lparr>mp_path = path, mp_context_length = cast_int ctx, mp_threads = cast_int threads,
                 mp_use_mmap = mmap, mp_use_mlock = mlock, mp_kv_cache_type = kv,
                 mp_n_seq_max = 1, mp_n_ubatch = 0\<rparr>))))))"

definition LlamaModel_init :: "ModelParams \<Rightarrow> 'b option \<Rightarrow> model_exn + 'b" where
  "LlamaModel_init params backend =
     bindE (validate_model params) (\<lambda>_.
       case backend of None \<Rightarrow> Inl (ModelError ''backend is null'') | Some b \<Rightarrow> Inr b)"

text \<open>The production constructor validates before \<open>make_llama_backend\<close>, the argument \<open>make_backend\<close>, is called.\<close>

definition LlamaModel_load :: "(ModelParams \<Rightarrow> model_exn + 'b option) \<Rightarrow> ModelParams \<Rightarrow> model_exn + 'b" where
  "LlamaModel_load make_backend params =
     bindE (validate_model params) (\<lambda>_. bindE (make_backend params) (LlamaModel_init params))"

text \<open>
  The constructor of the llama.cpp backend: which context it asks the library for, and when it throws. The
  defaults of the library and its two loading functions are arguments.
\<close>

datatype ggml_type = GGML_F16 | GGML_Q8_0 | GGML_Q4_0

record llama_context_params =
  cp_n_ctx :: nat
  cp_n_batch :: nat
  cp_n_ubatch :: nat
  cp_n_threads :: int
  cp_n_threads_batch :: int
  cp_type_k :: ggml_type
  cp_type_v :: ggml_type
  cp_flash_attn_auto :: bool
  cp_n_seq_max :: nat
  cp_kv_unified :: bool

definition cast_u32 :: "int \<Rightarrow> nat" where
  "cast_u32 x = nat (x mod 4294967296)"

definition context_params :: "llama_context_params \<Rightarrow> ModelParams \<Rightarrow> llama_context_params" where
  "context_params defaults p =
     (let c1 = defaults\<lparr>cp_n_ctx := cast_u32 (mp_context_length p), cp_n_batch := cast_u32 (mp_context_length p)\<rparr>;
          c2 = (if 0 < mp_n_ubatch p then c1\<lparr>cp_n_ubatch := cast_u32 (mp_n_ubatch p)\<rparr> else c1);
          c3 = c2\<lparr>cp_n_threads := mp_threads p, cp_n_threads_batch := mp_threads p\<rparr>;
          c4 = (if mp_kv_cache_type p = ''q8_0'' then c3\<lparr>cp_type_k := GGML_Q8_0, cp_type_v := GGML_Q8_0\<rparr>
                else if mp_kv_cache_type p = ''q4_0'' then c3\<lparr>cp_type_k := GGML_Q4_0, cp_type_v := GGML_Q4_0\<rparr>
                else c3);
          c5 = (if mp_kv_cache_type p \<noteq> ''f16'' then c4\<lparr>cp_flash_attn_auto := True\<rparr> else c4)
      in if 1 < mp_n_seq_max p then c5\<lparr>cp_n_seq_max := cast_u32 (mp_n_seq_max p), cp_kv_unified := True\<rparr> else c5)"

definition RealLlamaBackend_init :: "llama_context_params \<Rightarrow> (bytes \<Rightarrow> bool \<Rightarrow> bool \<Rightarrow> 'm option)
    \<Rightarrow> ('m \<Rightarrow> llama_context_params \<Rightarrow> 'c option) \<Rightarrow> ModelParams \<Rightarrow> model_exn + 'c RealLlamaBackend" where
  "RealLlamaBackend_init defaults load_model init_context p =
     (case load_model (mp_path p) (mp_use_mmap p) (mp_use_mlock p) of
        None \<Rightarrow> Inl (ModelError (''failed to load GGUF model: '' @ mp_path p))
      | Some model \<Rightarrow>
          (case init_context model (context_params defaults p) of
             None \<Rightarrow> Inl (ModelError (''failed to create llama context for: '' @ mp_path p))
           | Some ctx \<Rightarrow> Inr \<lparr>rb_ctx = ctx, rb_n_past = 0\<rparr>))"

definition model_detokenize :: "'b LlamaBackend \<Rightarrow> tokens \<Rightarrow> model_exn + bytes" where
  "model_detokenize B ts =
     (if ts = [] then Inr []
      else case find (\<lambda>t. sint t < 0 \<or> int (be_vocab_size B) \<le> sint t) ts of
             Some t \<Rightarrow> Inl (ModelError (''token id '' @ string_of_int (sint t) @ '' out of range [0, '' @
                               string_of_nat (be_vocab_size B) @ '')''))
           | None \<Rightarrow> be_detokenize B ts)"

definition model_forward :: "'b LlamaBackend \<Rightarrow> tokens \<Rightarrow> 'b \<Rightarrow> (model_exn + logits) \<times> 'b" where
  "model_forward B ts b =
     (if ts = [] then (Inl (ModelError ''forward pass requires at least one token''), b)
      else if be_context_length B < length ts
      then (Inl (ModelError (''input of '' @ string_of_nat (length ts) @ '' tokens exceeds context length '' @
                   string_of_nat (be_context_length B))), b)
      else case be_decode B b ts of
             (Inl e, b1) \<Rightarrow> (Inl e, b1)
           | (Inr logits, b1) \<Rightarrow>
               if length logits \<noteq> be_vocab_size B
               then (Inl (ModelError (''backend returned '' @ string_of_nat (length logits) @
                       '' logits, expected vocab size '' @ string_of_nat (be_vocab_size B))), b1)
               else (Inr logits, b1))"

section \<open>The command line\<close>

record zero_cli =
  zc_prompt :: bytes
  zc_serve :: bool
  zc_max_tokens :: int
  zc_temperature :: real
  zc_best_of :: int

definition zero_defaults :: zero_cli where
  "zero_defaults = \<lparr>zc_prompt = [], zc_serve = False, zc_max_tokens = 512, zc_temperature = 0.7, zc_best_of = 1\<rparr>"

text \<open>\<open>Inl\<close>: a number that \<open>std::stoi\<close> or \<open>std::stof\<close> refuses; nothing catches it.\<close>

fun zero_loop :: "(bytes \<Rightarrow> num_error + real) \<Rightarrow> bytes list \<Rightarrow> zero_cli \<Rightarrow> num_error + zero_cli" where
  "zero_loop stof [] z = Inr z"
| "zero_loop stof [a] z =
     Inr (if a = ''--serve'' then z\<lparr>zc_serve := True\<rparr>
          else if zc_prompt z = [] then z\<lparr>zc_prompt := a\<rparr> else z)"
| "zero_loop stof (a # v # rest) z =
     (if a = ''--serve'' then zero_loop stof (v # rest) (z\<lparr>zc_serve := True\<rparr>)
      else if a = ''--max-tokens'' then bindE (std_stoi v) (\<lambda>n. zero_loop stof rest (z\<lparr>zc_max_tokens := n\<rparr>))
      else if a = ''--temp'' then bindE (stof v) (\<lambda>t. zero_loop stof rest (z\<lparr>zc_temperature := t\<rparr>))
      else if a = ''--best-of'' then bindE (std_stoi v) (\<lambda>n. zero_loop stof rest (z\<lparr>zc_best_of := n\<rparr>))
      else if zc_prompt z = [] then zero_loop stof (v # rest) (z\<lparr>zc_prompt := a\<rparr>)
      else zero_loop stof (v # rest) z)"

text \<open>
  The file system as a partial map; \<open>fetch url\<close> is what \<open>curl\<close> leaves in the temporary file, \<open>None\<close> when it
  fails.
\<close>

definition ensure_downloaded :: "(bytes \<Rightarrow> bytes option) \<Rightarrow> bytes \<Rightarrow> bytes \<Rightarrow> (bytes \<rightharpoonup> bytes) \<Rightarrow> bool \<times> (bytes \<rightharpoonup> bytes)" where
  "ensure_downloaded fetch url dest fs =
     (if fs dest \<noteq> None then (True, fs)
      else let tmp = dest @ ''.part''
           in case fetch url of
                None \<Rightarrow> (False, fs(tmp := None))
              | Some contents \<Rightarrow> (True, fs(tmp := None, dest \<mapsto> contents)))"

text \<open>Attempts run interleaved: the engine is configured for that many sequences.\<close>

definition conclave_config :: "int \<Rightarrow> engine_config \<Rightarrow> engine_config" where
  "conclave_config best_of c =
     (if 1 < best_of
      then c\<lparr>ec_n_parallel := best_of, ec_n_ctx := cast_int (ec_n_ctx c * best_of),
             ec_use_speculative := False, ec_use_prompt_lookup := False, ec_cache_dir := []\<rparr>
      else c)"

text \<open>What \<open>reame run\<close> starts: the engine configuration, or the exit code.\<close>

definition zero_engine :: "(bytes \<Rightarrow> bytes option) \<Rightarrow> bytes \<Rightarrow> nat \<Rightarrow> bytes \<Rightarrow> zero_cli \<Rightarrow> (bytes \<rightharpoonup> bytes)
    \<Rightarrow> (int + engine_config) \<times> (bytes \<rightharpoonup> bytes)" where
  "zero_engine fetch home hw token z fs =
     (case resolve_model token of
        Some spec \<Rightarrow>
          let model_path = (home @ ''/.reame/models'') @ ''/'' @ ms_filename spec;
              (ok, fs1) = ensure_downloaded fetch (ms_url spec) model_path fs
          in if ok
             then (Inr (conclave_config (zc_best_of z) (auto_config model_path home hw (ms_default_ctx spec))), fs1)
             else (Inl 1, fs1)
      | None \<Rightarrow>
          if fs token \<noteq> None
          then (Inr (conclave_config (zc_best_of z) (auto_config token home hw 0)), fs)
          else (Inl 1, fs))"

text \<open>
  The interactive chat: what is printed, and the exception that ends it. \<open>disk n\<close>: the disk writes while \<open>n\<close>
  lines are left.
\<close>

definition chat_cue :: bytes where
  "chat_cue = newline # ''> ''"

fun chat_loop :: "('b, 'd, 'r, 'a) engine_env \<Rightarrow> (nat \<Rightarrow> nat \<Rightarrow> bool) \<Rightarrow> GenerationConfig \<Rightarrow> bytes list \<Rightarrow> ('b, 'd, 'r, 'a) engine
    \<Rightarrow> engine_exn option \<times> bytes \<times> ('b, 'd, 'r, 'a) engine" where
  "chat_loop E disk gen [] s = (None, chat_cue, s)"
| "chat_loop E disk gen (line # lines) s =
     (if line = []
      then (case chat_loop E disk gen lines s of (x, out, s1) \<Rightarrow> (x, chat_cue @ out, s1))
      else case engine_generate_stream E (disk (length lines)) (engine_format_chat E line) (Some (\<lambda>_. Inr True)) gen s of
             (Inl x, pieces, s1) \<Rightarrow> (Some x, chat_cue @ concat pieces, s1)
           | (Inr _, pieces, s1) \<Rightarrow>
               (case chat_loop E disk gen lines s1 of
                  (x, out, s2) \<Rightarrow> (x, chat_cue @ concat pieces @ [newline] @ out, s2)))"

text \<open>The subcommands: the options of the daemon, the list of models, and which of them \<open>main\<close> runs.\<close>

definition std_stoull :: "bytes \<Rightarrow> num_error + nat" where
  "std_stoull s =
     (let t = dropWhile isspace s;
          u = (if t \<noteq> [] \<and> (hd t = CHR ''-'' \<or> hd t = CHR ''+'') then tl t else t);
          ds = takeWhile isdigit u
      in if ds = [] then Inl Invalid_argument
         else if ULLONG_MAX < nat_of_digits ds then Inl Out_of_range
         else Inr (strtoull s))"

record arca_server_config =
  as_port :: int
  as_directory :: bytes
  as_max_bytes :: nat

definition arca_defaults :: "bytes \<Rightarrow> arca_server_config" where
  "arca_defaults home = \<lparr>as_port = 6420, as_directory = home @ ''/.reame/arca'', as_max_bytes = 0\<rparr>"

fun arca_loop :: "bytes list \<Rightarrow> arca_server_config \<Rightarrow> num_error + arca_server_config" where
  "arca_loop (a # v # rest) cfg =
     (if a = ''--port'' then bindE (std_stoi v) (\<lambda>n. arca_loop rest (cfg\<lparr>as_port := n\<rparr>))
      else if a = ''--dir'' then arca_loop rest (cfg\<lparr>as_directory := v\<rparr>)
      else if a = ''--max-mb''
      then bindE (std_stoull v) (\<lambda>n. arca_loop rest (cfg\<lparr>as_max_bytes := n * 1024 * 1024 mod 2 ^ 64\<rparr>))
      else arca_loop (v # rest) cfg)"
| "arca_loop _ cfg = Inr cfg"

definition list_models :: bytes where
  "list_models =
     ''Built-in models (reame run <name>):'' @ [newline, newline] @
     concat (map (\<lambda>m. ''  '' @ ms_name m @ [newline] @ ''      '' @ ms_note m @ [newline]) model_catalog) @
     [newline] @ ''Or: reame run /path/to/your-model.gguf'' @ [newline]"

datatype main_command = Cmd_run | Cmd_list | Cmd_arca | Cmd_config

definition main_command_of :: "bytes list \<Rightarrow> main_command" where
  "main_command_of args =
     (case args of
        [] \<Rightarrow> Cmd_config
      | sub # _ \<Rightarrow> if sub = ''run'' then Cmd_run else if sub = ''list'' then Cmd_list
                   else if sub = ''arca'' then Cmd_arca else Cmd_config)"

record main_cli =
  mc_config_path :: bytes
  mc_prompt :: bytes
  mc_max_tokens :: int
  mc_temperature :: real
  mc_best_of :: int
  mc_serve :: bool

definition main_defaults :: main_cli where
  "main_defaults = \<lparr>mc_config_path = ''config/reame.conf'', mc_prompt = [], mc_max_tokens = 128,
     mc_temperature = 0.7, mc_best_of = 1, mc_serve = False\<rparr>"

datatype cli_outcome = Go main_cli | Exit int | Uncaught num_error

definition takes_value :: "bytes \<Rightarrow> bool" where
  "takes_value arg \<longleftrightarrow> arg \<in> {''--config'', ''-c'', ''--prompt'', ''-p'', ''--max-tokens'', ''--temp'', ''--best-of''}"

fun main_loop :: "(bytes \<Rightarrow> num_error + real) \<Rightarrow> bytes list \<Rightarrow> main_cli \<Rightarrow> cli_outcome" where
  "main_loop stof [] m = Go m"
| "main_loop stof (arg # rest) m =
     (if arg = ''--help'' \<or> arg = ''-h'' then Exit 0
      else if arg = ''--serve'' \<or> arg = ''-s'' then main_loop stof rest (m\<lparr>mc_serve := True\<rparr>)
      else if arg = ''--version'' \<or> arg = ''-v'' then Exit 0
      else if takes_value arg then
        (case rest of
           [] \<Rightarrow> Exit 1
         | val # rest1 \<Rightarrow>
             if arg = ''--config'' \<or> arg = ''-c'' then main_loop stof rest1 (m\<lparr>mc_config_path := val\<rparr>)
             else if arg = ''--max-tokens'' then
               (case std_stoi val of Inl e \<Rightarrow> Uncaught e | Inr n \<Rightarrow> main_loop stof rest1 (m\<lparr>mc_max_tokens := n\<rparr>))
             else if arg = ''--temp'' then
               (case stof val of Inl e \<Rightarrow> Uncaught e | Inr t \<Rightarrow> main_loop stof rest1 (m\<lparr>mc_temperature := t\<rparr>))
             else if arg = ''--best-of'' then
               (case std_stoi val of Inl e \<Rightarrow> Uncaught e | Inr n \<Rightarrow> main_loop stof rest1 (m\<lparr>mc_best_of := n\<rparr>))
             else main_loop stof rest1 (m\<lparr>mc_prompt := val\<rparr>))
      else Exit 1)"

section \<open>From the configuration file to the engine and the server\<close>

definition engine_config_of :: "(bytes \<Rightarrow> num_error + real \<times> bytes) \<Rightarrow> Config \<Rightarrow> ConfigError + engine_config" where
  "engine_config_of stod cfg =
     bindE (get_string cfg ''model.path'') (\<lambda>model_path.
     bindE (get_int_or cfg ''model.context_length'' 4096) (\<lambda>n_ctx.
     bindE (get_int_or cfg ''model.threads'' 4) (\<lambda>n_threads.
     bindE (get_bool_or cfg ''memory.use_mmap'' True) (\<lambda>use_mmap.
     bindE (get_bool_or cfg ''memory.use_mlock'' False) (\<lambda>use_mlock.
     bindE (get_string_or cfg ''memory.kv_cache_type'' ''f16'') (\<lambda>kv_cache_type.
     bindE (get_int_or cfg ''model.ubatch'' 0) (\<lambda>n_ubatch.
     bindE (get_bool_or cfg ''speculative.enabled'' True) (\<lambda>use_speculative.
     bindE (get_string_or cfg ''speculative.mode'' ''model'') (\<lambda>mode.
     bindE (get_string_or cfg ''speculative.draft_model_path'' []) (\<lambda>draft_model_path.
     bindE (get_int_or cfg ''speculative.draft_tokens'' 16) (\<lambda>draft_tokens.
     bindE (get_bool_or cfg ''speculative.corpus'' True) (\<lambda>use_corpus.
     bindE (get_int_or cfg ''speculative.disable_after_drafted'' 64) (\<lambda>after.
     bindE (get_double_or stod cfg ''speculative.disable_below_acceptance'' 0.15) (\<lambda>below.
     bindE (get_string_or cfg ''cache.directory'' []) (\<lambda>cache_dir.
     bindE (get_int_or cfg ''cache.max_size_mb'' 512) (\<lambda>max_mb.
     bindE (get_bool_or cfg ''cache.compress'' True) (\<lambda>cache_compress.
     bindE (get_int_or cfg ''cache.block_tokens'' 256) (\<lambda>block_tokens.
     bindE (get_int_or cfg ''server.parallel'' 1) (\<lambda>n_parallel.
       Inr (default_engine_config
         \<lparr>ec_model_path := model_path, ec_n_ctx := cast_int n_ctx, ec_n_threads := cast_int n_threads,
          ec_use_mmap := use_mmap, ec_use_mlock := use_mlock, ec_kv_cache_type := kv_cache_type,
          ec_n_ubatch := cast_int n_ubatch, ec_use_speculative := use_speculative,
          ec_use_prompt_lookup := (mode = ''lookup''), ec_draft_model_path := draft_model_path,
          ec_draft_tokens := cast_int draft_tokens, ec_use_corpus := use_corpus,
          ec_spec_disable_after_drafted := cast_u64 after, ec_spec_disable_below_acceptance := below,
          ec_cache_dir := cache_dir, ec_cache_max_mb := cast_u64 max_mb, ec_cache_compress := cache_compress,
          ec_cache_block_tokens := cast_int block_tokens, ec_n_parallel := cast_int n_parallel\<rparr>))))))))))))))))))))"

record arca_client_config =
  acc_host :: bytes
  acc_port :: int

definition arca_remote_of :: "bytes \<Rightarrow> num_error + arca_client_config option" where
  "arca_remote_of remote =
     (if remote = [] then Inr None
      else case str_rfind_char remote CHR '':'' of
             Some colon \<Rightarrow>
               map_sum id (\<lambda>p. Some \<lparr>acc_host = take colon remote, acc_port = p\<rparr>) (std_stoi (drop (colon + 1) remote))
           | None \<Rightarrow> Inr (Some \<lparr>acc_host = remote, acc_port = 6420\<rparr>))"

record server_config =
  sc_host :: bytes
  sc_port :: int
  sc_threads :: int
  sc_max_concurrent_requests :: int
  sc_timeout_seconds :: int
  sc_max_request_size_mb :: nat
  sc_enable_cors :: bool
  sc_enable_metrics :: bool
  sc_enable_request_logging :: bool
  sc_api_key :: bytes
  sc_model_id :: bytes
  sc_escalation_endpoint :: bytes
  sc_escalation_trigger :: bytes
  sc_escalation_model_id :: bytes
  sc_escalation_timeout_ms :: int

definition server_config_of :: "Config \<Rightarrow> ConfigError + server_config" where
  "server_config_of cfg =
     bindE (get_string_or cfg ''server.host'' ''0.0.0.0'') (\<lambda>host.
     bindE (get_int_or cfg ''server.port'' 8080) (\<lambda>port.
     bindE (get_int_or cfg ''server.threads'' 2) (\<lambda>threads.
     bindE (get_int_or cfg ''server.max_concurrent_requests'' 10) (\<lambda>maxc.
     bindE (get_int_or cfg ''server.timeout_seconds'' 300) (\<lambda>timeout.
     bindE (get_int_or cfg ''server.max_request_size_mb'' 10) (\<lambda>mb.
     bindE (get_bool_or cfg ''server.enable_cors'' True) (\<lambda>cors.
     bindE (get_bool_or cfg ''server.enable_metrics'' True) (\<lambda>metrics.
     bindE (get_bool_or cfg ''server.enable_request_logging'' True) (\<lambda>logging.
     bindE (get_string_or cfg ''server.api_key'' []) (\<lambda>api_key.
     bindE (get_string_or cfg ''server.model_id'' ''reame'') (\<lambda>model_id.
     bindE (get_string_or cfg ''escalation.endpoint'' []) (\<lambda>endpoint.
     bindE (get_string_or cfg ''escalation.trigger'' ''NON PRESENTE'') (\<lambda>trigger.
     bindE (get_string_or cfg ''escalation.model_id'' []) (\<lambda>emodel.
     bindE (get_int_or cfg ''escalation.timeout_ms'' 180000) (\<lambda>etimeout.
       Inr \<lparr>sc_host = host, sc_port = cast_int port, sc_threads = cast_int threads,
            sc_max_concurrent_requests = cast_int maxc, sc_timeout_seconds = cast_int timeout,
            sc_max_request_size_mb = cast_u64 mb, sc_enable_cors = cors, sc_enable_metrics = metrics,
            sc_enable_request_logging = logging, sc_api_key = api_key, sc_model_id = model_id,
            sc_escalation_endpoint = endpoint, sc_escalation_trigger = trigger,
            sc_escalation_model_id = emodel, sc_escalation_timeout_ms = cast_int etimeout\<rparr>)))))))))))))))"

text \<open>
  The decisions of \<open>main\<close> up to the point where the model is loaded: an exit code, an exception that nothing
  catches, or the engine to start and what to do with it.
\<close>

datatype main_task = Serve_with "ConfigError + server_config" | Generate_with GenerationConfig bytes int

datatype main_plan = Plan_exit int | Plan_uncaught num_error
  | Plan_start engine_config "arca_client_config option" main_task

definition or_exit :: "'e + 'a \<Rightarrow> ('a \<Rightarrow> main_plan) \<Rightarrow> main_plan" where
  "or_exit m f = (case m of Inl _ \<Rightarrow> Plan_exit 1 | Inr x \<Rightarrow> f x)"

definition generation_of :: "main_cli \<Rightarrow> GenerationConfig" where
  "generation_of m =
     \<lparr>gc_max_tokens = mc_max_tokens m, gc_temperature = mc_temperature m, gc_top_p = 0.95,
      gc_repeat_penalty = 1.1, gc_repeat_last_n = 64, gc_seed = 42, gc_echo_prompt = False\<rparr>"

definition main_configured :: "(bytes \<Rightarrow> num_error + real \<times> bytes) \<Rightarrow> (bytes \<Rightarrow> bool) \<Rightarrow> main_cli \<Rightarrow> Config \<Rightarrow> main_plan" where
  "main_configured stod file_exists m cfg =
     or_exit (get_string_or cfg ''logging.level'' ''info'') (\<lambda>level_text.
     or_exit (level_from_string level_text) (\<lambda>level.
     or_exit (get_string_or cfg ''model.path'' ''<unset>'') (\<lambda>_.
     or_exit (get_int_or cfg ''server.port'' 8080) (\<lambda>_.
       if mc_prompt m = [] \<and> \<not> mc_serve m then Plan_exit 0
       else
     or_exit (engine_config_of stod cfg) (\<lambda>ec.
     or_exit (get_string_or cfg ''arca.remote'' []) (\<lambda>remote.
     or_exit (arca_remote_of remote) (\<lambda>arca.
       let c = conclave_config (mc_best_of m) ec
       in if missing_model_file_error file_exists c \<noteq> [] then Plan_exit 1
          else Plan_start c arca
                 (if mc_serve m then Serve_with (server_config_of cfg)
                  else Generate_with (generation_of m) (mc_prompt m) (mc_best_of m)))))))))"

definition main_run :: "(bytes \<Rightarrow> num_error + real) \<Rightarrow> (bytes \<Rightarrow> num_error + real \<times> bytes) \<Rightarrow> (bytes \<Rightarrow> bytes option)
    \<Rightarrow> (bytes \<Rightarrow> bool) \<Rightarrow> bytes list \<Rightarrow> main_plan" where
  "main_run stof stod file file_exists args =
     (if args = [] then Plan_exit 0
      else case main_loop stof args main_defaults of
             Exit n \<Rightarrow> Plan_exit n
           | Uncaught e \<Rightarrow> Plan_uncaught e
           | Go m \<Rightarrow> or_exit (config_load file (mc_config_path m)) (main_configured stod file_exists m))"

section \<open>Properties\<close>

abbreviation (input) named :: "bytes \<Rightarrow> ModelSpec \<Rightarrow> bool" where
  "named t m \<equiv> take (length t) (lower (ms_name m)) = t"

lemma prefix_match_filter:
  "prefix_match t ms found =
     (case found of
        None \<Rightarrow> (case filter (named t) ms of [m] \<Rightarrow> Some m | _ \<Rightarrow> None)
      | Some m \<Rightarrow> if filter (named t) ms = [] then Some m else None)"
  by (induction ms arbitrary: found) (auto split: option.splits list.splits)

text \<open>
  A model name resolves to the catalog entry of exactly that name, in any case, and otherwise to the
  only entry it is a prefix of; an ambiguous or unknown name resolves to nothing.
\<close>

theorem resolve_model_spec:
  "resolve_model token =
     (case filter (\<lambda>m. lower (ms_name m) = lower token) model_catalog of
        m # _ \<Rightarrow> Some m
      | [] \<Rightarrow> (case filter (named (lower token)) model_catalog of [m] \<Rightarrow> Some m | _ \<Rightarrow> None))"
proof -
  have "find P xs = (case filter P xs of m # _ \<Rightarrow> Some m | [] \<Rightarrow> None)" for P and xs :: "ModelSpec list"
    by (induction xs) auto
  then show ?thesis
    by (simp add: resolve_model_def Let_def prefix_match_filter split: list.splits)
qed

lemma conclave_valid:
  assumes "validate c = Inr ()" "ec_draft_model_path c = []"
    and "1 < best_of \<longrightarrow> ec_n_ctx c * best_of \<le> INT_MAX"
  shows "validate (conclave_config best_of c) = Inr ()"
proof (cases "1 < best_of")
  case True
  have ctx: "0 < ec_n_ctx c" using assms(1) by (auto simp: validate_def split: if_splits)
  then have "0 < ec_n_ctx c * best_of" using True by simp
  then have "cast_int (ec_n_ctx c * best_of) = ec_n_ctx c * best_of"
    using assms(3) True by (intro cast_int_id) simp_all
  with \<open>0 < ec_n_ctx c * best_of\<close> True assms(1,2) show ?thesis
    by (auto simp: validate_def conclave_config_def split: if_splits)
next
  case False
  with assms(1) show ?thesis by (simp add: conclave_config_def)
qed

lemma auto_config_valid:
  assumes "model_path \<noteq> []" "hw < 2147483648"
  shows "validate (auto_config model_path home hw ctx) = Inr ()"
proof -
  have "0 < auto_threads hw"
    using assms(2) cast_int_id [of "int hw"] by (simp add: auto_threads_def)
  with assms(1) show ?thesis
    by (simp add: validate_def auto_config_def default_engine_config_def Let_def)
qed

lemma catalog_ctx: "m \<in> set model_catalog \<Longrightarrow> 0 < ms_default_ctx m \<and> ms_default_ctx m \<le> 8192"
  by (auto simp: model_catalog_def)

lemma resolve_model_in: "resolve_model token = Some m \<Longrightarrow> m \<in> set model_catalog"
proof -
  assume "resolve_model token = Some m"
  then have "find (\<lambda>m. lower (ms_name m) = lower token) model_catalog = Some m \<or>
      filter (named (lower token)) model_catalog = [m]"
    unfolding resolve_model_def Let_def prefix_match_filter by (auto split: option.splits list.splits)
  then show ?thesis
  proof
    assume "find (\<lambda>m. lower (ms_name m) = lower token) model_catalog = Some m"
    then show ?thesis by (auto simp: find_Some_iff)
  next
    assume "filter (named (lower token)) model_catalog = [m]"
    then have "m \<in> set (filter (named (lower token)) model_catalog)" by simp
    then show ?thesis by simp
  qed
qed

text \<open>
  The context that a valid configuration asks for: one batch takes a whole context of tokens, so that no prompt the
  engine accepts is too long for \<open>llama_decode\<close>; with several sequences they share that context; a quantised
  cache comes with flash attention.
\<close>

lemma engine_context:
  fixes d :: llama_context_params
  assumes "validate c = Inr ()" and "ec_n_ctx c \<le> INT_MAX" and "ec_n_parallel c \<le> INT_MAX"
  defines "cp \<equiv> context_params d (to_model_params c)"
  shows "cp_n_ctx cp = nat (ec_n_ctx c)" and "cp_n_batch cp = cp_n_ctx cp" and "0 < cp_n_ctx cp"
    and "1 < ec_n_parallel c \<Longrightarrow> cp_n_seq_max cp = nat (ec_n_parallel c) \<and> cp_kv_unified cp"
    and "ec_kv_cache_type c \<noteq> ''f16'' \<Longrightarrow> cp_flash_attn_auto cp \<and> cp_type_k cp = cp_type_v cp \<and> cp_type_k cp \<noteq> GGML_F16"
  using assms(1-3)
  by (auto simp: cp_def context_params_def to_model_params_def validate_def cast_u32_def Let_def split: if_splits)

text \<open>
  C37. Whatever \<open>reame run\<close> decides to start is a configuration the engine accepts: the zero-config
  defaults pass its validation for every model, machine and number of attempts, as long as the
  multiplied context still fits an \<open>int\<close>.
\<close>

theorem zero_config_is_valid:
  assumes "zero_engine fetch home hw token z fs = (Inr c, fs1)"
    and "token \<noteq> []" "hw < 2147483648" "zc_best_of z \<le> 262143"
  shows "validate c = Inr () \<and> ec_n_parallel c = max 1 (zc_best_of z)"
proof -
  obtain path ctx where c: "c = conclave_config (zc_best_of z) (auto_config path home hw ctx)"
    and path: "path \<noteq> []" and ctx: "ctx \<le> 8192"
    using assms(1,2) catalog_ctx [OF resolve_model_in]
    by (fastforce simp: zero_engine_def Let_def split: option.splits prod.splits if_splits)
  have n: "ec_n_ctx (auto_config path home hw ctx) \<le> 8192"
    "0 < ec_n_ctx (auto_config path home hw ctx)"
    using ctx by (simp_all add: auto_config_def default_engine_config_def Let_def)
  have "1 < zc_best_of z \<longrightarrow> ec_n_ctx (auto_config path home hw ctx) * zc_best_of z \<le> INT_MAX"
  proof
    assume "1 < zc_best_of z"
    then show "ec_n_ctx (auto_config path home hw ctx) * zc_best_of z \<le> INT_MAX"
      using mult_mono [OF n(1) assms(4)] n(2) by simp
  qed
  then have "validate c = Inr ()"
    unfolding c using auto_config_valid [OF path assms(3)]
    by (intro conclave_valid) (simp_all add: auto_config_def default_engine_config_def Let_def)
  moreover have "ec_n_parallel c = max 1 (zc_best_of z)"
    by (simp add: c conclave_config_def auto_config_def default_engine_config_def Let_def)
  ultimately show ?thesis by simp
qed

theorem zero_config_is_valid_witness:
  "\<exists>c fs1. zero_engine (\<lambda>_. Some []) ''/root'' 8 ''qwen3'' (zero_defaults\<lparr>zc_best_of := 3\<rparr>) Map.empty = (Inr c, fs1) \<and>
     validate c = Inr () \<and> ec_n_parallel c = 3"
proof -
  have "resolve_model ''qwen3'' \<noteq> None" by code_simp
  then obtain spec where "resolve_model ''qwen3'' = Some spec" by auto
  then obtain c fs1 where z: "zero_engine (\<lambda>_. Some []) ''/root'' 8 ''qwen3'' (zero_defaults\<lparr>zc_best_of := 3\<rparr>) Map.empty = (Inr c, fs1)"
    by (simp add: zero_engine_def ensure_downloaded_def Let_def)
  with zero_config_is_valid [OF z] show ?thesis by (auto simp: zero_defaults_def)
qed

text \<open>
  \<open>--best-of\<close> with a configuration file that names a draft model never starts: \<open>main\<close> switches
  speculation off but keeps \<open>draft_model_path\<close>, and the engine refuses any draft model in parallel mode.
\<close>

theorem best_of_refused_with_draft_model:
  assumes start: "main_configured stod file_exists m cfg = Plan_start c arca task"
    and "map_find std_less ''speculative.draft_model_path'' cfg = Some d" "d \<noteq> []"
    and "1 < mc_best_of m"
  shows "\<exists>msg. validate c = Inl (EngineError msg)"
proof -
  obtain ec where ec: "engine_config_of stod cfg = Inr ec" "c = conclave_config (mc_best_of m) ec"
    using start by (auto simp: main_configured_def or_exit_def Let_def split: sum.splits if_splits)
  have "ec_draft_model_path ec = d"
    using ec(1) assms(2)
    by (auto simp: engine_config_of_def bindE_Inr get_string_or_def get_string_def config_has_def)
  with ec(2) assms(3,4) show ?thesis
    by (auto simp: validate_def conclave_config_def)
qed

definition draft_ini :: ini where
  "draft_ini = [(''model'', [(''path'', ''m.gguf'')]), (''speculative'', [(''draft_model_path'', ''d.gguf'')])]"

theorem best_of_refused_with_draft_model_witness:
  "\<exists>cfg c arca task msg. config_parse (print_config draft_ini) = Inr cfg \<and>
     main_configured (\<lambda>_. Inl Invalid_argument) (\<lambda>_. True) (main_defaults\<lparr>mc_prompt := ''hi'', mc_best_of := 3\<rparr>) cfg =
       Plan_start c arca task \<and> validate c = Inl (EngineError msg)"
proof -
  let ?m = "main_defaults\<lparr>mc_prompt := ''hi'', mc_best_of := 3\<rparr>"
  have "list_all section_ok draft_ini"
    by (simp add: draft_ini_def section_ok_def pair_ok_def config_trim_def trim_set_dropWhile)
  then obtain cfg where parse: "config_parse (print_config draft_ini) = Inr cfg"
    and find: "\<And>k. map_find std_less k cfg = (if k = ''speculative.draft_model_path'' then Some ''d.gguf''
      else if k = ''model.path'' then Some ''m.gguf'' else None)"
    using config_lookup [of draft_ini] by (auto simp: draft_ini_def full_keys_def)
  have level: "level_from_string ''info'' = Inr Info" by code_simp
  obtain c arca task where "main_configured (\<lambda>_. Inl Invalid_argument) (\<lambda>_. True) ?m cfg = Plan_start c arca task"
    by (simp add: main_configured_def or_exit_def level engine_config_of_def get_string_def get_int_or_def
        get_string_or_def get_bool_or_def get_double_or_def config_has_def find arca_remote_of_def Let_def
        main_defaults_def missing_model_file_error_def)
  with best_of_refused_with_draft_model [OF this, of "''d.gguf''"] parse find show ?thesis
    by (auto simp: main_defaults_def)
qed

end
