(* ===== verification/Http.thy ===== *)
theory Http
  imports String_Map
begin

text \<open>
  HTTP requests and responses (\<open>server/http_types.hpp\<close>, \<open>server/http_parser.cpp\<close>) and the
  connection worker of the server (\<open>server/http_server.cpp\<close>): reading a request from a socket that
  delivers its bytes in arbitrary slices, the size limit, dispatching to the handler, and the writer
  that puts the handler's output on the wire.

  A socket is the list of the blocks its successive \<open>read_some\<close> calls return; the end of the list is
  the error that ends the reading. What is written is collected as one byte string, since the code
  ignores write errors. The handler is an argument: from its state and a request it produces the
  calls it makes on the \<open>ResponseWriter\<close>.
\<close>

section \<open>Header maps\<close>

definition ci_less :: "bytes \<Rightarrow> bytes \<Rightarrow> bool" where
  "ci_less = lexicographical_compare (\<lambda>x y. (of_char (tolower x) :: nat) < of_char (tolower y))"

lemma ci_less_code [code]:
  "ci_less = lexicographical_compare (\<lambda>x y. (of_char (tolower x) :: int) < of_char (tolower y))"
  unfolding ci_less_def of_char_int of_nat_less_iff ..

definition ci_key :: "bytes \<Rightarrow> nat list" where
  "ci_key s = map of_char (lower s)"

lemma ci_key_eq: "ci_key a = ci_key b \<longleftrightarrow> lower a = lower b"
  by (simp add: ci_key_def inj_map_eq_map inj_def)

interpretation hdr: map_order ci_less ci_key
  by unfold_locales
    (simp add: ci_less_def ci_key_def lower_def comp_def
      lexicographical_compare_key [where key = "\<lambda>c. of_char (tolower c)"])

type_synonym HeaderMap = "bytes string_map"

record HttpRequest =
  hq_method :: bytes
  hq_target :: bytes
  hq_headers :: HeaderMap
  hq_body :: bytes

record HttpResponse =
  hr_status :: int
  hr_headers :: HeaderMap
  hr_body :: bytes

definition header_of :: "HeaderMap \<Rightarrow> bytes \<Rightarrow> bytes" where
  "header_of headers name = (case map_find ci_less name headers of None \<Rightarrow> [] | Some v \<Rightarrow> v)"

definition request_header :: "HttpRequest \<Rightarrow> bytes \<Rightarrow> bytes" where
  "request_header req name = header_of (hq_headers req) name"

definition response_header :: "HttpResponse \<Rightarrow> bytes \<Rightarrow> bytes" where
  "response_header resp name = header_of (hr_headers resp) name"

section \<open>Parsing and printing\<close>

definition trim :: "bytes \<Rightarrow> bytes" where
  "trim s = trim_set [CHR '' '', CHR 0x09] s"

definition status_reason :: "int \<Rightarrow> bytes" where
  "status_reason status =
     (if status = 200 then ''OK''
      else if status = 204 then ''No Content''
      else if status = 400 then ''Bad Request''
      else if status = 401 then ''Unauthorized''
      else if status = 404 then ''Not Found''
      else if status = 405 then ''Method Not Allowed''
      else if status = 413 then ''Payload Too Large''
      else if status = 429 then ''Too Many Requests''
      else if status = 500 then ''Internal Server Error''
      else if status = 503 then ''Service Unavailable''
      else ''Unknown'')"

definition parse_header_line :: "bytes \<Rightarrow> HeaderMap \<Rightarrow> HeaderMap" where
  "parse_header_line header_line headers =
     (case str_find_char header_line CHR '':'' 0 of
        None \<Rightarrow> headers
      | Some colon \<Rightarrow>
          map_assign ci_less (trim (take colon header_line)) (trim (drop (colon + 1) header_line)) headers)"

text \<open>
  The loop over the header lines. While \<open>pos < headers_end\<close> there is a line end at or before
  \<open>headers_end\<close>; \<open>header_line_ends\<close> below shows that the search cannot fail.
\<close>

function header_loop :: "bytes \<Rightarrow> nat \<Rightarrow> nat \<Rightarrow> HeaderMap \<Rightarrow> HeaderMap" where
  "header_loop data headers_end pos headers =
     (if pos < headers_end then
        (case str_find data crlf pos of
           None \<Rightarrow> headers
         | Some eol \<Rightarrow>
             header_loop data headers_end (eol + 2)
               (parse_header_line (substr data pos (eol - pos)) headers))
      else headers)"
  by pat_completeness auto
termination
  by (relation "measure (\<lambda>(_, headers_end, pos, _). headers_end - pos)") (auto dest: str_find_Some)

declare header_loop.simps [simp del]

definition parse_http_request :: "bytes \<Rightarrow> HttpRequest option" where
  "parse_http_request data =
     (case str_find data (crlf @ crlf) 0 of
        None \<Rightarrow> None
      | Some headers_end \<Rightarrow>
     (case str_find data crlf 0 of
        None \<Rightarrow> None
      | Some line_end \<Rightarrow>
          let line = take line_end data in
     (case str_find_char line CHR '' '' 0 of
        None \<Rightarrow> None
      | Some sp1 \<Rightarrow>
     (case str_find_char line CHR '' '' (sp1 + 1) of
        None \<Rightarrow> None
      | Some sp2 \<Rightarrow>
          let method = take sp1 line;
              target0 = substr line (sp1 + 1) (sp2 - sp1 - 1)
          in if method = [] \<or> target0 = [] \<or> hd target0 \<noteq> CHR ''/'' then None
             else
               let target = (case str_find_char target0 CHR ''?'' 0 of
                               None \<Rightarrow> target0
                             | Some q \<Rightarrow> take q target0);
                   headers = header_loop data headers_end (line_end + 2) []
               in (case map_find ci_less ''Content-Length'' headers of
                     None \<Rightarrow> Some \<lparr>hq_method = method, hq_target = target,
                                    hq_headers = headers, hq_body = []\<rparr>
                   | Some cl \<Rightarrow>
                       let n = strtoull cl;
                           body_start = headers_end + 4
                       in if length data - body_start < n then None
                          else Some \<lparr>hq_method = method, hq_target = target,
                                     hq_headers = headers, hq_body = substr data body_start n\<rparr>)))))"

definition print_header :: "bytes \<times> bytes \<Rightarrow> bytes" where
  "print_header h = fst h @ '': '' @ snd h"

definition print_headers :: "HeaderMap \<Rightarrow> bytes" where
  "print_headers hs = concat (map (\<lambda>h. print_header h @ crlf) hs)"

definition serialize_http_response :: "HttpResponse \<Rightarrow> bytes" where
  "serialize_http_response response =
     ''HTTP/1.1 '' @ string_of_int (hr_status response) @ '' '' @
       status_reason (hr_status response) @ crlf @
     print_headers (hr_headers response) @
     (if map_find ci_less ''Content-Length'' (hr_headers response) = None
      then ''Content-Length: '' @ string_of_nat (length (hr_body response)) @ crlf
      else []) @
     crlf @ hr_body response"

section \<open>The socket writer\<close>

text \<open>The calls a handler makes on its \<open>ResponseWriter\<close>.\<close>

datatype writer_call = Begin int HeaderMap | Chunk bytes | End

record SocketWriter =
  sw_response :: HttpResponse
  sw_streaming :: bool
  sw_wire :: bytes

definition new_writer :: SocketWriter where
  "new_writer = \<lparr>sw_response = \<lparr>hr_status = 200, hr_headers = [], hr_body = []\<rparr>,
                 sw_streaming = False, sw_wire = []\<rparr>"

definition sw_write :: "SocketWriter \<Rightarrow> bytes \<Rightarrow> SocketWriter" where
  "sw_write w data = w\<lparr>sw_wire := sw_wire w @ data\<rparr>"

definition stream_head :: "HttpResponse \<Rightarrow> bytes" where
  "stream_head response =
     (let head = response\<lparr>hr_headers := map_assign ci_less ''Connection'' ''close'' (hr_headers response)\<rparr>;
          wire = serialize_http_response head
      in case str_find wire (''Content-Length: 0'' @ crlf) 0 of
           None \<Rightarrow> wire
         | Some pos \<Rightarrow> take pos wire @ drop (pos + 19) wire)"

fun writer_step :: "SocketWriter \<Rightarrow> writer_call \<Rightarrow> SocketWriter" where
  "writer_step w (Begin status headers) =
     (let response = (sw_response w)\<lparr>hr_status := status, hr_headers := headers\<rparr>;
          streaming = (response_header response ''Content-Type'' = ''text/event-stream'');
          w1 = w\<lparr>sw_response := response, sw_streaming := streaming\<rparr>
      in if streaming then sw_write w1 (stream_head response) else w1)"
| "writer_step w (Chunk data) =
     (if sw_streaming w then sw_write w data
      else w\<lparr>sw_response := (sw_response w)\<lparr>hr_body := hr_body (sw_response w) @ data\<rparr>\<rparr>)"
| "writer_step w End =
     (if sw_streaming w then w else sw_write w (serialize_http_response (sw_response w)))"

definition write_calls :: "writer_call list \<Rightarrow> bytes" where
  "write_calls calls = sw_wire (foldl writer_step new_writer calls)"

section \<open>A connection\<close>

text \<open>\<open>Inl\<close>: the client hung up or sent too many header bytes; the reads left over.\<close>

fun read_headers :: "bytes list \<Rightarrow> bytes \<Rightarrow> bytes list + nat \<times> bytes \<times> bytes list" where
  "read_headers [] data = Inl []"
| "read_headers (buf # reads) data =
     (let data1 = data @ buf
      in case str_find data1 (crlf @ crlf) 0 of
           Some headers_end \<Rightarrow> Inr (headers_end, data1, reads)
         | None \<Rightarrow> if 64 * 1024 < length data1 then Inl reads else read_headers reads data1)"

function scan_content_length :: "bytes \<Rightarrow> nat \<Rightarrow> nat" where
  "scan_content_length head pos =
     (if pos < length head then
        let eol = (case str_find head crlf pos of None \<Rightarrow> length head | Some e \<Rightarrow> e);
            line = substr head pos (eol - pos)
        in case str_find_char line CHR '':'' 0 of
             None \<Rightarrow> scan_content_length head (eol + 2)
           | Some colon \<Rightarrow>
               if lower (take colon line) = ''content-length''
               then strtoull (drop (colon + 1) line)
               else scan_content_length head (eol + 2)
      else 0)"
  by pat_completeness auto
termination
  by (relation "measure (\<lambda>(head, pos). length head - pos)")
    (auto split: option.splits dest!: str_find_Some)

declare scan_content_length.simps [simp del]

fun read_body :: "bytes list \<Rightarrow> nat \<Rightarrow> nat \<Rightarrow> bytes \<Rightarrow> (bytes \<times> bytes list) option" where
  "read_body reads headers_end content_length data =
     (if length data - headers_end - 4 < content_length then
        (case reads of
           [] \<Rightarrow> None
         | buf # reads1 \<Rightarrow> read_body reads1 headers_end content_length (data @ buf))
      else Some (data, reads))"

declare read_body.simps [simp del]

definition json_response :: "int \<Rightarrow> bytes \<Rightarrow> HttpResponse" where
  "json_response status body =
     \<lparr>hr_status = status,
      hr_headers = map_assign ci_less ''Content-Type'' ''application/json'' [], hr_body = body\<rparr>"

definition too_large_response :: HttpResponse where
  \<open>too_large_response = json_response 413
     (''{"error":{"message":"request too large",'' @
      ''"type":"invalid_request_error",'' @ ''"code":"payload_too_large"}}'')\<close>

definition malformed_response :: HttpResponse where
  \<open>malformed_response = json_response 400
     (''{"error":{"message":"malformed HTTP request",'' @
      ''"type":"invalid_request_error",'' @ ''"code":"bad_request"}}'')\<close>

text \<open>
  One connection: what is written, the reads left over, and the state of the handler afterwards.
  Nothing between the handler and the body of the worker thread catches an exception, so one that
  leaves the handler ends the process; \<open>cn_terminated\<close> records that.
  \<open>max_request_size_mb * 1024 * 1024\<close> is computed in \<open>std::size_t\<close>.
\<close>

type_synonym 's http_handler = "HttpRequest \<Rightarrow> 's \<Rightarrow> writer_call list \<times> bool \<times> 's"

record 's connection =
  cn_wire :: bytes
  cn_left :: "bytes list"
  cn_terminated :: bool
  cn_state :: 's

definition max_bytes :: "nat \<Rightarrow> nat" where
  "max_bytes mb = (mb * 1024 * 1024) mod 2 ^ 64"

definition closed :: "bytes \<Rightarrow> bytes list \<Rightarrow> 's \<Rightarrow> 's connection" where
  "closed wire left s = \<lparr>cn_wire = wire, cn_left = left, cn_terminated = False, cn_state = s\<rparr>"

definition handle_connection :: "nat \<Rightarrow> 's http_handler \<Rightarrow> bytes list \<Rightarrow> 's \<Rightarrow> 's connection" where
  "handle_connection mb handler reads s =
     (case read_headers reads [] of
        Inl left \<Rightarrow> closed [] left s
      | Inr (headers_end, data, reads1) \<Rightarrow>
          let content_length = scan_content_length (take headers_end data) 0
          in if max_bytes mb < content_length
             then closed (serialize_http_response too_large_response) reads1 s
             else (case read_body reads1 headers_end content_length data of
                     None \<Rightarrow> closed [] [] s
                   | Some (data1, reads2) \<Rightarrow>
                       (case parse_http_request data1 of
                          None \<Rightarrow> closed (serialize_http_response malformed_response) reads2 s
                        | Some request \<Rightarrow>
                            let (calls, escaped, s1) = handler request s
                            in \<lparr>cn_wire = write_calls calls, cn_left = reads2,
                                cn_terminated = escaped, cn_state = s1\<rparr>)))"

section \<open>Lines\<close>

lemma prefix_of_append: "d @ t = p @ u \<Longrightarrow> length p \<le> length d \<Longrightarrow> \<exists>v. d = p @ v"
  by (auto simp: append_eq_append_conv2)

definition http_lines :: "bytes list \<Rightarrow> bytes" where
  "http_lines ls = concat (map (\<lambda>l. l @ crlf) ls)"

definition plain_line :: "bytes \<Rightarrow> bool" where
  "plain_line l \<longleftrightarrow> l \<noteq> [] \<and> CHR 0x0D \<notin> set l"

lemma http_lines_simps [simp]:
  "http_lines [] = []" "http_lines (l # ls) = l @ crlf @ http_lines ls"
  by (simp_all add: http_lines_def)

lemma find_sub_skip:
  "pat \<noteq> [] \<Longrightarrow> hd pat \<notin> set s \<Longrightarrow> find_sub pat (s @ t) = map_option ((+) (length s)) (find_sub pat t)"
proof (induction s)
  case Nil
  then show ?case by (simp add: option.map_ident)
next
  case (Cons c cs)
  then have "take (length pat) (c # cs @ t) \<noteq> pat" by (cases pat) auto
  with Cons show ?case by (simp add: option.map_comp comp_def)
qed

lemma find_sub_le:
  "i + length pat \<le> length s \<Longrightarrow> take (length pat) (drop i s) = pat \<Longrightarrow> \<exists>j \<le> i. find_sub pat s = Some j"
proof (induction s arbitrary: i)
  case (Cons c cs)
  show ?case
  proof (cases i)
    case 0
    with Cons.prems show ?thesis by simp
  next
    case (Suc i')
    with Cons.prems Cons.IH [of i'] obtain j where "j \<le> i'" "find_sub pat cs = Some j" by auto
    with Suc show ?thesis by auto
  qed
qed simp

text \<open>A match is found as soon as its last byte has arrived, and at the same place.\<close>

lemma find_sub_prefix:
  assumes "find_sub pat (d @ t) = Some h"
  shows "find_sub pat d = (if h + length pat \<le> length d then Some h else None)"
proof (cases "h + length pat \<le> length d")
  case True
  from find_sub_Some [OF assms] True have "take (length pat) (drop h d) = pat" by simp
  with True obtain j where "find_sub pat d = Some j" using find_sub_le by blast
  with find_sub_append_Some [OF this] assms True show ?thesis by simp
next
  case False
  have "find_sub pat d = None"
  proof (rule ccontr)
    assume "find_sub pat d \<noteq> None"
    then obtain j where j: "find_sub pat d = Some j" by auto
    with find_sub_append_Some [OF j] assms have "j = h" by simp
    with j find_sub_Some [OF j] False show False by simp
  qed
  with False show ?thesis by simp
qed

lemma find_crlf: "CHR 0x0D \<notin> set l \<Longrightarrow> find_sub crlf (l @ crlf @ t) = Some (length l)"
  by (rule find_sub_after) simp_all

lemma find_blank:
  "\<forall>l \<in> set ls. plain_line l \<Longrightarrow> ls \<noteq> [] \<Longrightarrow>
    find_sub (crlf @ crlf) (http_lines ls @ crlf @ t) = Some (length (http_lines ls) - 2)"
proof (induction ls)
  case (Cons l ls)
  then have l: "CHR 0x0D \<notin> set l" "l \<noteq> []" by (simp_all add: plain_line_def)
  show ?case
  proof (cases ls)
    case Nil
    with l show ?thesis using find_sub_after [of "crlf @ crlf" l t] by simp
  next
    case (Cons l2 ls2)
    with Cons.prems have "plain_line l2" by simp
    then obtain c cs where c: "l2 = c # cs" "c \<noteq> CHR 0x0D" by (cases l2) (auto simp: plain_line_def)
    let ?r = "http_lines ls @ crlf @ t"
    have two: "find_sub (crlf @ crlf) (crlf @ ?r) = map_option ((+) 2) (find_sub (crlf @ crlf) ?r)"
      using c Cons by (simp add: crlf_def option.map_comp comp_def)
    have IH: "find_sub (crlf @ crlf) ?r = Some (length (http_lines ls) - 2)"
      using Cons.IH Cons.prems \<open>ls = l2 # ls2\<close> by simp
    have ge: "2 \<le> length (http_lines ls)" by (simp add: Cons)
    have "find_sub (crlf @ crlf) (l @ crlf @ ?r) = Some (length l + (2 + (length (http_lines ls) - 2)))"
      using find_sub_skip [of "crlf @ crlf" l "crlf @ ?r"] l(1) two IH by simp
    with ge show ?thesis by simp
  qed
qed simp

lemma header_line_ends:
  assumes "str_find data (crlf @ crlf) 0 = Some headers_end" and "pos < headers_end"
  shows "\<exists>eol \<le> headers_end. str_find data crlf pos = Some eol"
proof -
  from assms(1) have h: "headers_end + 4 \<le> length data" "take 4 (drop headers_end data) = crlf @ crlf"
    using str_find_Some [OF assms(1)] by simp_all
  have "take 2 (drop headers_end data) = take 2 (take 4 (drop headers_end data))" by simp
  also have "\<dots> = crlf" by (simp add: h(2))
  finally have at: "take (length crlf) (drop (headers_end - pos) (drop pos data)) = crlf"
    using assms(2) by simp
  have "headers_end - pos + length crlf \<le> length (drop pos data)" using h assms(2) by simp
  from find_sub_le [OF this at] obtain j where "j \<le> headers_end - pos" "find_sub crlf (drop pos data) = Some j"
    by blast
  with assms(2) h(1) show ?thesis by (intro exI [of _ "pos + j"]) (simp add: str_find_def)
qed

lemma header_loop_lines:
  "\<forall>l \<in> set ls. plain_line l \<Longrightarrow> data = pre @ http_lines ls @ crlf @ t \<Longrightarrow>
    headers_end + 2 = length pre + length (http_lines ls) \<Longrightarrow>
    header_loop data headers_end (length pre) m = foldl (\<lambda>m l. parse_header_line l m) m ls"
proof (induction ls arbitrary: pre m)
  case Nil
  then show ?case by (simp add: header_loop.simps)
next
  case (Cons l ls)
  have l: "CHR 0x0D \<notin> set l" "l \<noteq> []" using Cons.prems(1) by (simp_all add: plain_line_def)
  have lt: "length pre < headers_end" using Cons.prems(3) l(2) by (cases l) auto
  have find: "str_find data crlf (length pre) = Some (length pre + length l)"
    using find_crlf [OF l(1)] by (simp add: Cons.prems(2) str_find_def)
  have sub: "substr data (length pre) (length l) = l"
    by (simp add: Cons.prems(2) substr_def)
  have IH: "header_loop data headers_end (length (pre @ l @ crlf)) (parse_header_line l m) =
      foldl (\<lambda>m l. parse_header_line l m) (parse_header_line l m) ls"
    using Cons.prems by (intro Cons.IH) simp_all
  show ?case
    using lt find sub IH by (subst header_loop.simps) simp
qed

section \<open>Round trip of requests\<close>

definition header_ok :: "bytes \<times> bytes \<Rightarrow> bool" where
  "header_ok h \<longleftrightarrow>
     fst h \<noteq> [] \<and> CHR '':'' \<notin> set (fst h) \<and> CHR 0x0D \<notin> set (fst h) \<and> trim (fst h) = fst h \<and>
     CHR 0x0D \<notin> set (snd h) \<and> trim (snd h) = snd h"

definition line_ok :: "bytes \<Rightarrow> bytes \<Rightarrow> bool" where
  "line_ok method target \<longleftrightarrow>
     method \<noteq> [] \<and> CHR '' '' \<notin> set method \<and> CHR '':'' \<notin> set method \<and> CHR 0x0D \<notin> set method \<and>
     target \<noteq> [] \<and> hd target = CHR ''/'' \<and>
     CHR '' '' \<notin> set target \<and> CHR ''?'' \<notin> set target \<and> CHR 0x0D \<notin> set target"

definition request_line :: "bytes \<Rightarrow> bytes \<Rightarrow> bytes" where
  "request_line method target = method @ '' '' @ target @ '' HTTP/1.1''"

definition print_http_request :: "bytes \<Rightarrow> bytes \<Rightarrow> HeaderMap \<Rightarrow> bytes \<Rightarrow> bytes" where
  "print_http_request method target hs body =
     request_line method target @ crlf @ print_headers hs @ crlf @ body"

definition body_ok :: "HeaderMap \<Rightarrow> bytes \<Rightarrow> bool" where
  "body_ok headers body \<longleftrightarrow>
     (case map_find ci_less ''Content-Length'' headers of
        None \<Rightarrow> body = []
      | Some v \<Rightarrow> v = string_of_nat (length body) \<and> length body \<le> ULLONG_MAX)"

definition request_ok :: "HttpRequest \<Rightarrow> bool" where
  "request_ok r \<longleftrightarrow> line_ok (hq_method r) (hq_target r) \<and> list_all header_ok (hq_headers r) \<and>
     map_ok ci_less (hq_headers r) \<and> body_ok (hq_headers r) (hq_body r)"

definition print_request :: "HttpRequest \<Rightarrow> bytes" where
  "print_request r = print_http_request (hq_method r) (hq_target r) (hq_headers r) (hq_body r)"

lemma parse_print_header [simp]:
  assumes "header_ok h"
  shows "parse_header_line (print_header h) m = map_assign ci_less (fst h) (snd h) m"
proof -
  have "str_find_char (print_header h) CHR '':'' 0 = Some (length (fst h))"
    using assms str_find_char_notin [of "CHR '':''" "fst h" "'' '' @ snd h"]
    by (simp add: print_header_def header_ok_def del: str_find_char_0)
  with assms show ?thesis
    by (simp add: parse_header_line_def print_header_def header_ok_def trim_def)
qed

lemma plain_print_header: "header_ok h \<Longrightarrow> plain_line (print_header h)"
  by (auto simp: header_ok_def plain_line_def print_header_def)

lemma foldl_parse_headers:
  "list_all header_ok hs \<Longrightarrow>
    foldl (\<lambda>m l. parse_header_line l m) m (map print_header hs) = assign_all ci_less hs m"
  by (induction hs arbitrary: m) (auto simp: assign_all_def split_beta)

lemma print_headers_lines: "print_headers hs = http_lines (map print_header hs)"
  by (simp add: print_headers_def http_lines_def comp_def)

lemma plain_request_line: "line_ok method target \<Longrightarrow> plain_line (request_line method target)"
  by (auto simp: line_ok_def plain_line_def request_line_def)

lemma request_line_spaces:
  assumes "line_ok method target"
  shows "str_find_char (request_line method target) CHR '' '' 0 = Some (length method)"
    and "str_find_char (request_line method target) CHR '' '' (length method + 1) =
      Some (length method + 1 + length target)"
proof -
  show "str_find_char (request_line method target) CHR '' '' 0 = Some (length method)"
    using assms str_find_char_notin [of "CHR '' ''" "method" "target @ '' HTTP/1.1''"]
    by (simp add: request_line_def line_ok_def del: str_find_char_0)
  have "str_find_char (target @ CHR '' '' # ''HTTP/1.1'') CHR '' '' 0 = Some (length target)"
    using assms by (intro str_find_char_notin) (simp add: line_ok_def)
  then show "str_find_char (request_line method target) CHR '' '' (length method + 1) =
      Some (length method + 1 + length target)"
    by (subst str_find_char_shift) (simp_all add: request_line_def del: str_find_char_0)
qed

text \<open>The length of everything up to and including the blank line.\<close>

definition head_size :: "bytes \<Rightarrow> bytes \<Rightarrow> HeaderMap \<Rightarrow> nat" where
  "head_size method target hs = length (print_http_request method target hs [])"

lemma print_request_lines:
  "print_http_request method target hs body =
     http_lines (request_line method target # map print_header hs) @ crlf @ body"
  by (simp add: print_http_request_def print_headers_lines)

lemma length_print_request: "length (print_http_request method target hs body) = head_size method target hs + length body"
  by (simp add: head_size_def print_http_request_def)

lemma find_print_request:
  assumes "line_ok method target" "list_all header_ok hs"
  shows "find_sub (crlf @ crlf) (print_http_request method target hs body) = Some (head_size method target hs - 4)"
    and "4 \<le> head_size method target hs"
proof -
  let ?ls = "request_line method target # map print_header hs"
  have "\<forall>l \<in> set ?ls. plain_line l"
    using assms by (auto simp: list_all_iff intro: plain_request_line plain_print_header)
  from find_blank [OF this] have "find_sub (crlf @ crlf) (http_lines ?ls @ crlf @ body) = Some (length (http_lines ?ls) - 2)"
    by simp
  moreover have "head_size method target hs = length (http_lines ?ls) + 2"
    by (simp add: head_size_def print_request_lines del: http_lines_simps)
  ultimately show "find_sub (crlf @ crlf) (print_http_request method target hs body) = Some (head_size method target hs - 4)"
      "4 \<le> head_size method target hs"
    by (simp_all add: print_request_lines del: http_lines_simps) simp
qed

lemma parse_print:
  assumes ok: "line_ok method target" "list_all header_ok hs"
    and body: "body_ok (assign_all ci_less hs []) body"
  shows "parse_http_request (print_http_request method target hs body @ extra) =
    Some \<lparr>hq_method = method, hq_target = target, hq_headers = assign_all ci_less hs [], hq_body = body\<rparr>"
proof -
  let ?line = "request_line method target" and ?n = "head_size method target hs"
  let ?data = "print_http_request method target hs body @ extra"
  have end': "str_find ?data (crlf @ crlf) 0 = Some (?n - 4)"
    unfolding str_find_0 by (rule find_sub_append_Some) (rule find_print_request [OF ok])
  have data: "?data = ?line @ crlf @ http_lines (map print_header hs) @ crlf @ body @ extra"
    by (simp add: print_request_lines)
  have eol: "str_find ?data crlf 0 = Some (length ?line)"
    unfolding data str_find_0 by (rule find_crlf) (use plain_request_line [OF ok(1)] in \<open>simp add: plain_line_def\<close>)
  have n: "?n = length ?line + length (http_lines (map print_header hs)) + 4"
    by (simp add: head_size_def print_request_lines)
  have line: "take (length ?line) ?data = ?line" by (simp add: data)
  have tgt_eq: "substr ?line (length method + 1) (length method + 1 + length target - length method - 1) = target"
    by (simp add: request_line_def substr_def)
  have meth_eq: "take (length method) ?line = method" by (simp add: request_line_def)
  have tgt: "target \<noteq> []" "hd target = CHR ''/''" "CHR ''?'' \<notin> set target" "method \<noteq> []"
    using ok(1) by (simp_all add: line_ok_def)
  have "header_loop ?data (?n - 4) (length (?line @ crlf)) [] =
      foldl (\<lambda>m l. parse_header_line l m) [] (map print_header hs)"
    using ok(2) n by (intro header_loop_lines [where t = "body @ extra"])
      (auto simp: data list_all_iff intro: plain_print_header)
  then have headers: "header_loop ?data (?n - 4) (length ?line + 2) [] = assign_all ci_less hs []"
    using foldl_parse_headers [OF ok(2)] by simp
  have drop: "drop ?n ?data = body @ extra"
    by (simp add: data n)
  have n4: "?n - 4 + 4 = ?n" using n by simp
  show ?thesis
  proof (cases "map_find ci_less ''Content-Length'' (assign_all ci_less hs [])")
    case None
    with body have "body = []" by (simp add: body_ok_def)
    then show ?thesis
      unfolding parse_http_request_def end' eol option.case Let_def line request_line_spaces [OF ok(1)]
        meth_eq tgt_eq headers None
      using tgt by simp
  next
    case (Some v)
    with body have v: "v = string_of_nat (length body)" "length body \<le> ULLONG_MAX"
      by (simp_all add: body_ok_def)
    have len: "strtoull v = length body" using strtoull_string_of_nat [of "length body" "[]"] v by simp
    have le: "\<not> length ?data - ?n < length body"
      using arg_cong [OF drop, of length] by simp
    have sub: "substr ?data ?n (length body) = body" unfolding substr_def drop by simp
    show ?thesis
      unfolding parse_http_request_def end' eol option.case Let_def line request_line_spaces [OF ok(1)]
        meth_eq tgt_eq headers Some len n4 sub
      using tgt le by simp
  qed
qed

section \<open>Reading a connection\<close>

lemma read_headers_slices:
  assumes "find_sub (crlf @ crlf) (data @ concat reads) = Some h" and "h + 4 \<le> 65536"
    and "length data < h + 4"
  shows "\<exists>k. k < length reads \<and> length (data @ concat (take k reads)) < h + 4 \<and>
    h + 4 \<le> length (data @ concat (take (Suc k) reads)) \<and>
    read_headers reads data = Inr (h, data @ concat (take (Suc k) reads), drop (Suc k) reads)"
  using assms(1,3)
proof (induction reads arbitrary: data)
  case Nil
  with find_sub_Some [OF Nil.prems(1)] show ?case by simp
next
  case (Cons buf reads)
  let ?d = "data @ buf"
  have find: "find_sub (crlf @ crlf) ?d = (if h + 4 \<le> length ?d then Some h else None)"
    using find_sub_prefix [of "crlf @ crlf" ?d "concat reads" h] Cons.prems(1) by simp
  show ?case
  proof (cases "h + 4 \<le> length ?d")
    case True
    with find Cons.prems(2) show ?thesis by (intro exI [of _ 0]) (simp add: str_find_0 Let_def)
  next
    case False
    with Cons.IH [of ?d] Cons.prems(1) obtain k where k: "k < length reads"
        "length (?d @ concat (take k reads)) < h + 4" "h + 4 \<le> length (?d @ concat (take (Suc k) reads))"
        "read_headers reads ?d = Inr (h, ?d @ concat (take (Suc k) reads), drop (Suc k) reads)"
      by auto
    with False find assms(2) show ?thesis
      by (intro exI [of _ "Suc k"]) (simp add: str_find_0 Let_def)
  qed
qed

lemma read_body_slices:
  assumes "h + 4 + n \<le> length (data @ concat reads)" and "h + 4 \<le> length data"
  shows "\<exists>k. read_body reads h n data = Some (data @ concat (take k reads), drop k reads) \<and>
    h + 4 + n \<le> length (data @ concat (take k reads))"
  using assms
proof (induction reads arbitrary: data)
  case Nil
  then show ?case by (intro exI [of _ 0]) (simp add: read_body.simps)
next
  case (Cons buf reads)
  show ?case
  proof (cases "length data - h - 4 < n")
    case True
    with Cons.IH [of "data @ buf"] Cons.prems obtain k where
      "read_body reads h n (data @ buf) = Some (data @ buf @ concat (take k reads), drop k reads)"
      "h + 4 + n \<le> length (data @ buf @ concat (take k reads))"
      by auto
    with True show ?thesis by (intro exI [of _ "Suc k"]) (simp add: read_body.simps)
  next
    case False
    then have "read_body (buf # reads) h n data = Some (data, buf # reads)"
      by (simp add: read_body.simps)
    then show ?thesis using False Cons.prems(2) by (intro exI [of _ 0]) auto
  qed
qed

text \<open>The scan for the content length looks at the first line with that name.\<close>

definition announced :: "bytes list \<Rightarrow> nat" where
  "announced ls =
     (case find (\<lambda>l. \<exists>colon. str_find_char l CHR '':'' 0 = Some colon \<and>
                     lower (take colon l) = ''content-length'') ls of
        None \<Rightarrow> 0
      | Some l \<Rightarrow> strtoull (drop (the (str_find_char l CHR '':'' 0) + 1) l))"

lemma announced_Cons:
  "announced (l # ls) =
     (case str_find_char l CHR '':'' 0 of
        None \<Rightarrow> announced ls
      | Some colon \<Rightarrow> if lower (take colon l) = ''content-length''
                      then strtoull (drop (colon + 1) l) else announced ls)"
  by (auto simp: announced_def split: option.splits)

lemma scan_content_length_lines:
  "\<forall>l \<in> set ls. plain_line l \<Longrightarrow> head @ crlf = pre @ http_lines ls \<Longrightarrow> ls \<noteq> [] \<Longrightarrow>
    scan_content_length head (length pre) = announced ls"
proof (induction ls arbitrary: pre)
  case (Cons l ls)
  have l: "CHR 0x0D \<notin> set l" "l \<noteq> []" using Cons.prems(1) by (simp_all add: plain_line_def)
  have past: "scan_content_length head (length head + 2) = 0" by (simp add: scan_content_length.simps)
  show ?case
  proof (cases ls)
    case Nil
    with Cons.prems(2) have head: "head = pre @ l" by simp
    have "find_sub crlf l = None"
      using find_sub_skip [of crlf l "[]"] l(1) by simp
    then have "str_find head crlf (length pre) = None" by (simp add: head str_find_def)
    with l past show ?thesis
      by (subst scan_content_length.simps)
        (simp add: head Nil Let_def substr_def announced_Cons announced_def split: option.splits)
  next
    case (Cons l2 ls2)
    then obtain rest where rest: "http_lines ls = rest @ crlf"
      by (metis http_lines_def concat_append concat.simps list.simps map_append append_Nil2
          append_assoc list.exhaust rev_exhaust neq_Nil_conv)
    with Cons.prems(2) have head: "head = pre @ l @ crlf @ rest" by simp
    have find: "str_find head crlf (length pre) = Some (length pre + length l)"
      using find_crlf [OF l(1)] by (simp add: head str_find_def)
    have IH: "scan_content_length head (length (pre @ l @ crlf)) = announced ls"
      using Cons.prems Cons by (intro Cons.IH) (simp_all add: head rest)
    with l find show ?thesis
      by (subst scan_content_length.simps)
        (simp add: head Let_def substr_def announced_Cons split: option.splits)
  qed
qed simp

lemma lower_space: "CHR '' '' \<in> set s \<Longrightarrow> CHR '' '' \<in> set (lower s)"
  by (force simp: lower_def tolower_def isupper_def image_iff)

lemma announced_request_line: "line_ok method target \<Longrightarrow> announced (request_line method target # ls) = announced ls"
proof -
  assume ok: "line_ok method target"
  have "lower (take colon (request_line method target)) \<noteq> ''content-length''"
    if "str_find_char (request_line method target) CHR '':'' 0 = Some colon" for colon
  proof -
    from that have "colon = length (takeWhile (\<lambda>d. d \<noteq> CHR '':'') (request_line method target))"
      by (simp split: if_splits)
    then have "take colon (request_line method target) = takeWhile (\<lambda>d. d \<noteq> CHR '':'') (request_line method target)"
      using takeWhile_eq_take by metis
    moreover have "CHR '' '' \<in> set (takeWhile (\<lambda>d. d \<noteq> CHR '':'') (request_line method target))"
      using ok by (auto simp: request_line_def line_ok_def takeWhile_append)
    ultimately have "CHR '' '' \<in> set (lower (take colon (request_line method target)))"
      by (simp add: lower_space)
    then show ?thesis by auto
  qed
  then show ?thesis by (auto simp: announced_Cons split: option.splits)
qed

lemma announced_headers:
  "list_all header_ok hs \<Longrightarrow>
    announced (map print_header hs) =
      (case find (\<lambda>h. ci_key (fst h) = ci_key ''Content-Length'') hs of
         None \<Rightarrow> 0 | Some h \<Rightarrow> strtoull (snd h))"
proof (induction hs)
  case Nil
  then show ?case by (simp add: announced_def)
next
  case (Cons h hs)
  then have h: "header_ok h" by simp
  have colon: "str_find_char (print_header h) CHR '':'' 0 = Some (length (fst h))"
    using h str_find_char_notin [of "CHR '':''" "fst h" "'' '' @ snd h"]
    by (simp add: print_header_def header_ok_def del: str_find_char_0)
  have sp: "strtoull (CHR '' '' # v) = strtoull v" for v
    by (rule strtoull_space) (simp add: isspace_def)
  have low: "lower ''Content-Length'' = ''content-length''" by code_simp
  have "take (length (fst h)) (print_header h) = fst h"
    "drop (length (fst h) + 1) (print_header h) = CHR '' '' # snd h"
    by (simp_all add: print_header_def)
  with Cons colon sp show ?case
    by (simp add: announced_Cons ci_key_eq low del: str_find_char_0 lower_simps)
qed

text \<open>What a well-formed message announces is the length of its body.\<close>

definition message_ok :: "bytes \<Rightarrow> bytes \<Rightarrow> HeaderMap \<Rightarrow> bytes \<Rightarrow> bool" where
  "message_ok method target hs body \<longleftrightarrow>
     line_ok method target \<and> list_all header_ok hs \<and> distinct (map (ci_key \<circ> fst) hs) \<and>
     body_ok (assign_all ci_less hs []) body"

lemma scan_message:
  assumes "message_ok method target hs body"
  shows "scan_content_length (take (head_size method target hs - 4) (print_http_request method target hs body @ extra)) 0
    = length body"
proof -
  let ?ls = "request_line method target # map print_header hs"
  have ok: "line_ok method target" "list_all header_ok hs" using assms by (simp_all add: message_ok_def)
  have plain: "\<forall>l \<in> set ?ls. plain_line l"
    using ok by (auto simp: list_all_iff intro: plain_request_line plain_print_header)
  have n: "head_size method target hs - 4 = length (http_lines ?ls) - 2"
    by (simp add: head_size_def print_request_lines)
  obtain rest where rest: "http_lines ?ls = rest @ crlf"
    by (metis http_lines_def concat_append concat.simps list.simps map_append append_Nil2
        append_assoc list.exhaust rev_exhaust neq_Nil_conv)
  have head: "take (head_size method target hs - 4) (print_http_request method target hs body @ extra) = rest"
    unfolding n print_request_lines rest by simp
  have "scan_content_length rest 0 = announced ?ls"
    using scan_content_length_lines [OF plain, of rest "[]"] rest by simp
  also have "\<dots> = (case map_find ci_less ''Content-Length'' (assign_all ci_less hs []) of
      None \<Rightarrow> 0 | Some v \<Rightarrow> strtoull v)"
    using assms by (simp add: announced_request_line announced_headers message_ok_def
        hdr.find_assign_distinct option.case_eq_if option.map_sel)
  also have "\<dots> = length body"
    using assms strtoull_string_of_nat [of "length body" "[]"]
    by (auto simp: message_ok_def body_ok_def split: option.splits)
  finally show ?thesis unfolding head .
qed

lemma connection_reads:
  assumes ok: "message_ok method target hs body" and size: "head_size method target hs \<le> 65536"
    and reads: "concat reads = print_http_request method target hs body @ extra"
  shows "\<exists>k. k < length reads \<and> length (concat (take k reads)) < head_size method target hs \<and>
    read_headers reads [] = Inr (head_size method target hs - 4, concat (take (Suc k) reads), drop (Suc k) reads) \<and>
    scan_content_length (take (head_size method target hs - 4) (concat (take (Suc k) reads))) 0 = length body \<and>
    head_size method target hs \<le> length (concat (take (Suc k) reads))"
proof -
  let ?n = "head_size method target hs"
  have line: "line_ok method target" "list_all header_ok hs" using ok by (simp_all add: message_ok_def)
  have n4: "4 \<le> ?n" by (rule find_print_request [OF line])
  have find: "find_sub (crlf @ crlf) ([] @ concat reads) = Some (?n - 4)"
    unfolding reads append_Nil by (rule find_sub_append_Some) (rule find_print_request [OF line])
  obtain k where k: "k < length reads" "length (concat (take k reads)) < ?n"
      "read_headers reads [] = Inr (?n - 4, concat (take (Suc k) reads), drop (Suc k) reads)"
      and len: "?n \<le> length (concat (take (Suc k) reads))"
    using read_headers_slices [OF find] size n4 by auto
  have split: "concat reads = concat (take (Suc k) reads) @ concat (drop (Suc k) reads)"
    by (metis append_take_drop_id concat_append)
  have "take (?n - 4) (concat (take (Suc k) reads)) = take (?n - 4) (concat reads)"
    unfolding split using len by simp
  with scan_message [OF ok, of extra] reads k len show ?thesis by auto
qed

section \<open>What the server receives and sends\<close>

text \<open>
  A well-formed request, printed in HTTP/1.1 form and followed by whatever else the peer sent,
  parses to that request: method, path, header map and a body of exactly the announced length.
\<close>

theorem http_request_roundtrip:
  assumes "request_ok r"
  shows "parse_http_request (print_request r @ extra) = Some r"
proof -
  have "assign_all ci_less (hq_headers r) [] = hq_headers r"
    using assms hdr.assign_all_id [of "[]" "hq_headers r"] by (simp add: request_ok_def)
  with assms show ?thesis
    by (simp add: print_request_def parse_print request_ok_def)
qed

definition demo_request :: HttpRequest where
  "demo_request = \<lparr>hq_method = ''POST'', hq_target = ''/v1/warm'',
     hq_headers = [(''Content-Length'', ''2''), (''Host'', ''localhost'')], hq_body = ''{}''\<rparr>"

lemma string_of_nat_2: "string_of_nat (Suc (Suc 0)) = ''2''"
  by code_simp

lemmas ci_eval = ci_less_def tolower_def isupper_def

lemma demo_request_ok: "request_ok demo_request"
proof -
  have find: "map_find ci_less ''Content-Length'' (hq_headers demo_request) = Some ''2''"
    by (simp add: demo_request_def ci_eval)
  have "line_ok (hq_method demo_request) (hq_target demo_request)" "list_all header_ok (hq_headers demo_request)"
    by (simp_all add: demo_request_def line_ok_def header_ok_def trim_def trim_set_dropWhile)
  moreover have "map_ok ci_less (hq_headers demo_request)" by (simp add: demo_request_def map_ok_def ci_eval)
  ultimately show ?thesis
    unfolding request_ok_def body_ok_def find by (simp add: demo_request_def string_of_nat_2)
qed

theorem http_request_roundtrip_witness:
  "parse_http_request (print_request demo_request @ ''GET'') = Some demo_request"
  by (rule http_request_roundtrip) (rule demo_request_ok)

lemma connection_reply:
  assumes ok: "message_ok method target hs body"
    and size: "head_size method target hs \<le> 65536" "length body \<le> max_bytes mb"
    and reads: "concat reads = print_http_request method target hs body @ extra"
    and handler: "handler \<lparr>hq_method = method, hq_target = target,
      hq_headers = assign_all ci_less hs [], hq_body = body\<rparr> s = (calls, escaped, s1)"
  shows "cn_wire (handle_connection mb handler reads s) = write_calls calls \<and>
    cn_terminated (handle_connection mb handler reads s) = escaped \<and>
    cn_state (handle_connection mb handler reads s) = s1"
proof -
  let ?n = "head_size method target hs"
  obtain k where k: "read_headers reads [] = Inr (?n - 4, concat (take (Suc k) reads), drop (Suc k) reads)"
      "scan_content_length (take (?n - 4) (concat (take (Suc k) reads))) 0 = length body"
      "?n \<le> length (concat (take (Suc k) reads))"
    using connection_reads [OF ok size(1) reads] by blast
  have n4: "4 \<le> ?n" using ok by (intro find_print_request) (simp_all add: message_ok_def)
  have whole: "concat (take (Suc k) reads) @ concat (drop (Suc k) reads) = concat reads"
    by (metis append_take_drop_id concat_append)
  obtain j where j: "read_body (drop (Suc k) reads) (?n - 4) (length body) (concat (take (Suc k) reads)) =
        Some (concat (take (Suc k) reads) @ concat (take j (drop (Suc k) reads)), drop j (drop (Suc k) reads))"
      "?n - 4 + 4 + length body \<le> length (concat (take (Suc k) reads) @ concat (take j (drop (Suc k) reads)))"
    using read_body_slices [of "?n - 4" "length body" "concat (take (Suc k) reads)" "drop (Suc k) reads"] n4 k(3)
    unfolding whole reads length_append length_print_request by auto
  let ?d = "concat (take (Suc k) reads) @ concat (take j (drop (Suc k) reads))"
  have "?d @ concat (drop j (drop (Suc k) reads)) = print_http_request method target hs body @ extra"
    unfolding reads [symmetric] whole [symmetric] append_assoc
    by (metis append_take_drop_id concat_append)
  moreover have "length (print_http_request method target hs body) \<le> length ?d"
    unfolding length_print_request using j(2) n4 by simp
  ultimately obtain extra' where "?d = print_http_request method target hs body @ extra'"
    using prefix_of_append by blast
  then have parse: "parse_http_request ?d = Some \<lparr>hq_method = method, hq_target = target,
      hq_headers = assign_all ci_less hs [], hq_body = body\<rparr>"
    using ok by (simp add: parse_print message_ok_def)
  show ?thesis
    unfolding handle_connection_def k(1) sum.case prod.case Let_def k(2) j(1) option.case parse handler
    using size(2) by simp
qed

text \<open>
  C9. A request is served independently of how the network slices it: whatever blocks the socket
  delivers, as long as they begin with the printed request, the handler is called exactly with that
  request and its output is what is written. Header names may be spelled in any case and come in
  any order; the body has to respect the size limit.
\<close>

theorem connection_serves_request:
  assumes ok: "message_ok method target hs body"
    and size: "head_size method target hs \<le> 65536" "length body \<le> max_bytes mb"
    and reads: "concat reads = print_http_request method target hs body @ extra"
    and handler: "handler \<lparr>hq_method = method, hq_target = target,
      hq_headers = assign_all ci_less hs [], hq_body = body\<rparr> s = (calls, escaped, s1)"
  shows "cn_wire (handle_connection mb handler reads s) = write_calls calls \<and>
    cn_terminated (handle_connection mb handler reads s) = escaped \<and>
    cn_state (handle_connection mb handler reads s) = s1"
  using assms by (rule connection_reply)

definition demo_handler :: "nat http_handler" where
  "demo_handler request s = ([Begin 200 [], Chunk (hq_body request), End], False, s + 1)"

theorem connection_serves_request_witness:
  "cn_state (handle_connection 1 demo_handler [''GET'', '' / HTTP/1.1'' @ crlf @ [CHR 0x0D], [CHR 0x0A] @ ''x''] 4) = 5"
  using connection_serves_request [of "''GET''" "''/''" "[]" "[]" 1
      "[''GET'', '' / HTTP/1.1'' @ crlf @ [CHR 0x0D], [CHR 0x0A] @ ''x'']" "''x''" demo_handler 4
      "[Begin 200 [], Chunk [], End]" False 5]
  by (simp add: message_ok_def line_ok_def body_ok_def assign_all_def head_size_def max_bytes_def
      print_http_request_def request_line_def print_headers_def crlf_def demo_handler_def)

text \<open>
  C32. The size limit is enforced before the body is buffered: a request that announces more than
  the limit is answered with 413, the handler is not called, and no block is read beyond the one
  that completed the headers.
\<close>

theorem oversized_request_refused:
  assumes ok: "message_ok method target hs body"
    and size: "head_size method target hs \<le> 65536" "max_bytes mb < length body"
    and reads: "concat reads = print_http_request method target hs body @ extra"
  shows "\<exists>k < length reads. length (concat (take k reads)) < head_size method target hs \<and>
    handle_connection mb handler reads s =
      closed (serialize_http_response too_large_response) (drop (Suc k) reads) s"
proof -
  let ?n = "head_size method target hs"
  obtain k where "k < length reads" "length (concat (take k reads)) < ?n"
      "read_headers reads [] = Inr (?n - 4, concat (take (Suc k) reads), drop (Suc k) reads)"
      "scan_content_length (take (?n - 4) (concat (take (Suc k) reads))) 0 = length body"
    using connection_reads [OF ok size(1) reads] by blast
  with size(2) show ?thesis
    by (intro exI [of _ k]) (simp add: handle_connection_def)
qed

lemma demo_message_ok:
  "message_ok ''POST'' ''/v1/warm'' [(''Content-Length'', ''2''), (''Host'', ''localhost'')] ''{}''"
  "head_size ''POST'' ''/v1/warm'' [(''Content-Length'', ''2''), (''Host'', ''localhost'')] \<le> 65536"
proof -
  have ok: "map_ok ci_less [(''Content-Length'', ''2''), (''Host'', ''localhost'')]"
    by (simp add: map_ok_def ci_eval)
  then have "assign_all ci_less [(''Content-Length'', ''2''), (''Host'', ''localhost'')] [] =
      [(''Content-Length'', ''2''), (''Host'', ''localhost'')]"
    using hdr.assign_all_id [of "[]"] by simp
  with hdr.ok_distinct [OF ok] demo_request_ok
  show "message_ok ''POST'' ''/v1/warm'' [(''Content-Length'', ''2''), (''Host'', ''localhost'')] ''{}''"
    by (simp add: message_ok_def request_ok_def demo_request_def)
  show "head_size ''POST'' ''/v1/warm'' [(''Content-Length'', ''2''), (''Host'', ''localhost'')] \<le> 65536"
    by (simp add: head_size_def print_http_request_def request_line_def print_headers_def print_header_def crlf_def)
qed

theorem oversized_request_refused_witness:
  "cn_wire (handle_connection 0 demo_handler [print_request demo_request] 4) =
    serialize_http_response too_large_response"
  using oversized_request_refused [of "''POST''" "''/v1/warm''"
      "[(''Content-Length'', ''2''), (''Host'', ''localhost'')]" "''{}''" 0 "[print_request demo_request]" "[]"
      demo_handler 4]
    demo_message_ok
  by (auto simp: closed_def max_bytes_def print_request_def demo_request_def)

text \<open>
  The connection worker and the parser disagree about repeated \<open>Content-Length\<close> headers: the
  worker waits for as many bytes as the first one announces, the parser takes as many as the last
  one says. Whether such a request is served or refused depends on how the network slices it.
\<close>

definition repeated_length_head :: bytes where
  "repeated_length_head = ''POST / HTTP/1.1'' @ crlf @ ''Content-Length: 0'' @ crlf @
     ''Content-Length: 2'' @ crlf @ crlf"

theorem repeated_length_depends_on_slicing:
  "cn_state (handle_connection 1 demo_handler [repeated_length_head @ ''{}''] 0) = 1 \<and>
   cn_state (handle_connection 1 demo_handler [repeated_length_head, ''{}''] 0) = 0 \<and>
   cn_wire (handle_connection 1 demo_handler [repeated_length_head, ''{}''] 0) =
     serialize_http_response malformed_response"
proof -
  let ?d = "repeated_length_head @ ''{}''"
  have scan: "read_headers [?d] [] = Inr (53, ?d, [])"
    "read_headers [repeated_length_head, ''{}''] [] = Inr (53, repeated_length_head, [''{}''])"
    "scan_content_length (take 53 ?d) 0 = 0" "scan_content_length (take 53 repeated_length_head) 0 = 0"
    by code_simp+
  have parse: "parse_http_request ?d \<noteq> None" "parse_http_request repeated_length_head = None"
    by code_simp+
  from parse(1) obtain r where r: "parse_http_request ?d = Some r" by auto
  have "handle_connection 1 demo_handler [?d] 0 =
      \<lparr>cn_wire = write_calls [Begin 200 [], Chunk (hq_body r), End], cn_left = [], cn_terminated = False, cn_state = 1\<rparr>"
    unfolding handle_connection_def scan(1) sum.case prod.case Let_def scan(3)
    by (simp add: r read_body.simps demo_handler_def)
  moreover have "handle_connection 1 demo_handler [repeated_length_head, ''{}''] 0 =
      closed (serialize_http_response malformed_response) [''{}''] 0"
    unfolding handle_connection_def scan(2) by (simp add: scan(4) parse(2) read_body.simps)
  ultimately show ?thesis by (simp add: closed_def)
qed

section \<open>What the writer puts on the wire\<close>

lemma write_plain:
  assumes "header_of headers ''Content-Type'' \<noteq> ''text/event-stream''"
  shows "write_calls [Begin status headers, Chunk body, End] =
    serialize_http_response \<lparr>hr_status = status, hr_headers = headers, hr_body = body\<rparr>"
  using assms by (simp add: write_calls_def new_writer_def response_header_def sw_write_def Let_def)

lemma write_stream_chunks:
  "sw_streaming w \<Longrightarrow>
    foldl writer_step w (map Chunk cs) = w\<lparr>sw_wire := sw_wire w @ concat cs\<rparr>"
  by (induction cs arbitrary: w) (simp_all add: sw_write_def)

lemma write_stream:
  assumes "header_of headers ''Content-Type'' = ''text/event-stream''"
  shows "write_calls (Begin status headers # map Chunk cs @ [End]) =
    stream_head \<lparr>hr_status = status, hr_headers = headers, hr_body = []\<rparr> @ concat cs"
  using assms
  by (simp add: write_calls_def new_writer_def response_header_def sw_write_def Let_def write_stream_chunks)

text \<open>
  A second \<open>begin\<close> after the event stream has started puts a whole HTTP response into the stream.
\<close>

lemma write_stream_then_response:
  assumes "header_of headers ''Content-Type'' = ''text/event-stream''"
    and "header_of headers' ''Content-Type'' \<noteq> ''text/event-stream''"
  shows "write_calls (Begin status headers # map Chunk cs @ [Begin status' headers', Chunk body, End]) =
    stream_head \<lparr>hr_status = status, hr_headers = headers, hr_body = []\<rparr> @ concat cs @
    serialize_http_response \<lparr>hr_status = status', hr_headers = headers', hr_body = body\<rparr>"
  using assms
  by (simp add: write_calls_def new_writer_def response_header_def sw_write_def Let_def write_stream_chunks)

end
