(* ===== verification/Http_Server.thy ===== *)
theory Http_Server
  imports Http
begin

text \<open>
  The life cycle of \<open>server/http_server.cpp\<close>: the accept thread, the detached connection workers and
  \<open>start\<close>/\<open>stop\<close>, as a step relation whose steps are the atomic actions of the threads in any order.
  \<open>sv_workers\<close> counts the workers that are alive (a ghost: the code only has the atomic counter
  \<open>active_connections\<close>), \<open>sv_accept\<close> is where the accept thread is in its loop, \<open>sv_stop\<close> where
  \<open>stop()\<close> is.
\<close>

datatype accept_pc = No_thread | Checking | Accepting | Exited

datatype stop_pc = Idle | Closing | Joining | Draining nat

record server =
  sv_running :: bool
  sv_open :: bool
  sv_accept :: accept_pc
  sv_active :: int
  sv_workers :: nat
  sv_stop :: stop_pc

definition server_init :: server where
  "server_init = \<lparr>sv_running = False, sv_open = False, sv_accept = No_thread,
     sv_active = 0, sv_workers = 0, sv_stop = Idle\<rparr>"

text \<open>\<open>start()\<close>; \<open>bound\<close> says whether the address could be parsed and bound.\<close>

definition server_start :: "bool \<Rightarrow> server \<Rightarrow> server" where
  "server_start bound s =
     (if sv_running s then s
      else if \<not> bound then s
      else s\<lparr>sv_running := True, sv_open := True, sv_accept := Checking\<rparr>)"

text \<open>What \<open>accept\<close> reports: a connection, nothing yet, or an error.\<close>

datatype accept_result = Accepted | Would_block | Failed

definition accept_check :: "server \<Rightarrow> server" where
  "accept_check s = s\<lparr>sv_accept := (if sv_running s then Accepting else Exited)\<rparr>"

definition accept_once :: "accept_result \<Rightarrow> server \<Rightarrow> server" where
  "accept_once res s =
     (if res = Accepted
      then s\<lparr>sv_accept := Checking, sv_active := sv_active s + 1, sv_workers := sv_workers s + 1\<rparr>
      else s\<lparr>sv_accept := Checking\<rparr>)"

definition worker_done :: "server \<Rightarrow> server" where
  "worker_done s = s\<lparr>sv_active := sv_active s - 1, sv_workers := sv_workers s - 1\<rparr>"

definition stop_begin :: "server \<Rightarrow> server" where
  "stop_begin s = (if sv_running s then s\<lparr>sv_running := False, sv_stop := Closing\<rparr> else s)"

definition stop_close :: "server \<Rightarrow> server" where
  "stop_close s = s\<lparr>sv_open := False, sv_stop := Joining\<rparr>"

text \<open>One round of the draining loop: at most 600 polls of 50 ms.\<close>

definition stop_poll :: "nat \<Rightarrow> server \<Rightarrow> server" where
  "stop_poll i s =
     (if i < 600 \<and> 0 < sv_active s then s\<lparr>sv_stop := Draining (i + 1)\<rparr> else s\<lparr>sv_stop := Idle\<rparr>)"

inductive server_step :: "server \<Rightarrow> server \<Rightarrow> bool" where
  start: "sv_stop s = Idle \<Longrightarrow> server_step s (server_start bound s)"
| check: "sv_accept s = Checking \<Longrightarrow> server_step s (accept_check s)"
| accept: "sv_accept s = Accepting \<Longrightarrow> res = Accepted \<Longrightarrow> sv_open s \<Longrightarrow> server_step s (accept_once res s)"
| accept_none: "sv_accept s = Accepting \<Longrightarrow> res \<noteq> Accepted \<Longrightarrow> server_step s (accept_once res s)"
| worker: "0 < sv_workers s \<Longrightarrow> server_step s (worker_done s)"
| stop: "sv_stop s = Idle \<Longrightarrow> server_step s (stop_begin s)"
| close: "sv_stop s = Closing \<Longrightarrow> server_step s (stop_close s)"
| join: "sv_stop s = Joining \<Longrightarrow> sv_accept s = Exited \<Longrightarrow>
    server_step s (s\<lparr>sv_accept := No_thread, sv_stop := Draining 0\<rparr>)"
| poll: "sv_stop s = Draining i \<Longrightarrow> server_step s (stop_poll i s)"

inductive server_reach :: "server \<Rightarrow> bool" where
  init: "server_reach server_init"
| step: "server_reach s \<Longrightarrow> server_step s s' \<Longrightarrow> server_reach s'"

lemmas server_defs = server_start_def accept_check_def accept_once_def worker_done_def stop_begin_def
  stop_close_def stop_poll_def

definition server_inv :: "server \<Rightarrow> bool" where
  "server_inv s \<longleftrightarrow>
     sv_active s = int (sv_workers s) \<and>
     (sv_running s \<longrightarrow> sv_open s \<and> sv_stop s = Idle \<and> sv_accept s \<in> {Checking, Accepting}) \<and>
     (\<forall>i. sv_stop s = Draining i \<longrightarrow> i \<le> 600) \<and>
     (sv_stop s = Idle \<and> \<not> sv_running s \<longrightarrow> sv_accept s = No_thread \<and> \<not> sv_open s) \<and>
     (\<forall>i. sv_stop s = Draining i \<longrightarrow> sv_accept s = No_thread \<and> \<not> sv_open s) \<and>
     (sv_stop s = Joining \<longrightarrow> \<not> sv_open s)"

lemma server_inv_init: "server_inv server_init"
  by (simp add: server_inv_def server_init_def)

lemma server_inv_step [reame_inv]:
  assumes "server_step s s'" "server_inv s"
  shows "server_inv s'"
  using assms
  by (cases rule: server_step.cases) (auto simp: server_inv_def server_defs)

lemma server_reach_inv: "server_reach s \<Longrightarrow> server_inv s"
  by (induction rule: server_reach.induct) (auto simp: server_inv_init intro: server_inv_step)

text \<open>
  C33. Stopping the server: in every interleaving, \<open>active_connections\<close> is the number of live workers;
  once \<open>stop()\<close> has joined the accept thread no step accepts a connection any more, and when its
  draining loop ends before the 600th poll, no connection worker is left.
\<close>

theorem server_stop_drains:
  assumes "server_reach s" and "sv_stop s = Draining i" and "server_step s s'"
  shows "sv_workers s' \<le> sv_workers s \<and>
    (sv_stop s' = Idle \<longrightarrow> i = 600 \<or> sv_workers s' = 0 \<and> sv_active s' = 0) \<and>
    \<not> sv_open s' \<and> \<not> sv_running s'"
proof -
  have inv: "server_inv s" using assms(1) by (rule server_reach_inv)
  with assms(2) have "sv_active s = int (sv_workers s)" "sv_accept s = No_thread" "\<not> sv_open s"
      "\<not> sv_running s" "i \<le> 600"
    by (auto simp: server_inv_def)
  with assms(3,2) show ?thesis
    by (cases rule: server_step.cases) (auto simp: server_defs)
qed

definition draining_server :: server where
  "draining_server = \<lparr>sv_running = False, sv_open = False, sv_accept = No_thread,
     sv_active = 0, sv_workers = 0, sv_stop = Draining 0\<rparr>"

lemma draining_server_reach: "server_reach draining_server"
proof -
  have "server_reach (server_start True server_init)"
    by (rule server_reach.step [OF server_reach.init server_step.start]) (simp add: server_init_def)
  then have "server_reach (stop_begin (server_start True server_init))"
    by (rule server_reach.step [OF _ server_step.stop]) (simp add: server_init_def server_defs)
  then have "server_reach (stop_close (stop_begin (server_start True server_init)))"
    by (rule server_reach.step [OF _ server_step.close]) (simp add: server_init_def server_defs)
  then have "server_reach (accept_check (stop_close (stop_begin (server_start True server_init))))"
    by (rule server_reach.step [OF _ server_step.check]) (simp add: server_init_def server_defs)
  then have "server_reach ((accept_check (stop_close (stop_begin (server_start True server_init))))
      \<lparr>sv_accept := No_thread, sv_stop := Draining 0\<rparr>)"
    by (rule server_reach.step [OF _ server_step.join]) (simp_all add: server_init_def server_defs)
  then show ?thesis by (simp add: draining_server_def server_init_def server_defs)
qed

theorem server_stop_drains_witness:
  "sv_workers (stop_poll 0 draining_server) = 0 \<and> \<not> sv_open (stop_poll 0 draining_server)"
  using server_stop_drains [OF draining_server_reach _ server_step.poll [of draining_server 0], of 0]
  by (simp add: draining_server_def)

end
