(* ===== verification/Escalation.thy ===== *)
theory Escalation
  imports Http
begin

text \<open>
  The escalation lane (\<open>server/escalation.cpp\<close>): the decision to retry a refused answer on a deeper
  endpoint, the URL it goes to, and the minimal HTTP client that asks there.

  \<open>std::regex\<close> is the argument \<open>regex_search\<close> (\<open>None\<close> is \<open>std::regex_error\<close>); the network is the
  argument \<open>net\<close>: from host, port and the bytes sent it gives everything received until the peer closes
  or the timeout, \<open>None\<close> when resolving, connecting or sending failed.
\<close>

section \<open>The decision\<close>

definition dovrebbe :: "(bytes \<Rightarrow> bytes \<Rightarrow> bool option) \<Rightarrow> bytes \<Rightarrow> bytes \<Rightarrow> bool" where
  "dovrebbe regex_search risposta trigger =
     (if trigger = [] then False
      else if find_first_not_of [CHR '' '', CHR 0x09, CHR 0x0D, CHR 0x0A] risposta = None then True
      else (case regex_search trigger risposta of Some b \<Rightarrow> b | None \<Rightarrow> False))"

section \<open>The URL\<close>

record Url =
  url_host :: bytes
  url_port :: int
  url_path :: bytes
  url_valida :: bool

definition http_schema :: bytes where
  "http_schema = ''http://''"

text \<open>\<open>std::stoi\<close> throws when the port does not fit an \<open>int\<close>.\<close>

definition analizza :: "bytes \<Rightarrow> num_error + Url" where
  "analizza endpoint =
     (let u = \<lparr>url_host = [], url_port = 80, url_path = ''/'', url_valida = False\<rparr>
      in if take 7 endpoint \<noteq> http_schema then Inr u
         else let resto = drop 7 endpoint
         in if resto = [] then Inr u
         else let slash = str_find_char resto CHR ''/'' 0;
                  autorita = (case slash of None \<Rightarrow> resto | Some i \<Rightarrow> take i resto);
                  u1 = u\<lparr>url_path := (case slash of None \<Rightarrow> ''/'' | Some i \<Rightarrow> drop i resto)\<rparr>;
                  ok = (\<lambda>u. if url_host u = [] then u else u\<lparr>url_valida := True\<rparr>)
              in case str_find_char autorita CHR '':'' 0 of
                   None \<Rightarrow> Inr (ok (u1\<lparr>url_host := autorita\<rparr>))
                 | Some due_punti \<Rightarrow>
                     let u2 = u1\<lparr>url_host := take due_punti autorita\<rparr>;
                         porta = drop (due_punti + 1) autorita
                     in if porta = [] \<or> find_first_not_of ''0123456789'' porta \<noteq> None then Inr u2
                        else map_sum id (\<lambda>p. ok (u2\<lparr>url_port := p\<rparr>)) (std_stoi porta))"

section \<open>The client\<close>

definition richiesta :: "Url \<Rightarrow> bytes \<Rightarrow> bytes" where
  "richiesta u body =
     ''POST '' @ url_path u @ '' HTTP/1.1'' @ crlf @
     ''Host: '' @ url_host u @ crlf @
     ''Content-Type: application/json'' @ crlf @
     ''Content-Length: '' @ string_of_nat (length body) @ crlf @
     ''Connection: close'' @ crlf @ crlf @
     body"

text \<open>\<open>strtoul(s, nullptr, 16)\<close>.\<close>

definition hex_value :: "char \<Rightarrow> nat option" where
  "hex_value c =
     (let n = of_char c :: int
      in if 48 \<le> n \<and> n \<le> 57 then Some (nat (n - 48))
         else if 97 \<le> n \<and> n \<le> 102 then Some (nat (n - 87))
         else if 65 \<le> n \<and> n \<le> 70 then Some (nat (n - 55))
         else None)"

definition nat_of_hex :: "bytes \<Rightarrow> nat" where
  "nat_of_hex s = foldl (\<lambda>a c. a * 16 + the (hex_value c)) 0 s"

definition strtoul16 :: "bytes \<Rightarrow> nat" where
  "strtoul16 s =
     (let t = dropWhile isspace s;
          neg = (t \<noteq> [] \<and> hd t = CHR ''-'');
          u = (if t \<noteq> [] \<and> (hd t = CHR ''-'' \<or> hd t = CHR ''+'') then tl t else t);
          w = (case u of
                 c0 # x # h # rest \<Rightarrow>
                   if c0 = CHR ''0'' \<and> (x = CHR ''x'' \<or> x = CHR ''X'') \<and> hex_value h \<noteq> None
                   then h # rest else u
               | _ \<Rightarrow> u);
          v = nat_of_hex (takeWhile (\<lambda>c. hex_value c \<noteq> None) w)
      in if 18446744073709551615 < int v then nat 18446744073709551615
         else if neg \<and> 0 < v then nat (18446744073709551616 - int v)
         else v)"

text \<open>
  The decoding loop of a chunked body. \<open>pos\<close> is a \<open>std::size_t\<close>: the sum that advances it wraps
  around. The first argument bounds the number of rounds; \<open>None\<close> means the loop is still running.
\<close>

fun dechunk :: "nat \<Rightarrow> bytes \<Rightarrow> nat \<Rightarrow> bytes \<Rightarrow> bytes option" where
  "dechunk 0 corpo pos piano = None"
| "dechunk (Suc fuel) corpo pos piano =
     (if pos < length corpo then
        (case str_find corpo crlf pos of
           None \<Rightarrow> Some piano
         | Some riga \<Rightarrow>
             let lunghezza = strtoul16 (substr corpo pos (riga - pos))
             in if lunghezza = 0 then Some piano
                else dechunk fuel corpo
                       (nat ((int riga + 2 + int lunghezza + 2) mod 18446744073709551616))
                       (piano @ substr corpo (riga + 2) lunghezza))
      else Some piano)"

datatype http_reply = No_reply | Reply bytes | Still_decoding

definition read_http_reply :: "nat \<Rightarrow> bytes \<Rightarrow> http_reply" where
  "read_http_reply fuel risposta =
     (case str_find risposta (crlf @ crlf) 0 of
        None \<Rightarrow> No_reply
      | Some fine_testa \<Rightarrow>
          if take 12 risposta \<noteq> ''HTTP/1.1 200'' \<and> take 12 risposta \<noteq> ''HTTP/1.0 200'' then No_reply
          else let corpo = drop (fine_testa + 4) risposta
               in if str_find (take fine_testa risposta) ''chunked'' 0 \<noteq> None
                  then (case dechunk fuel corpo 0 [] of None \<Rightarrow> Still_decoding | Some piano \<Rightarrow> Reply piano)
                  else Reply corpo)"

type_synonym network = "bytes \<Rightarrow> int \<Rightarrow> bytes \<Rightarrow> bytes option"

definition http_post :: "network \<Rightarrow> nat \<Rightarrow> Url \<Rightarrow> bytes \<Rightarrow> http_reply" where
  "http_post net fuel u body =
     (case net (url_host u) (url_port u) (richiesta u body) of
        None \<Rightarrow> No_reply
      | Some risposta \<Rightarrow> read_http_reply fuel risposta)"

definition escalation_client :: "network \<Rightarrow> nat \<Rightarrow> bytes \<Rightarrow> bytes \<Rightarrow> num_error + http_reply" where
  "escalation_client net fuel endpoint body =
     map_sum id (\<lambda>u. if url_valida u then http_post net fuel u body else No_reply) (analizza endpoint)"

section \<open>Decoding chunked bodies\<close>

fun string_of_hex :: "nat \<Rightarrow> bytes" where
  "string_of_hex n =
     (let d = (\<lambda>k. if k < 10 then char_of (48 + k) else char_of (87 + k :: nat))
      in if n < 16 then [d n] else string_of_hex (n div 16) @ [d (n mod 16)])"

declare string_of_hex.simps [simp del]

definition print_chunk :: "bytes \<Rightarrow> bytes" where
  "print_chunk c = string_of_hex (length c) @ crlf @ c @ crlf"

definition print_chunks :: "bytes list \<Rightarrow> bytes" where
  "print_chunks cs = concat (map print_chunk cs) @ ''0'' @ crlf @ crlf"

lemma hex_digit_char: "k < 10 \<Longrightarrow> hex_value (char_of (48 + k)) = Some k"
  "k < 16 \<Longrightarrow> \<not> k < 10 \<Longrightarrow> hex_value (char_of (87 + k :: nat)) = Some k"
  unfolding hex_value_def of_char_int by (auto simp: Let_def)

lemma hex_digits_print: "list_all (\<lambda>c. hex_value c \<noteq> None) (string_of_hex n) \<and> nat_of_hex (string_of_hex n) = n"
proof (induction n rule: string_of_hex.induct)
  case (1 n)
  have d: "hex_value (if k < 10 then char_of (48 + k) else char_of (87 + k :: nat)) = Some k" if "k < 16" for k
    using that hex_digit_char by simp
  show ?case
  proof (cases "n < 16")
    case True
    then show ?thesis using d [of n] by (simp add: string_of_hex.simps [of n] nat_of_hex_def)
  next
    case False
    with 1 have IH: "list_all (\<lambda>c. hex_value c \<noteq> None) (string_of_hex (n div 16))"
        "nat_of_hex (string_of_hex (n div 16)) = n div 16" by simp_all
    have "string_of_hex n = string_of_hex (n div 16) @
        [if n mod 16 < 10 then char_of (48 + n mod 16) else char_of (87 + n mod 16)]"
      using False by (simp add: string_of_hex.simps [of n])
    then show ?thesis using IH d [of "n mod 16"] by (simp add: nat_of_hex_def)
  qed
qed

lemma strtoul16_digits:
  assumes "list_all (\<lambda>c. hex_value c \<noteq> None) ds" "ds \<noteq> []" "nat_of_hex ds \<le> ULLONG_MAX"
  shows "strtoul16 ds = nat_of_hex ds"
proof -
  obtain c cs where ds: "ds = c # cs" using assms(2) by (cases ds) auto
  have no: "hex_value CHR ''-'' = None" "hex_value CHR ''+'' = None" "hex_value CHR ''x'' = None" "hex_value CHR ''X'' = None"
    by code_simp+
  have sp: "\<not> isspace c" if "hex_value c \<noteq> None" for c
    using that unfolding hex_value_def of_char_int isspace_def Let_def by (auto split: if_splits)
  have c: "c \<noteq> CHR ''-''" "c \<noteq> CHR ''+''" "\<not> isspace c" using assms(1) ds no sp by auto
  have tw: "takeWhile (\<lambda>c. hex_value c \<noteq> None) ds = ds"
    using assms(1) by (auto simp: list_all_iff)
  have px: "(case ds of
        c0 # x # h # rest \<Rightarrow>
          if c0 = CHR ''0'' \<and> (x = CHR ''x'' \<or> x = CHR ''X'') \<and> hex_value h \<noteq> None then h # rest else ds
      | _ \<Rightarrow> ds) = ds"
    using assms(1) no by (auto split: list.splits)
  have dw: "dropWhile isspace ds = ds" using c ds by simp
  have le: "\<not> 18446744073709551615 < int (nat_of_hex ds)" using assms(3) by linarith
  have hd: "hd ds \<noteq> CHR ''-''" "hd ds \<noteq> CHR ''+''" using c ds by simp_all
  show ?thesis
    unfolding strtoul16_def Let_def dw using hd le by (simp only: px tw simp_thms if_False)
qed

lemma string_of_hex_nonempty [simp]: "string_of_hex n \<noteq> []"
  by (simp add: string_of_hex.simps [of n] Let_def)

lemma strtoul16_print: "n \<le> ULLONG_MAX \<Longrightarrow> strtoul16 (string_of_hex n) = n"
  using hex_digits_print [of n] by (simp add: strtoul16_digits)

lemma no_CR_hex: "CHR 0x0D \<notin> set (string_of_hex n)"
proof -
  have "hex_value CHR 0x0D = None" by code_simp
  then show ?thesis using hex_digits_print [of n] by (auto simp: list_all_iff)
qed

lemma find_line_at:
  "CHR 0x0D \<notin> set l \<Longrightarrow> str_find (pre @ l @ crlf @ t) crlf (length pre) = Some (length pre + length l)"
  using find_crlf [of l t] by (simp add: str_find_def)

lemma dechunk_chunks:
  "\<forall>c \<in> set cs. c \<noteq> [] \<Longrightarrow> length (pre @ print_chunks cs) \<le> ULLONG_MAX \<Longrightarrow> length cs < fuel \<Longrightarrow>
    dechunk fuel (pre @ print_chunks cs) (length pre) piano = Some (piano @ concat cs)"
proof (induction cs arbitrary: pre piano fuel)
  case Nil
  then obtain f where f: "fuel = Suc f" by (cases fuel) auto
  have zero: "strtoul16 ''0'' = 0" by code_simp
  have "str_find (pre @ print_chunks []) crlf (length pre) = Some (length pre + 1)"
    using find_line_at [of "''0''" pre crlf] by (simp add: print_chunks_def)
  moreover have "substr (pre @ print_chunks []) (length pre) 1 = ''0''"
    by (simp add: print_chunks_def substr_def)
  ultimately show ?case using zero by (simp add: f print_chunks_def)
next
  case (Cons c cs)
  then obtain f where f: "fuel = Suc f" "length cs < f" by (cases fuel) auto
  let ?h = "string_of_hex (length c)" and ?corpo = "pre @ print_chunks (c # cs)"
  have corpo: "?corpo = pre @ ?h @ crlf @ c @ crlf @ print_chunks cs"
    by (simp add: print_chunks_def print_chunk_def)
  have small: "length ?corpo \<le> ULLONG_MAX" using Cons.prems(2) .
  then have len: "strtoul16 ?h = length c" by (intro strtoul16_print) (simp add: corpo)
  have find: "str_find ?corpo crlf (length pre) = Some (length pre + length ?h)"
    unfolding corpo by (rule find_line_at) (rule no_CR_hex)
  have sub: "substr ?corpo (length pre) (length ?h) = ?h"
    "substr ?corpo (length pre + length ?h + 2) (length c) = c"
    by (simp_all add: corpo substr_def)
  have pos: "nat ((int (length pre + length ?h) + 2 + int (length c) + 2) mod 18446744073709551616) =
      length (pre @ ?h @ crlf @ c @ crlf)"
    using small by (simp add: corpo)
  have IH: "dechunk f ((pre @ ?h @ crlf @ c @ crlf) @ print_chunks cs) (length (pre @ ?h @ crlf @ c @ crlf)) (piano @ c) =
      Some ((piano @ c) @ concat cs)"
    using Cons.prems f small by (intro Cons.IH) (simp_all add: corpo)
  have "length pre < length ?corpo" by (simp add: corpo)
  moreover have "length c \<noteq> 0" using Cons.prems(1) by simp
  ultimately show ?case
    unfolding f dechunk.simps find option.case Let_def add_diff_cancel_left' sub len pos
    using IH by (simp add: corpo)
qed

text \<open>The loop ends when the announced sizes cannot make the position wrap around.\<close>

lemma dechunk_ends:
  assumes small: "\<And>p n. strtoul16 (substr corpo p n) < 2 ^ 63" and "length corpo < 2 ^ 62"
  shows "length corpo - pos < fuel \<Longrightarrow> \<exists>r. dechunk fuel corpo pos piano = Some r"
proof (induction fuel arbitrary: pos piano)
  case (Suc fuel)
  show ?case
  proof (cases "str_find corpo crlf pos")
    case (Some riga)
    let ?n = "strtoul16 (substr corpo pos (riga - pos))"
    from str_find_Some [OF Some] have riga: "pos \<le> riga" "riga + 2 \<le> length corpo" by simp_all
    have "nat ((int riga + 2 + int ?n + 2) mod 18446744073709551616) = riga + 2 + ?n + 2"
      using small [of pos "riga - pos"] riga(2) assms(2) by simp
    note step = dechunk.simps(2) [of fuel corpo pos piano, unfolded Some option.case Let_def this]
    have "\<exists>r. dechunk fuel corpo (riga + 2 + ?n + 2) (piano @ substr corpo (riga + 2) ?n) = Some r"
      if "pos < length corpo"
      using that riga Suc.prems by (intro Suc.IH) linarith
    then show ?thesis unfolding step by auto
  qed simp
qed simp

text \<open>
  A chunked body is decoded exactly, and in as many rounds as it has chunks plus one.
\<close>

theorem chunked_roundtrip:
  assumes "\<forall>c \<in> set cs. c \<noteq> []" and "length (print_chunks cs) \<le> ULLONG_MAX"
  shows "dechunk (length cs + 1) (print_chunks cs) 0 [] = Some (concat cs)"
  using dechunk_chunks [of cs "[]" "length cs + 1" "[]"] assms by simp

theorem chunked_roundtrip_witness:
  "dechunk 3 (print_chunks [''{}'', ''ok'']) 0 [] = Some ''{}ok''"
proof -
  have "string_of_hex 2 = ''2''" by code_simp
  then have "length (print_chunks [''{}'', ''ok'']) \<le> ULLONG_MAX"
    by (simp add: print_chunks_def print_chunk_def numeral_2_eq_2)
  then show ?thesis using chunked_roundtrip [of "[''{}'', ''ok'']"] by (simp add: numeral_3_eq_3)
qed

definition endless_chunk :: bytes where
  "endless_chunk = ''ffffffffffffffec'' @ crlf @ ''x''"

text \<open>
  C35. A peer can keep the decoding loop running for ever: the announced size is added to the position
  without a check, so a size close to \<open>2^64\<close> moves the position back to the start of the same chunk,
  and the answer is appended again in every round.
\<close>

theorem chunked_decoding_can_hang:
  "dechunk fuel endless_chunk 0 piano = None"
proof -
  have find: "str_find endless_chunk crlf 0 = Some 16" "0 < length endless_chunk" by code_simp+
  have hex: "hex_value CHR ''f'' = Some 15" "hex_value CHR ''e'' = Some 14" "hex_value CHR ''c'' = Some 12"
    by code_simp+
  then have n: "nat_of_hex ''ffffffffffffffec'' = 18446744073709551596" by (simp add: nat_of_hex_def)
  have "substr endless_chunk 0 (16 - 0) = ''ffffffffffffffec''" by (simp add: endless_chunk_def substr_def)
  then have len: "strtoul16 (substr endless_chunk 0 (16 - 0)) = 18446744073709551596"
    using strtoul16_digits [of "''ffffffffffffffec''"] n hex by simp
  show ?thesis
  proof (induction fuel arbitrary: piano)
    case (Suc fuel)
    have pos: "nat ((int 16 + 2 + int 18446744073709551596 + 2) mod 18446744073709551616) = 0" by simp
    show ?case
      unfolding dechunk.simps find(1) option.case Let_def len pos using find(2) Suc.IH by simp
  qed simp
qed

section \<open>URLs\<close>

lemma digits_only: "find_first_not_of ''0123456789'' ds = None \<longleftrightarrow> list_all isdigit ds"
proof -
  have "c \<in> set ''0123456789'' \<longleftrightarrow> isdigit c" for c
  proof
    assume "isdigit c"
    then have "48 \<le> (of_char c :: nat)" "(of_char c :: nat) \<le> 57" by (simp_all add: isdigit_def)
    then have "(of_char c :: nat) \<in> {48, 49, 50, 51, 52, 53, 54, 55, 56, 57}"
      unfolding insert_iff empty_iff by arith
    moreover have "(of_char ` set ''0123456789'' :: nat set) = {48, 49, 50, 51, 52, 53, 54, 55, 56, 57}" by simp
    ultimately have "(of_char c :: nat) \<in> of_char ` set ''0123456789''" by (simp only:)
    then show "c \<in> set ''0123456789''" by (metis imageE of_char_inject_nat)
  qed (auto simp: isdigit_def)
  then have "dropWhile (\<lambda>c. c \<in> set ''0123456789'') ds = dropWhile isdigit ds" by metis
  then show ?thesis unfolding find_first_not_of_dropWhile Let_def by (auto simp: list_all_iff)
qed

definition host_ok :: "bytes \<Rightarrow> bool" where
  "host_ok host \<longleftrightarrow> host \<noteq> [] \<and> CHR ''/'' \<notin> set host \<and> CHR '':'' \<notin> set host"

lemma analizza_port:
  assumes host: "host_ok host" and path: "path \<noteq> []" "hd path = CHR ''/''"
  shows "analizza (http_schema @ host @ '':'' @ string_of_nat port @ path) =
    map_sum id (\<lambda>p. \<lparr>url_host = host, url_port = p, url_path = path, url_valida = True\<rparr>)
      (std_stoi (string_of_nat port))"
proof -
  let ?aut = "host @ '':'' @ string_of_nat port"
  obtain ps where ps: "path = CHR ''/'' # ps" using path by (cases path) auto
  have "CHR ''/'' \<notin> set ?aut"
    using host by (auto simp: host_ok_def isdigit_def dest!: isdigit_string_of_nat)
  then have slash: "str_find_char (?aut @ path) CHR ''/'' 0 = Some (length ?aut)"
    unfolding ps by (rule str_find_char_notin)
  have colon: "str_find_char ?aut CHR '':'' 0 = Some (length host)"
    using str_find_char_notin [of "CHR '':''" host "string_of_nat port"] host
    by (simp add: host_ok_def del: str_find_char_0)
  have digits: "find_first_not_of ''0123456789'' (string_of_nat port) = None"
    using string_of_nat_digits by (simp only: digits_only)
  have assoc: "http_schema @ host @ '':'' @ string_of_nat port @ path = http_schema @ ?aut @ path" by simp
  have seven: "take 7 (http_schema @ x) = http_schema" "drop 7 (http_schema @ x) = x" for x
    by (simp_all add: http_schema_def)
  have tk: "take (length ?aut) (?aut @ path) = ?aut" "drop (length ?aut) (?aut @ path) = path"
    "take (length host) ?aut = host" "drop (length host + 1) ?aut = string_of_nat port"
    by simp_all
  have ne: "?aut @ path \<noteq> []" "host \<noteq> []" using host by (simp_all add: host_ok_def)
  show ?thesis
    unfolding assoc analizza_def Let_def seven slash option.case tk colon digits
    using ne by simp
qed

text \<open>
  Parsing an endpoint \<open>http://host:port/path\<close> gives back host, port and path, and a port that does
  not fit an \<open>int\<close> is not an invalid URL but an exception.
\<close>

theorem endpoint_roundtrip:
  assumes "host_ok host" and "path \<noteq> []" "hd path = CHR ''/''"
  shows "analizza (http_schema @ host @ '':'' @ string_of_nat port @ path) =
    (if int port \<le> INT_MAX
     then Inr \<lparr>url_host = host, url_port = int port, url_path = path, url_valida = True\<rparr>
     else Inl Out_of_range)"
proof -
  have "std_stoi (string_of_nat port) = (if int port \<le> INT_MAX then Inr (int port) else Inl Out_of_range)"
    by (rule std_stoi_string_of_nat)
  then show ?thesis using analizza_port [OF assms] by simp
qed

theorem endpoint_roundtrip_witness:
  "analizza (http_schema @ ''deep'' @ '':'' @ string_of_nat 8080 @ ''/v1'') =
    Inr \<lparr>url_host = ''deep'', url_port = 8080, url_path = ''/v1'', url_valida = True\<rparr>"
  using endpoint_roundtrip [of "''deep''" "''/v1''" 8080] by (simp add: host_ok_def)

section \<open>Asking another server\<close>

definition ask_headers :: "Url \<Rightarrow> bytes \<Rightarrow> HeaderMap" where
  "ask_headers u body =
     [(''Host'', url_host u), (''Content-Type'', ''application/json''),
      (''Content-Length'', string_of_nat (length body)), (''Connection'', ''close'')]"

lemma richiesta_request: "richiesta u body = print_http_request ''POST'' (url_path u) (ask_headers u body) body"
  by (simp add: richiesta_def print_http_request_def request_line_def print_headers_def print_header_def
      ask_headers_def)

lemma ask_length: "map_find ci_less ''Content-Length'' (assign_all ci_less (ask_headers u body) []) =
    Some (string_of_nat (length body))"
  by (simp add: assign_all_def ask_headers_def ci_eval)

definition url_ok :: "Url \<Rightarrow> bool" where
  "url_ok u \<longleftrightarrow> line_ok ''POST'' (url_path u) \<and> CHR 0x0D \<notin> set (url_host u) \<and> trim (url_host u) = url_host u"

lemma ask_message_ok:
  assumes "url_ok u" "length body \<le> ULLONG_MAX"
  shows "message_ok ''POST'' (url_path u) (ask_headers u body) body"
proof -
  have digits: "CHR 0x0D \<notin> set (string_of_nat n)" "trim (string_of_nat n) = string_of_nat n" for n
  proof -
    show "CHR 0x0D \<notin> set (string_of_nat n)" by (rule not_digit_not_in_string_of_nat) simp
    have "hd (string_of_nat n) \<in> set (string_of_nat n)" "last (string_of_nat n) \<in> set (string_of_nat n)" by simp_all
    then have "isdigit (hd (string_of_nat n))" "isdigit (last (string_of_nat n))" by (blast intro: isdigit_string_of_nat)+
    then show "trim (string_of_nat n) = string_of_nat n"
      unfolding trim_def by (intro trim_set_id) (auto simp: isdigit_def)
  qed
  have "list_all header_ok (ask_headers u body)"
    using assms(1) digits by (simp add: ask_headers_def header_ok_def url_ok_def trim_def trim_set_dropWhile)
  moreover have "distinct (map (ci_key \<circ> fst) (ask_headers u body))"
    by (simp add: ask_headers_def ci_key_eq)
  ultimately show ?thesis
    using assms ask_length by (simp add: message_ok_def body_ok_def url_ok_def)
qed

text \<open>The lines of a response up to its blank line.\<close>

definition response_lines :: "HttpResponse \<Rightarrow> bytes list" where
  "response_lines response =
     (''HTTP/1.1 '' @ string_of_int (hr_status response) @ '' '' @ status_reason (hr_status response)) #
     map print_header (hr_headers response) @
     (if map_find ci_less ''Content-Length'' (hr_headers response) = None
      then [''Content-Length: '' @ string_of_nat (length (hr_body response))] else [])"

lemma serialize_lines:
  "serialize_http_response response = http_lines (response_lines response) @ crlf @ hr_body response"
  by (simp add: serialize_http_response_def response_lines_def print_headers_lines http_lines_def)

lemma plain_response_lines:
  assumes "hr_status response = 200" "list_all header_ok (hr_headers response)" "l \<in> set (response_lines response)"
  shows "plain_line l"
proof -
  have "string_of_int 200 = ''200''" by code_simp
  then have "plain_line (''HTTP/1.1 '' @ string_of_int 200 @ '' '' @ status_reason 200)"
    by (simp add: plain_line_def status_reason_def)
  moreover have "CHR 0x0D \<notin> set (string_of_nat n)" for n by (rule not_digit_not_in_string_of_nat) simp
  ultimately show ?thesis
    using assms by (auto simp: response_lines_def plain_line_def list_all_iff split: if_splits
        dest!: plain_print_header [unfolded plain_line_def])
qed

definition announces_chunked :: "HttpResponse \<Rightarrow> bool" where
  "announces_chunked response \<longleftrightarrow>
     str_find (take (length (http_lines (response_lines response)) - 2) (http_lines (response_lines response)))
       ''chunked'' 0 \<noteq> None"

lemma read_plain_reply:
  assumes st: "hr_status response = 200" and hs: "list_all header_ok (hr_headers response)"
    and ch: "\<not> announces_chunked response"
  shows "read_http_reply fuel (serialize_http_response response) = Reply (hr_body response)"
proof -
  let ?ls = "response_lines response"
  have ne: "?ls \<noteq> []" by (simp add: response_lines_def)
  have two: "2 \<le> length (http_lines ?ls)" by (simp add: response_lines_def)
  have find: "str_find (serialize_http_response response) (crlf @ crlf) 0 = Some (length (http_lines ?ls) - 2)"
    unfolding str_find_0 serialize_lines using plain_response_lines [OF st hs] ne by (intro find_blank) auto
  have ok: "take 12 (serialize_http_response response) = ''HTTP/1.1 200''"
  proof -
    have "string_of_int 200 = ''200''" by code_simp
    then show ?thesis by (simp add: serialize_http_response_def st)
  qed
  have body: "drop (length (http_lines ?ls) - 2 + 4) (serialize_http_response response) = hr_body response"
    using two by (simp add: serialize_lines)
  have head: "take (length (http_lines ?ls) - 2) (serialize_http_response response) =
      take (length (http_lines ?ls) - 2) (http_lines ?ls)"
    by (simp add: serialize_lines)
  show ?thesis
    unfolding read_http_reply_def find option.case ok Let_def body head
    using ch by (simp add: announces_chunked_def)
qed

text \<open>
  Two servers in a relay: when the deeper endpoint is another server of this program whose handler
  answers 200 with a body, the escalation client that posts a request there gets exactly that body,
  and the handler has seen exactly the posted body.
\<close>

theorem escalation_relay:
  assumes u: "url_ok u" and body: "length body \<le> ULLONG_MAX" "length body \<le> max_bytes mb"
    and size: "head_size ''POST'' (url_path u) (ask_headers u body) \<le> 65536"
    and handler: "handler \<lparr>hq_method = ''POST'', hq_target = url_path u,
      hq_headers = assign_all ci_less (ask_headers u body) [], hq_body = body\<rparr> s
      = ([Begin 200 headers, Chunk answer, End], False, s1)"
    and hs: "list_all header_ok headers" "header_of headers ''Content-Type'' \<noteq> ''text/event-stream''"
    and ch: "\<not> announces_chunked \<lparr>hr_status = 200, hr_headers = headers, hr_body = answer\<rparr>"
    and net: "\<And>dati. net (url_host u) (url_port u) dati = Some (cn_wire (handle_connection mb handler (slices dati) s))"
    and slices: "\<And>dati. concat (slices dati) = dati"
  shows "http_post net fuel u body = Reply answer"
proof -
  have "concat (slices (richiesta u body)) = print_http_request ''POST'' (url_path u) (ask_headers u body) body @ []"
    using slices by (simp add: richiesta_request)
  from connection_reply [where handler = handler and s = s, OF ask_message_ok [OF u body(1)] size body(2) this handler]
  have "cn_wire (handle_connection mb handler (slices (richiesta u body)) s) =
      serialize_http_response \<lparr>hr_status = 200, hr_headers = headers, hr_body = answer\<rparr>"
    using write_plain [OF hs(2)] by simp
  with net show ?thesis
    using read_plain_reply [OF _ _ ch] hs(1) by (simp add: http_post_def)
qed

definition deep_url :: Url where
  "deep_url = \<lparr>url_host = ''deep'', url_port = 8080, url_path = ''/v1'', url_valida = True\<rparr>"

definition deep_net :: network where
  "deep_net host port dati = Some (cn_wire (handle_connection 1 demo_handler [dati] 0))"

theorem escalation_relay_witness: "http_post deep_net 0 deep_url ''{}'' = Reply ''{}''"
proof -
  have "\<not> announces_chunked \<lparr>hr_status = 200, hr_headers = [], hr_body = ''{}''\<rparr>"
    by code_simp
  moreover have "url_ok deep_url"
    by (simp add: url_ok_def deep_url_def line_ok_def trim_def trim_set_dropWhile)
  moreover have "head_size ''POST'' (url_path deep_url) (ask_headers deep_url ''{}'') \<le> 65536"
    by (simp add: head_size_def print_http_request_def request_line_def print_headers_def print_header_def
        ask_headers_def deep_url_def crlf_def string_of_nat_2)
  ultimately show ?thesis
    using escalation_relay [of deep_url "''{}''" 1 demo_handler 0 "[]" "''{}''" 1 deep_net "\<lambda>d. [d]" 0]
    by (simp add: demo_handler_def deep_net_def header_of_def max_bytes_def)
qed

end
