(* ===== verification/Api.thy ===== *)
theory Api
  imports Cli Http_Server Escalation
begin

text \<open>
  The protocol layer (\<open>server/api_handler.cpp\<close>): from an HTTP request to calls on the engine and on the
  response writer.

  The JSON library is the record \<open>json_lib\<close> over an abstract type of documents; an operation that can
  throw returns \<open>Inl\<close> the text of the exception. The escalation client is an argument too, since tests
  and production install different ones. A handler returns the calls it made on the writer, the text of
  the exception that left it, if any, and the state; nothing above the handler catches exceptions.
\<close>

section \<open>The JSON library\<close>

record 'j json_lib =
  js_parse :: "bytes \<Rightarrow> 'j option"
  js_dump :: "'j \<Rightarrow> bytes + bytes"
  js_contains :: "'j \<Rightarrow> bytes \<Rightarrow> bool"
  js_at :: "'j \<Rightarrow> bytes \<Rightarrow> 'j option"
  js_items :: "'j \<Rightarrow> 'j list"
  js_is_array :: "'j \<Rightarrow> bool"
  js_is_string :: "'j \<Rightarrow> bool"
  js_get_string :: "'j \<Rightarrow> bytes option"
  js_value_string :: "'j \<Rightarrow> bytes \<Rightarrow> bytes \<Rightarrow> bytes + bytes"
  js_value_int :: "'j \<Rightarrow> bytes \<Rightarrow> int \<Rightarrow> bytes + int"
  js_value_float :: "'j \<Rightarrow> bytes \<Rightarrow> real \<Rightarrow> bytes + real"
  js_value_bool :: "'j \<Rightarrow> bytes \<Rightarrow> bool \<Rightarrow> bytes + bool"
  js_erase :: "'j \<Rightarrow> bytes \<Rightarrow> 'j"
  js_set :: "'j \<Rightarrow> bytes \<Rightarrow> 'j \<Rightarrow> 'j"
  js_obj :: "(bytes \<times> 'j) list \<Rightarrow> 'j"
  js_arr :: "'j list \<Rightarrow> 'j"
  js_str :: "bytes \<Rightarrow> 'j"
  js_int :: "int \<Rightarrow> 'j"
  js_num :: "real \<Rightarrow> 'j"
  js_bool :: "bool \<Rightarrow> 'j"

section \<open>Configuration and state\<close>

record api_config =
  hc_api_key :: bytes
  hc_enable_cors :: bool
  hc_enable_metrics :: bool
  hc_max_concurrent_requests :: int
  hc_model_id :: bytes
  hc_escalation_endpoint :: bytes
  hc_escalation_trigger :: bytes
  hc_escalation_model_id :: bytes
  hc_escalation_timeout_ms :: int

definition handler_config :: "server_config \<Rightarrow> api_config" where
  "handler_config c =
     \<lparr>hc_api_key = sc_api_key c, hc_enable_cors = sc_enable_cors c, hc_enable_metrics = sc_enable_metrics c,
      hc_max_concurrent_requests = sc_max_concurrent_requests c, hc_model_id = sc_model_id c,
      hc_escalation_endpoint = sc_escalation_endpoint c, hc_escalation_trigger = sc_escalation_trigger c,
      hc_escalation_model_id = sc_escalation_model_id c, hc_escalation_timeout_ms = sc_escalation_timeout_ms c\<rparr>"

type_synonym client = "bytes \<Rightarrow> bytes \<Rightarrow> bytes + bytes option"

text \<open>\<open>ae_times\<close>: the seconds spent in the draft model, in the target model and in all.\<close>

record ('j, 'b, 'd, 'r, 'a) api_env =
  ae_json :: "'j json_lib"
  ae_engine :: "('b, 'd, 'r, 'a) engine_env"
  ae_cfg :: api_config
  ae_regex :: "bytes \<Rightarrow> bytes \<Rightarrow> bool option"
  ae_client :: "client option"
  ae_times :: "real \<times> real \<times> real"

record ('b, 'd, 'r, 'a) api =
  ap_engine :: "('b, 'd, 'r, 'a) engine"
  ap_active :: int
  ap_total :: u64
  ap_errors :: u64

type_synonym 's handled = "writer_call list \<times> bytes option \<times> 's"

definition what :: "engine_exn \<Rightarrow> bytes option" where
  "what x = (case x of
     EngineError m \<Rightarrow> Some m | Engine_model (ModelError m) \<Rightarrow> Some m | Engine_cache m \<Rightarrow> Some m
   | Callback_exn m \<Rightarrow> Some m | Out_of_bounds \<Rightarrow> None)"

section \<open>Helpers\<close>

definition error_json :: "'j json_lib \<Rightarrow> bytes \<Rightarrow> bytes \<Rightarrow> bytes \<Rightarrow> 'j" where
  "error_json J message type code =
     js_obj J [(''error'', js_obj J [(''message'', js_str J message), (''type'', js_str J type), (''code'', js_str J code)])]"

definition base_headers :: "api_config \<Rightarrow> bytes \<Rightarrow> HeaderMap" where
  "base_headers cfg content_type =
     (let h = map_assign ci_less ''Content-Type'' content_type []
      in if hc_enable_cors cfg
         then map_assign ci_less ''Access-Control-Allow-Headers'' ''Content-Type, Authorization''
                (map_assign ci_less ''Access-Control-Allow-Methods'' ''GET, POST, DELETE, OPTIONS''
                  (map_assign ci_less ''Access-Control-Allow-Origin'' ''*'' h))
         else h)"

definition respond :: "('j, 'b, 'd, 'r, 'a) api_env \<Rightarrow> int \<Rightarrow> 'j \<Rightarrow> ('b, 'd, 'r, 'a) api \<Rightarrow> ('b, 'd, 'r, 'a) api handled" where
  "respond A status body s =
     (let s1 = (if 400 \<le> status then s\<lparr>ap_errors := ap_errors s + 1\<rparr> else s);
          start = Begin status (base_headers (ae_cfg A) ''application/json'')
      in case js_dump (ae_json A) body of
           Inr dumped \<Rightarrow> ([start, Chunk dumped, End], None, s1)
         | Inl w \<Rightarrow> ([start], Some w, s1))"

definition respond_error :: "('j, 'b, 'd, 'r, 'a) api_env \<Rightarrow> int \<Rightarrow> bytes \<Rightarrow> bytes \<Rightarrow> bytes \<Rightarrow> ('b, 'd, 'r, 'a) api
    \<Rightarrow> ('b, 'd, 'r, 'a) api handled" where
  "respond_error A status message type code s = respond A status (error_json (ae_json A) message type code) s"

text \<open>
  The constant-time comparison: every byte of what was sent is compared, with the byte of the expected
  text at the same place or, beyond its end, with its first byte; the differences are or-ed in 8 bits.
\<close>

definition auth_diff :: "bytes \<Rightarrow> bytes \<Rightarrow> 8 word" where
  "auth_diff got expected =
     foldl (\<lambda>diff i. diff OR (word_of_nat (of_char (got ! i)) XOR
                             word_of_nat (of_char (expected ! (if i < length expected then i else 0)))))
       (if length got \<noteq> length expected then 1 else 0) [0..<length got]"

definition authorized :: "api_config \<Rightarrow> HttpRequest \<Rightarrow> bool" where
  "authorized cfg r =
     (if hc_api_key cfg = [] then True
      else auth_diff (request_header r ''Authorization'') (''Bearer '' @ hc_api_key cfg) = 0)"

definition gen_config_from :: "'j json_lib \<Rightarrow> 'j \<Rightarrow> bytes + GenerationConfig" where
  "gen_config_from J j =
     bindE (js_value_int J j ''max_tokens'' 512) (\<lambda>max_toks.
     bindE (js_value_float J j ''temperature'' 0.7) (\<lambda>temperature.
     bindE (js_value_float J j ''top_p'' 0.95) (\<lambda>top_p.
     bindE (js_value_float J j ''repeat_penalty'' 1.1) (\<lambda>repeat_penalty.
     bindE (js_value_int J j ''seed'' 42) (\<lambda>seed.
     bindE (js_value_bool J j ''echo'' False) (\<lambda>echo_prompt.
       Inr \<lparr>gc_max_tokens = max_toks, gc_temperature = temperature, gc_top_p = top_p,
            gc_repeat_penalty = repeat_penalty, gc_repeat_last_n = 64, gc_seed = seed,
            gc_echo_prompt = echo_prompt\<rparr>))))))"

section \<open>Generation\<close>

record GenerationOutcome =
  go_text :: bytes
  go_completion_tokens :: nat
  go_prompt_tokens :: nat
  go_hit_max_tokens :: bool

text \<open>\<open>on_piece\<close> sees all pieces so far and can throw; also returned are the pieces delivered.\<close>

definition run_generation :: "('j, 'b, 'd, 'r, 'a) api_env \<Rightarrow> (nat \<Rightarrow> bool) \<Rightarrow> bytes \<Rightarrow> GenerationConfig
    \<Rightarrow> (bytes list \<Rightarrow> engine_exn + unit) \<Rightarrow> ('b, 'd, 'r, 'a) api
    \<Rightarrow> (engine_exn + GenerationOutcome) \<times> bytes list \<times> ('b, 'd, 'r, 'a) api" where
  "run_generation A disk prompt gen on_piece s =
     (case count_tokens (ae_engine A) prompt of
        Inl x \<Rightarrow> (Inl x, [], s)
      | Inr n \<Rightarrow>
          (case engine_generate_stream (ae_engine A) disk prompt
                  (Some (\<lambda>ps. map_sum id (\<lambda>_. True) (on_piece ps))) gen (ap_engine s) of
             (r, pieces, e1) \<Rightarrow>
               (map_sum id (\<lambda>_. \<lparr>go_text = concat pieces, go_completion_tokens = length pieces, go_prompt_tokens = n,
                                 go_hit_max_tokens = (gc_max_tokens gen \<le> int (length pieces))\<rparr>) r,
                pieces, s\<lparr>ap_engine := e1\<rparr>)))"

datatype prompt_result = Rejected bytes bytes | Thrown bytes | Prompt bytes

fun messages_of :: "'j json_lib \<Rightarrow> 'j list \<Rightarrow> bytes + ChatMessage list" where
  "messages_of J [] = Inr []"
| "messages_of J (m # ms) =
     bindE (js_value_string J m ''role'' ''user'') (\<lambda>role.
     bindE (js_value_string J m ''content'' []) (\<lambda>content.
     bindE (messages_of J ms) (\<lambda>rest. Inr (\<lparr>cm_role = role, cm_content = content\<rparr> # rest))))"

definition has_messages :: "'j json_lib \<Rightarrow> 'j \<Rightarrow> bool" where
  "has_messages J body \<longleftrightarrow>
     js_contains J body ''messages'' \<and>
     (case js_at J body ''messages'' of None \<Rightarrow> False | Some m \<Rightarrow> js_is_array J m \<and> js_items J m \<noteq> [])"

definition has_prompt :: "'j json_lib \<Rightarrow> 'j \<Rightarrow> bytes option" where
  "has_prompt J body =
     (if js_contains J body ''prompt''
      then (case js_at J body ''prompt'' of
              None \<Rightarrow> None | Some p \<Rightarrow> if js_is_string J p then js_get_string J p else None)
      else None)"

definition chat_prompt :: "('j, 'b, 'd, 'r, 'a) api_env \<Rightarrow> 'j \<Rightarrow> prompt_result" where
  "chat_prompt A body =
     (case messages_of (ae_json A) (js_items (ae_json A) (the (js_at (ae_json A) body ''messages''))) of
        Inl w \<Rightarrow> Thrown w
      | Inr messages \<Rightarrow> Prompt (engine_format_chat_messages (ae_engine A) messages))"

definition prompt_of :: "('j, 'b, 'd, 'r, 'a) api_env \<Rightarrow> bool \<Rightarrow> 'j \<Rightarrow> prompt_result" where
  "prompt_of A chat body =
     (if chat
      then (if \<not> has_messages (ae_json A) body
            then Rejected (quoted ''messages'' @ '' must be a non-empty array'') ''invalid_messages''
            else chat_prompt A body)
      else (case has_prompt (ae_json A) body of
              None \<Rightarrow> Rejected (quoted ''prompt'' @ '' (string) is required'') ''missing_prompt''
            | Some p \<Rightarrow> Prompt p))"

definition stream_chunk :: "('j, 'b, 'd, 'r, 'a) api_env \<Rightarrow> bool \<Rightarrow> bytes \<Rightarrow> bytes + bytes" where
  "stream_chunk A chat piece =
     (let J = ae_json A;
          choice = (if chat
                    then js_obj J [(''index'', js_int J 0), (''delta'', js_obj J [(''content'', js_str J piece)])]
                    else js_obj J [(''index'', js_int J 0), (''text'', js_str J piece)]);
          chunk = js_obj J [(''object'', js_str J (if chat then ''chat.completion.chunk'' else ''text_completion.chunk'')),
                            (''model'', js_str J (hc_model_id (ae_cfg A))), (''choices'', js_arr J [choice])]
      in map_sum id (\<lambda>d. ''data: '' @ d @ [newline, newline]) (js_dump J chunk))"

definition done_chunk :: bytes where
  "done_chunk = ''data: [DONE]'' @ [newline, newline]"

definition stream_headers :: "api_config \<Rightarrow> HeaderMap" where
  "stream_headers cfg = map_assign ci_less ''Cache-Control'' ''no-cache'' (base_headers cfg ''text/event-stream'')"

definition stream_generation :: "('j, 'b, 'd, 'r, 'a) api_env \<Rightarrow> (nat \<Rightarrow> bool) \<Rightarrow> bool \<Rightarrow> bytes \<Rightarrow> GenerationConfig
    \<Rightarrow> ('b, 'd, 'r, 'a) api \<Rightarrow> writer_call list \<times> engine_exn option \<times> ('b, 'd, 'r, 'a) api" where
  "stream_generation A disk chat prompt gen s =
     (let on_piece = (\<lambda>ps. map_sum Callback_exn (\<lambda>_. ()) (stream_chunk A chat (last ps)));
          (r, pieces, s1) = run_generation A disk prompt gen on_piece s;
          sent = map Chunk (map projr (takeWhile (\<lambda>c. \<not> isl c) (map (stream_chunk A chat) pieces)))
      in case r of
           Inl x \<Rightarrow> (Begin 200 (stream_headers (ae_cfg A)) # sent, Some x, s1)
         | Inr _ \<Rightarrow> (Begin 200 (stream_headers (ae_cfg A)) # sent @ [Chunk done_chunk, End], None, s1))"

text \<open>
  The two-lane relay: the answer to give and whether it came from the deeper endpoint. \<open>Inl\<close>: what the
  serialisation of the request or the client threw.
\<close>

definition deep_answer :: "'j json_lib \<Rightarrow> bytes \<Rightarrow> bytes option" where
  "deep_answer J profonda =
     Option.bind (js_parse J profonda) (\<lambda>j.
     Option.bind (js_at J j ''choices'') (\<lambda>cs.
     Option.bind (if js_is_array J cs \<and> js_items J cs \<noteq> [] then Some (hd (js_items J cs)) else None) (\<lambda>c.
     Option.bind (js_at J c ''message'') (\<lambda>m.
     Option.bind (js_at J m ''content'') (js_get_string J)))))"

definition inoltro :: "('j, 'b, 'd, 'r, 'a) api_env \<Rightarrow> 'j \<Rightarrow> 'j" where
  "inoltro A body =
     (let J = ae_json A; j = js_erase J body ''stream''
      in if hc_escalation_model_id (ae_cfg A) \<noteq> []
         then js_set J j ''model'' (js_str J (hc_escalation_model_id (ae_cfg A))) else j)"

definition escalate :: "('j, 'b, 'd, 'r, 'a) api_env \<Rightarrow> bool \<Rightarrow> 'j \<Rightarrow> bytes \<Rightarrow> bytes + bytes \<times> bool" where
  "escalate A staffetta body testo =
     (let J = ae_json A; cfg = ae_cfg A
      in case ae_client A of
           None \<Rightarrow> Inr (testo, False)
         | Some ask \<Rightarrow>
             if staffetta \<and> dovrebbe (ae_regex A) testo (hc_escalation_trigger cfg)
             then
                  bindE (js_dump J (inoltro A body)) (\<lambda>dumped.
                  bindE (ask (hc_escalation_endpoint cfg) dumped) (\<lambda>profonda.
                    case profonda of
                      None \<Rightarrow> Inr (testo, False)
                    | Some p \<Rightarrow> (case deep_answer J p of Some t \<Rightarrow> Inr (t, True) | None \<Rightarrow> Inr (testo, False))))
             else Inr (testo, False))"

definition completion_json :: "('j, 'b, 'd, 'r, 'a) api_env \<Rightarrow> bool \<Rightarrow> GenerationOutcome \<Rightarrow> bool \<Rightarrow> bytes \<Rightarrow> bool \<Rightarrow> 'j" where
  "completion_json A chat out staffetta testo scalata =
     (let J = ae_json A;
          fin = js_str J (if go_hit_max_tokens out then ''length'' else ''stop'');
          choice = (if chat
                    then js_obj J [(''index'', js_int J 0),
                                   (''message'', js_obj J [(''role'', js_str J ''assistant''), (''content'', js_str J testo)]),
                                   (''finish_reason'', fin)]
                    else js_obj J [(''index'', js_int J 0), (''text'', js_str J (go_text out)), (''finish_reason'', fin)])
      in js_obj J
           ([(''object'', js_str J (if chat then ''chat.completion'' else ''text_completion'')),
             (''model'', js_str J (hc_model_id (ae_cfg A)))] @
            (if staffetta then [(''escalated'', js_bool J scalata)] else []) @
            [(''choices'', js_arr J [choice]),
             (''usage'', js_obj J [(''prompt_tokens'', js_int J (int (go_prompt_tokens out))),
                                   (''completion_tokens'', js_int J (int (go_completion_tokens out))),
                                   (''total_tokens'', js_int J (int (go_prompt_tokens out + go_completion_tokens out)))])]))"

definition plain_generation :: "('j, 'b, 'd, 'r, 'a) api_env \<Rightarrow> (nat \<Rightarrow> bool) \<Rightarrow> bool \<Rightarrow> 'j \<Rightarrow> bytes \<Rightarrow> GenerationConfig
    \<Rightarrow> ('b, 'd, 'r, 'a) api \<Rightarrow> writer_call list \<times> engine_exn option \<times> ('b, 'd, 'r, 'a) api" where
  "plain_generation A disk chat body prompt gen s =
     (case run_generation A disk prompt gen (\<lambda>_. Inr ()) s of
        (Inl x, _, s1) \<Rightarrow> ([], Some x, s1)
      | (Inr out, _, s1) \<Rightarrow>
          let staffetta = (chat \<and> hc_escalation_endpoint (ae_cfg A) \<noteq> [])
          in case escalate A staffetta body (go_text out) of
               Inl w \<Rightarrow> ([], Some (Callback_exn w), s1)
             | Inr (testo, scalata) \<Rightarrow>
                 (case respond A 200 (completion_json A chat out staffetta testo scalata) s1 of
                    (calls, x, s2) \<Rightarrow> (calls, map_option Callback_exn x, s2)))"

text \<open>The catch clauses around a generation.\<close>

definition generation_failed :: "('j, 'b, 'd, 'r, 'a) api_env \<Rightarrow> engine_exn \<Rightarrow> ('b, 'd, 'r, 'a) api \<Rightarrow> ('b, 'd, 'r, 'a) api handled" where
  "generation_failed A x s =
     (case what x of
        None \<Rightarrow> ([], Some [], s)
      | Some m \<Rightarrow> respond_error A 500 m ''server_error''
                    (case x of EngineError _ \<Rightarrow> ''generation_failed'' | _ \<Rightarrow> ''internal'') s)"

definition guarded_generation :: "('j, 'b, 'd, 'r, 'a) api_env \<Rightarrow> (nat \<Rightarrow> bool) \<Rightarrow> bool \<Rightarrow> 'j \<Rightarrow> bytes
    \<Rightarrow> ('b, 'd, 'r, 'a) api \<Rightarrow> ('b, 'd, 'r, 'a) api handled" where
  "guarded_generation A disk chat body prompt s =
     (case gen_config_from (ae_json A) body of
        Inl w \<Rightarrow> ([], Some w, s)
      | Inr gen \<Rightarrow>
          (case js_value_bool (ae_json A) body ''stream'' False of
             Inl w \<Rightarrow> ([], Some w, s)
           | Inr stream \<Rightarrow>
               (case (if stream then stream_generation A disk chat prompt gen s
                      else plain_generation A disk chat body prompt gen s) of
                  (calls, None, s1) \<Rightarrow> (calls, None, s1)
                | (calls, Some x, s1) \<Rightarrow>
                    (case generation_failed A x s1 of (calls2, y, s2) \<Rightarrow> (calls @ calls2, y, s2)))))"

definition invalid_request :: bytes where "invalid_request = ''invalid_request_error''"

text \<open>The slot of the \<open>BusyGuard\<close> is taken before and given back after, on every way out.\<close>

definition handle_generation :: "('j, 'b, 'd, 'r, 'a) api_env \<Rightarrow> (nat \<Rightarrow> bool) \<Rightarrow> HttpRequest \<Rightarrow> bool
    \<Rightarrow> ('b, 'd, 'r, 'a) api \<Rightarrow> ('b, 'd, 'r, 'a) api handled" where
  "handle_generation A disk r chat s =
     (case js_parse (ae_json A) (hq_body r) of
        None \<Rightarrow> respond_error A 400 ''request body is not valid JSON'' invalid_request ''invalid_json'' s
      | Some body \<Rightarrow>
          (case prompt_of A chat body of
             Rejected m code \<Rightarrow> respond_error A 400 m invalid_request code s
           | Thrown w \<Rightarrow> ([], Some w, s)
           | Prompt prompt \<Rightarrow>
               let s1 = s\<lparr>ap_engine := prefetch_prefix (ae_engine A) prompt (ap_engine s)\<rparr>
               in if hc_max_concurrent_requests (ae_cfg A) \<le> ap_active s1
                  then respond_error A 503 ''server is at capacity, retry later'' ''server_error'' ''overloaded'' s1
                  else (case guarded_generation A disk chat body prompt (s1\<lparr>ap_active := ap_active s1 + 1\<rparr>) of
                          (calls, x, s2) \<Rightarrow> (calls, x, s2\<lparr>ap_active := ap_active s2 - 1\<rparr>))))"

section \<open>Warming, sessions, metrics\<close>

definition warm_prompt :: "('j, 'b, 'd, 'r, 'a) api_env \<Rightarrow> 'j \<Rightarrow> prompt_result" where
  "warm_prompt A body =
     (if has_messages (ae_json A) body then chat_prompt A body
      else (case has_prompt (ae_json A) body of
              Some p \<Rightarrow> Prompt p
            | None \<Rightarrow> Rejected (quoted ''prompt'' @ '' (string) or '' @ quoted ''messages'' @ '' is required'') ''missing_prompt''))"

definition handle_warm :: "('j, 'b, 'd, 'r, 'a) api_env \<Rightarrow> (nat \<Rightarrow> bool) \<Rightarrow> HttpRequest
    \<Rightarrow> ('b, 'd, 'r, 'a) api \<Rightarrow> ('b, 'd, 'r, 'a) api handled" where
  "handle_warm A disk r s =
     (case js_parse (ae_json A) (hq_body r) of
        None \<Rightarrow> respond_error A 400 ''request body is not valid JSON'' invalid_request ''invalid_json'' s
      | Some body \<Rightarrow>
          (case warm_prompt A body of
             Rejected m code \<Rightarrow> respond_error A 400 m invalid_request code s
           | Thrown w \<Rightarrow> ([], Some w, s)
           | Prompt prompt \<Rightarrow>
               (case warm (ae_engine A) disk prompt (ap_engine s) of
                  (Inl x, e1) \<Rightarrow>
                    (case what x of
                       None \<Rightarrow> ([], Some [], s\<lparr>ap_engine := e1\<rparr>)
                     | Some m \<Rightarrow>
                         (case x of
                            EngineError _ \<Rightarrow> respond_error A 400 m invalid_request ''warm_failed'' (s\<lparr>ap_engine := e1\<rparr>)
                          | _ \<Rightarrow> respond_error A 500 m ''server_error'' ''internal'' (s\<lparr>ap_engine := e1\<rparr>)))
                | (Inr n, e1) \<Rightarrow>
                    let J = ae_json A;
                        (calls, x, s2) = respond A 200 (js_obj J [(''warmed'', js_bool J True), (''tokens'', js_int J (int n))])
                                           (s\<lparr>ap_engine := e1\<rparr>)
                    in (case x of
                          None \<Rightarrow> (calls, None, s2)
                        | Some w \<Rightarrow> (case respond_error A 500 w ''server_error'' ''internal'' s2 of
                                      (calls2, y, s3) \<Rightarrow> (calls @ calls2, y, s3))))))"

definition method_not_allowed :: "('j, 'b, 'd, 'r, 'a) api_env \<Rightarrow> ('b, 'd, 'r, 'a) api \<Rightarrow> ('b, 'd, 'r, 'a) api handled" where
  "method_not_allowed A s = respond_error A 405 ''method not allowed'' invalid_request ''bad_method'' s"

text \<open>Only \<open>EngineError\<close> is caught here.\<close>

definition session_result :: "('j, 'b, 'd, 'r, 'a) api_env \<Rightarrow> (engine_exn + unit) \<times> ('b, 'd, 'r, 'a) engine
    \<Rightarrow> ('b, 'd, 'r, 'a) api \<Rightarrow> ('b, 'd, 'r, 'a) api handled" where
  "session_result A res s =
     (case res of
        (Inr _, e1) \<Rightarrow> respond A 200 (js_obj (ae_json A) [(''ok'', js_bool (ae_json A) True)]) (s\<lparr>ap_engine := e1\<rparr>)
      | (Inl (EngineError m), e1) \<Rightarrow> respond_error A 404 m invalid_request ''session_not_found'' (s\<lparr>ap_engine := e1\<rparr>)
      | (Inl x, e1) \<Rightarrow> ([], Some (case what x of Some m \<Rightarrow> m | None \<Rightarrow> []), s\<lparr>ap_engine := e1\<rparr>))"

definition handle_sessions :: "('j, 'b, 'd, 'r, 'a) api_env \<Rightarrow> (nat \<Rightarrow> bool) \<Rightarrow> HttpRequest
    \<Rightarrow> ('b, 'd, 'r, 'a) api \<Rightarrow> ('b, 'd, 'r, 'a) api handled" where
  "handle_sessions A disk r s =
     (if hq_target r = ''/v1/sessions'' \<and> hq_method r = ''POST'' then
        let (i, e1) = create_session (ap_engine s)
        in respond A 200 (js_obj (ae_json A) [(''id'', js_str (ae_json A) i)]) (s\<lparr>ap_engine := e1\<rparr>)
      else if length (hq_target r) \<le> 13 then method_not_allowed A s
      else
        let rest = drop 13 (hq_target r);
            slash = str_find_char rest CHR ''/'' 0;
            i = (case slash of None \<Rightarrow> rest | Some k \<Rightarrow> take k rest);
            action = (case slash of None \<Rightarrow> [] | Some k \<Rightarrow> drop (k + 1) rest)
        in if hq_method r = ''DELETE'' \<and> action = [] then session_result A (delete_session i (ap_engine s)) s
           else if hq_method r = ''POST'' \<and> action = ''save''
           then session_result A (save_session (ae_engine A) (disk 0) i (ap_engine s)) s
           else if hq_method r = ''POST'' \<and> action = ''load''
           then session_result A (load_session (ae_engine A) i (ap_engine s)) s
           else method_not_allowed A s)"

definition speed :: "nat \<Rightarrow> real \<Rightarrow> real" where
  "speed n t = (if t \<le> 0 then 0 else real n / t)"

definition handle_metrics :: "('j, 'b, 'd, 'r, 'a) api_env \<Rightarrow> ('b, 'd, 'r, 'a) api \<Rightarrow> ('b, 'd, 'r, 'a) api handled" where
  "handle_metrics A s =
     (let J = ae_json A; (td, tt, ta) = ae_times A;
          server = (''server'', js_obj J [(''total_requests'', js_int J (uint (ap_total s))),
                                        (''errors'', js_int J (uint (ap_errors s))),
                                        (''active_generations'', js_int J (ap_active s))]);
          model = (''model'', js_obj J [(''id'', js_str J (hc_model_id (ae_cfg A))),
                                      (''context_size'', js_int J (int (context_size (ae_engine A)))),
                                      (''vocab_size'', js_int J (int (vocab_size (ae_engine A))))]);
          speculative =
            (case speculative_metrics (ap_engine s) of
               None \<Rightarrow> []
             | Some m \<Rightarrow> [(''speculative'', js_obj J
                 [(''acceptance_rate'', js_num J (acceptance_rate m)),
                  (''total_draft_tokens'', js_int J (int (sd_total_draft m))),
                  (''total_accepted_tokens'', js_int J (int (sd_total_accepted m))),
                  (''total_rejected_tokens'', js_int J (int (sd_total_rejected m))),
                  (''draft_speed_tps'', js_num J (speed (sd_total_draft m) td)),
                  (''target_speed_tps'', js_num J (speed (sd_generated m) tt)),
                  (''overall_speed_tps'', js_num J (speed (sd_generated m) ta))])])
      in respond A 200 (js_obj J ([server, model] @ speculative)) s)"

section \<open>The router\<close>

definition route :: "('j, 'b, 'd, 'r, 'a) api_env \<Rightarrow> (nat \<Rightarrow> bool) \<Rightarrow> HttpRequest
    \<Rightarrow> ('b, 'd, 'r, 'a) api \<Rightarrow> ('b, 'd, 'r, 'a) api handled" where
  "route A disk r s0 =
     (let J = ae_json A; cfg = ae_cfg A; s = s0\<lparr>ap_total := ap_total s0 + 1\<rparr>
      in if hc_enable_cors cfg \<and> hq_method r = ''OPTIONS''
         then ([Begin 204 (base_headers cfg ''text/plain''), End], None, s)
         else if hq_target r = ''/health'' then respond A 200 (js_obj J [(''status'', js_str J ''ok'')]) s
         else if \<not> authorized cfg r
         then respond_error A 401 ''missing or invalid API key'' invalid_request ''invalid_api_key'' s
         else if hq_target r = ''/metrics'' then
           (if \<not> hc_enable_metrics cfg
            then respond_error A 404 ''metrics are disabled'' invalid_request ''not_found'' s
            else handle_metrics A s)
         else if hq_target r = ''/v1/models'' then
           (if hq_method r \<noteq> ''GET'' then method_not_allowed A s
            else respond A 200 (js_obj J
                   [(''object'', js_str J ''list''),
                    (''data'', js_arr J [js_obj J [(''id'', js_str J (hc_model_id cfg)), (''object'', js_str J ''model''),
                                                  (''owned_by'', js_str J ''reame'')]])]) s)
         else if hq_target r = ''/v1/completions'' \<or> hq_target r = ''/v1/chat/completions'' then
           (if hq_method r \<noteq> ''POST'' then method_not_allowed A s
            else handle_generation A disk r (hq_target r = ''/v1/chat/completions'') s)
         else if hq_target r = ''/v1/warm'' then
           (if hq_method r \<noteq> ''POST'' then method_not_allowed A s else handle_warm A disk r s)
         else if hq_target r = ''/v1/sessions'' \<or> take 13 (hq_target r) = ''/v1/sessions/''
         then handle_sessions A disk r s
         else respond_error A 404 (''unknown endpoint: '' @ hq_target r) invalid_request ''not_found'' s)"

text \<open>The two entry points: on the connection's writer, and buffered.\<close>

definition api_handle :: "('j, 'b, 'd, 'r, 'a) api_env \<Rightarrow> (nat \<Rightarrow> bool) \<Rightarrow> ('b, 'd, 'r, 'a) api http_handler" where
  "api_handle A disk r s = (case route A disk r s of (calls, x, s1) \<Rightarrow> (calls, x \<noteq> None, s1))"

fun buffer_step :: "HttpResponse \<Rightarrow> writer_call \<Rightarrow> HttpResponse" where
  "buffer_step resp (Begin status headers) = resp\<lparr>hr_status := status, hr_headers := headers\<rparr>"
| "buffer_step resp (Chunk data) = resp\<lparr>hr_body := hr_body resp @ data\<rparr>"
| "buffer_step resp End = resp"

definition api_handle_buffered :: "('j, 'b, 'd, 'r, 'a) api_env \<Rightarrow> (nat \<Rightarrow> bool) \<Rightarrow> HttpRequest \<Rightarrow> ('b, 'd, 'r, 'a) api
    \<Rightarrow> (bytes + HttpResponse) \<times> ('b, 'd, 'r, 'a) api" where
  "api_handle_buffered A disk r s =
     (case route A disk r s of
        (calls, None, s1) \<Rightarrow> (Inr (foldl buffer_step \<lparr>hr_status = 200, hr_headers = [], hr_body = []\<rparr> calls), s1)
      | (_, Some w, s1) \<Rightarrow> (Inl w, s1))"

definition api_stats :: "('b, 'd, 'r, 'a) api \<Rightarrow> u64 \<times> u64" where
  "api_stats s = (ap_total s, ap_errors s)"

text \<open>
  The client that production installs when an endpoint is configured; \<open>fuel\<close> bounds the rounds of the
  decoding loop, which a peer can make endless (\<open>Escalation.chunked_decoding_can_hang\<close>).
\<close>

definition http_client :: "network \<Rightarrow> nat \<Rightarrow> client" where
  "http_client net fuel endpoint body =
     map_sum (\<lambda>_. ''stoi'') (\<lambda>r. case r of Reply b \<Rightarrow> Some b | _ \<Rightarrow> None) (escalation_client net fuel endpoint body)"

definition default_client :: "network \<Rightarrow> nat \<Rightarrow> api_config \<Rightarrow> client option" where
  "default_client net fuel cfg =
     (if hc_escalation_endpoint cfg \<noteq> [] then Some (http_client net fuel) else None)"

section \<open>Authentication\<close>

lemma foldl_or_eq_0:
  "foldl (\<lambda>d i. d OR f i) a xs = (0 :: 8 word) \<longleftrightarrow> a = 0 \<and> (\<forall>i \<in> set xs. f i = 0)"
  by (induction xs arbitrary: a) (auto simp: or_eq_0_iff)

lemma xor_word_eq_0: "(a :: 8 word) XOR b = 0 \<longleftrightarrow> a = b"
  by (metis xor.left_neutral xor.assoc xor_self_eq)

lemma word8_of_char_inject: "(word_of_nat (of_char c) :: 8 word) = word_of_nat (of_char d) \<longleftrightarrow> c = d"
proof
  assume "(word_of_nat (of_char c) :: 8 word) = word_of_nat (of_char d)"
  then have "unat (word_of_nat (of_char c) :: 8 word) = unat (word_of_nat (of_char d) :: 8 word)" by simp
  then have "(of_char c :: nat) = of_char d" by (simp add: unat_of_nat)
  then show "c = d" by (simp only: of_char_inject_nat)
qed simp

lemma auth_diff_iff: "auth_diff got expected = 0 \<longleftrightarrow> got = expected"
proof
  assume "auth_diff got expected = 0"
  then have "(if length got \<noteq> length expected then 1 else 0 :: 8 word) = 0"
    and d: "\<forall>i \<in> set [0..<length got]. word_of_nat (of_char (got ! i)) XOR
      word_of_nat (of_char (expected ! (if i < length expected then i else 0))) = (0 :: 8 word)"
    unfolding auth_diff_def foldl_or_eq_0 by blast+
  then have len: "length got = length expected" by (simp split: if_splits)
  show "got = expected"
  proof (rule nth_equalityI [OF len])
    fix i assume "i < length got"
    with d len show "got ! i = expected ! i" by (auto simp: xor_word_eq_0 word8_of_char_inject)
  qed
qed (simp add: auth_diff_def foldl_or_eq_0)

lemma authorized_iff:
  "authorized cfg r \<longleftrightarrow> hc_api_key cfg = [] \<or> request_header r ''Authorization'' = ''Bearer '' @ hc_api_key cfg"
  by (simp add: authorized_def auth_diff_iff)

section \<open>Frames\<close>

lemma respond_frame:
  "respond A status body s = (calls, x, s1) \<Longrightarrow>
    ap_engine s1 = ap_engine s \<and> ap_active s1 = ap_active s \<and> ap_total s1 = ap_total s \<and>
    ap_errors s1 = ap_errors s + (if 400 \<le> status then 1 else 0)"
  by (auto simp: respond_def Let_def split: sum.splits)

lemma run_generation_frame:
  "run_generation A disk prompt gen cb s = (r, ps, s1) \<Longrightarrow>
    ap_active s1 = ap_active s \<and> ap_total s1 = ap_total s \<and> ap_errors s1 = ap_errors s"
  by (auto simp: run_generation_def split: sum.splits prod.splits)

text \<open>\<open>same_gate\<close>: the counters that a request leaves as they were.\<close>

definition same_gate :: "('b, 'd, 'r, 'a) api \<Rightarrow> ('b, 'd, 'r, 'a) api \<Rightarrow> bool" where
  "same_gate s s1 \<longleftrightarrow> ap_active s1 = ap_active s \<and> ap_total s1 = ap_total s"

named_theorems gate \<open>handlers that leave the gate as it was\<close>

lemma same_gate_trans: "same_gate s s1 \<Longrightarrow> same_gate s1 s2 \<Longrightarrow> same_gate s s2"
  by (simp add: same_gate_def)

lemma same_gate_engine [simp]:
  "same_gate (s\<lparr>ap_engine := e\<rparr>) s1 = same_gate s s1" "same_gate s (s\<lparr>ap_engine := e\<rparr>)" "same_gate s s"
  by (simp_all add: same_gate_def)

lemma respond_gate [gate]: "respond A status body s = (calls, x, s1) \<Longrightarrow> same_gate s s1"
  by (simp add: respond_frame same_gate_def)

lemma respond_error_gate [gate]: "respond_error A status m t c s = (calls, x, s1) \<Longrightarrow> same_gate s s1"
  by (simp add: respond_error_def respond_gate)

lemma run_generation_gate [gate]: "run_generation A disk prompt gen cb s = (r, ps, s1) \<Longrightarrow> same_gate s s1"
  by (simp add: run_generation_frame same_gate_def)

lemma stream_generation_gate [gate]: "stream_generation A disk chat prompt gen s = (calls, x, s1) \<Longrightarrow> same_gate s s1"
  by (auto simp: stream_generation_def Let_def split: sum.splits prod.splits dest: gate)

lemma plain_generation_gate [gate]: "plain_generation A disk chat body prompt gen s = (calls, x, s1) \<Longrightarrow> same_gate s s1"
  by (auto simp: plain_generation_def Let_def split: sum.splits prod.splits dest!: gate intro: same_gate_trans)

lemma generation_failed_gate [gate]: "generation_failed A x s = (calls, y, s1) \<Longrightarrow> same_gate s s1"
  by (auto simp: generation_failed_def split: option.splits dest: gate)

lemma guarded_generation_gate [gate]: "guarded_generation A disk chat body prompt s = (calls, x, s1) \<Longrightarrow> same_gate s s1"
  by (auto simp: guarded_generation_def split: sum.splits if_splits prod.splits option.splits dest!: gate intro: same_gate_trans)

lemma handle_generation_gate [gate]: "handle_generation A disk r chat s = (calls, x, s1) \<Longrightarrow> same_gate s s1"
  by (auto simp: handle_generation_def Let_def split: option.splits prompt_result.splits if_splits prod.splits dest!: gate)
    (auto simp: same_gate_def)

lemma handle_warm_gate [gate]: "handle_warm A disk r s = (calls, x, s1) \<Longrightarrow> same_gate s s1"
  by (auto simp: handle_warm_def Let_def split: option.splits prompt_result.splits sum.splits prod.splits engine_exn.splits
      dest!: gate intro: same_gate_trans)

lemma session_result_gate [gate]: "session_result A res s = (calls, x, s1) \<Longrightarrow> same_gate s s1"
  by (auto simp: session_result_def split: sum.splits prod.splits engine_exn.splits dest!: gate)

lemma handle_sessions_gate [gate]: "handle_sessions A disk r s = (calls, x, s1) \<Longrightarrow> same_gate s s1"
  by (auto simp: handle_sessions_def Let_def method_not_allowed_def split: prod.splits if_splits dest!: gate)

lemma handle_metrics_gate [gate]: "handle_metrics A s = (calls, x, s1) \<Longrightarrow> same_gate s s1"
  by (auto simp: handle_metrics_def Let_def split: prod.splits dest!: gate)

section \<open>A concrete JSON library\<close>

text \<open>
  Documents with the documented behaviour of \<open>value\<close> (a default for an absent key, an exception for a
  value of another type or for anything but an object); only the texts of a given table parse.
\<close>

datatype jval = JBool bool | JInt int | JNum real | JStr bytes | JArr "jval list" | JObj "(bytes \<times> jval) list"

definition jv_value :: "(jval \<Rightarrow> 'x option) \<Rightarrow> jval \<Rightarrow> bytes \<Rightarrow> 'x \<Rightarrow> bytes + 'x" where
  "jv_value conv j k d =
     (case j of
        JObj kvs \<Rightarrow> (case map_of kvs k of
                       None \<Rightarrow> Inr d
                     | Some v \<Rightarrow> (case conv v of Some x \<Rightarrow> Inr x | None \<Rightarrow> Inl ''type_error''))
      | _ \<Rightarrow> Inl ''type_error'')"

fun jv_string :: "jval \<Rightarrow> bytes option" where
  "jv_string (JStr s) = Some s" | "jv_string _ = None"

fun jv_int :: "jval \<Rightarrow> int option" where
  "jv_int (JInt i) = Some i" | "jv_int _ = None"

fun jv_float :: "jval \<Rightarrow> real option" where
  "jv_float (JNum x) = Some x" | "jv_float (JInt i) = Some (real_of_int i)" | "jv_float _ = None"

fun jv_bool :: "jval \<Rightarrow> bool option" where
  "jv_bool (JBool b) = Some b" | "jv_bool _ = None"

fun jv_at :: "jval \<Rightarrow> bytes \<Rightarrow> jval option" where
  "jv_at (JObj kvs) k = map_of kvs k" | "jv_at _ k = None"

fun jv_items :: "jval \<Rightarrow> jval list" where
  "jv_items (JArr js) = js" | "jv_items _ = []"

fun jv_entries :: "jval \<Rightarrow> (bytes \<times> jval) list" where
  "jv_entries (JObj kvs) = kvs" | "jv_entries _ = []"

definition demo_json :: "(bytes \<Rightarrow> jval option) \<Rightarrow> jval json_lib" where
  "demo_json docs =
     \<lparr>js_parse = docs, js_dump = (\<lambda>j. Inr (case j of JStr s \<Rightarrow> s | _ \<Rightarrow> ''{}'')),
      js_contains = (\<lambda>j k. jv_at j k \<noteq> None), js_at = jv_at, js_items = jv_items,
      js_is_array = (\<lambda>j. case j of JArr _ \<Rightarrow> True | _ \<Rightarrow> False), js_is_string = (\<lambda>j. jv_string j \<noteq> None),
      js_get_string = jv_string, js_value_string = jv_value jv_string, js_value_int = jv_value jv_int,
      js_value_float = jv_value jv_float, js_value_bool = jv_value jv_bool,
      js_erase = (\<lambda>j k. JObj (filter (\<lambda>kv. fst kv \<noteq> k) (jv_entries j))),
      js_set = (\<lambda>j k v. JObj ((k, v) # jv_entries j)),
      js_obj = JObj, js_arr = JArr, js_str = JStr, js_int = JInt, js_num = JNum, js_bool = JBool\<rparr>"

section \<open>The generation gate under concurrency\<close>

text \<open>
  The \<open>BusyGuard\<close>s of concurrent workers: \<open>fetch_add\<close> and the \<open>fetch_sub\<close> of a refused worker are two
  atomic steps, other workers run in between.
\<close>

record busy_gate =
  bg_active :: int
  bg_inside :: "nat set"
  bg_refused :: "nat set"

definition busy_enter :: "int \<Rightarrow> nat \<Rightarrow> busy_gate \<Rightarrow> busy_gate" where
  "busy_enter max_active w g =
     (let current = bg_active g; g1 = g\<lparr>bg_active := current + 1\<rparr>
      in if max_active \<le> current then g1\<lparr>bg_refused := insert w (bg_refused g)\<rparr>
         else g1\<lparr>bg_inside := insert w (bg_inside g)\<rparr>)"

definition busy_back_out :: "nat \<Rightarrow> busy_gate \<Rightarrow> busy_gate" where
  "busy_back_out w g = g\<lparr>bg_active := bg_active g - 1, bg_refused := bg_refused g - {w}\<rparr>"

definition busy_leave :: "nat \<Rightarrow> busy_gate \<Rightarrow> busy_gate" where
  "busy_leave w g = g\<lparr>bg_active := bg_active g - 1, bg_inside := bg_inside g - {w}\<rparr>"

inductive gate_reach :: "int \<Rightarrow> busy_gate \<Rightarrow> bool" for max_active where
  gate_init: "gate_reach max_active \<lparr>bg_active = 0, bg_inside = {}, bg_refused = {}\<rparr>"
| gate_enter: "gate_reach max_active g \<Longrightarrow> w \<notin> bg_inside g \<union> bg_refused g \<Longrightarrow> gate_reach max_active (busy_enter max_active w g)"
| gate_back_out: "gate_reach max_active g \<Longrightarrow> w \<in> bg_refused g \<Longrightarrow> gate_reach max_active (busy_back_out w g)"
| gate_leave: "gate_reach max_active g \<Longrightarrow> w \<in> bg_inside g \<Longrightarrow> gate_reach max_active (busy_leave w g)"

definition gate_inv :: "int \<Rightarrow> busy_gate \<Rightarrow> bool" where
  "gate_inv max_active g \<longleftrightarrow> finite (bg_inside g) \<and> finite (bg_refused g) \<and>
     bg_active g = int (card (bg_inside g)) + int (card (bg_refused g)) \<and>
     int (card (bg_inside g)) \<le> max 0 max_active"

lemma gate_reach_inv: "gate_reach max_active g \<Longrightarrow> gate_inv max_active g"
proof (induction rule: gate_reach.induct)
  case (gate_back_out g w)
  then have "0 < card (bg_refused g)" by (auto simp: gate_inv_def card_gt_0_iff)
  with gate_back_out show ?case by (auto simp: gate_inv_def busy_back_out_def)
next
  case (gate_leave g w)
  then have "0 < card (bg_inside g)" by (auto simp: gate_inv_def card_gt_0_iff)
  with gate_leave show ?case by (auto simp: gate_inv_def busy_leave_def)
qed (auto simp: gate_inv_def busy_enter_def Let_def)

section \<open>Streams\<close>

lemma base_headers_ok: "map_ok ci_less (base_headers cfg t)"
  unfolding base_headers_def Let_def by (auto intro!: hdr.ok_assign hdr.ok_Nil simp del: map_assign.simps)

lemma header_keys_differ:
  "ci_key ''Content-Type'' \<noteq> ci_key ''Access-Control-Allow-Origin''"
  "ci_key ''Content-Type'' \<noteq> ci_key ''Access-Control-Allow-Methods''"
  "ci_key ''Content-Type'' \<noteq> ci_key ''Access-Control-Allow-Headers''"
  "ci_key ''Content-Type'' \<noteq> ci_key ''Cache-Control''"
  by (simp_all add: ci_key_eq)

lemma base_headers_type: "header_of (base_headers cfg t) ''Content-Type'' = t"
proof -
  have "map_find ci_less ''Content-Type'' (base_headers cfg t) = Some t"
    unfolding base_headers_def Let_def
    by (simp add: hdr.find_assign hdr.ok_assign header_keys_differ del: map_assign.simps)
  then show ?thesis by (simp add: header_of_def)
qed

lemma stream_headers_type: "header_of (stream_headers cfg) ''Content-Type'' = ''text/event-stream''"
proof -
  have "map_find ci_less ''Content-Type'' (stream_headers cfg) =
      map_find ci_less ''Content-Type'' (base_headers cfg ''text/event-stream'')"
    unfolding stream_headers_def by (simp add: hdr.find_assign base_headers_ok header_keys_differ)
  with base_headers_type [of cfg "''text/event-stream''"] show ?thesis by (simp add: header_of_def)
qed

section \<open>The relay\<close>

lemma escalate_returns:
  assumes "js_dump (ae_json A) (inoltro A body) = Inr d"
    and "\<forall>ask. ae_client A = Some ask \<longrightarrow> (\<exists>o'. ask (hc_escalation_endpoint (ae_cfg A)) d = Inr o')"
  shows "\<exists>t b. escalate A staffetta body testo = Inr (t, b) \<and>
    (if b then \<exists>profonda. deep_answer (ae_json A) profonda = Some t else t = testo)"
proof (cases "ae_client A")
  case (Some ask)
  let ?cfg = "ae_cfg A" and ?J = "ae_json A"
  show ?thesis
  proof (cases "staffetta \<and> dovrebbe (ae_regex A) testo (hc_escalation_trigger ?cfg)")
    case True
    obtain o' where o: "ask (hc_escalation_endpoint ?cfg) d = Inr o'" using assms(2) Some by blast
    have "escalate A staffetta body testo =
        (case o' of None \<Rightarrow> Inr (testo, False)
         | Some p \<Rightarrow> (case deep_answer ?J p of Some t \<Rightarrow> Inr (t, True) | None \<Rightarrow> Inr (testo, False)))"
      unfolding escalate_def Let_def Some option.case if_P [OF True] assms(1) bindE_simps o ..
    then show ?thesis by (auto split: option.splits)
  next
    case False
    then have "escalate A staffetta body testo = Inr (testo, False)"
      unfolding escalate_def Let_def Some option.case by (rule if_not_P)
    then show ?thesis by (intro exI [of _ testo] exI [of _ False]) simp
  qed
qed (auto simp: escalate_def)

end
