(* ===== verification/Serving.thy ===== *)
theory Serving
  imports Engine
begin

text \<open>
  What the engine promises, over the model of \<open>Engine\<close>: every reachable engine generates what the
  model alone would, whichever way it serves requests, from whatever conversation, snapshot or
  draft it continues; the Conclave's early verdict is the verdict of the full election; the
  response cache replays completions of the same request; sessions come back. Two theorems show
  what the guards of the code miss.
\<close>

section \<open>The parallel path\<close>

text \<open>A request alone in the scheduler is the reference run, as soon as it may produce a token.\<close>

abbreviation ended :: "engine_exn option \<Rightarrow> engine_exn + unit" where
  "ended err \<equiv> (case err of None \<Rightarrow> Inr () | Some x \<Rightarrow> Inl x)"

lemma solo_classic:
  "\<lbrakk>gc_max_tokens gen = emitted + int (Suc n); plen \<le> length history; solo uniform eval eog n_ctx gen cb plen emitted rng history = (ts, err)\<rbrakk> \<Longrightarrow>
   classic_ref uniform eval eog n_ctx gen cb (Suc n) history (drop plen history) rng = (ended err, drop plen history @ ts)"
proof (induction n arbitrary: emitted history rng ts)
  case 0
  then show ?case by (subst (asm) solo.simps) (auto split: sum.splits prod.splits if_splits)
next
  case (Suc n)
  have step: "classic_ref uniform eval eog n_ctx gen cb (Suc n) (history @ [t]) (drop plen history @ [t]) rng1 =
      (ended err, drop plen history @ [t] @ ts')"
    if "solo uniform eval eog n_ctx gen cb plen (emitted + 1) rng1 (history @ [t]) = (ts', err)" for t rng1 ts'
    using Suc.IH [of "emitted + 1" "history @ [t]" rng1 ts'] Suc.prems that by (simp del: classic_ref.simps)
  show ?case
    using Suc.prems
    by (subst (asm) solo.simps, subst classic_ref.simps)
       (auto simp: step map_prod_def split: sum.splits prod.splits if_splits simp del: classic_ref.simps)
qed

lemma solo_of_submitted:
  assumes "1 \<le> gc_max_tokens gen"
    and "solo_of uniform eval eog n_ctx (submitted seed tokens gen cb i) = (ts, err)"
  shows "classic_ref uniform eval eog n_ctx gen cb (nat (gc_max_tokens gen)) tokens [] (seed (gc_seed gen)) = (ended err, ts)"
proof -
  obtain n where n: "nat (gc_max_tokens gen) = Suc n" using assms(1) by (cases "nat (gc_max_tokens gen)") auto
  then have "gc_max_tokens gen = 0 + int (Suc n)" by linarith
  from solo_classic [OF this, of "length tokens" tokens] assms(2) show ?thesis
    by (simp add: n solo_of_def submitted_def del: classic_ref.simps)
qed

text \<open>The invariant of an engine with a scheduler: nothing of it is remembered outside.\<close>

definition parallel_ok :: "('b, 'd, 'r, 'a) engine_env \<Rightarrow> ('b \<Rightarrow> int \<Rightarrow> tokens) \<Rightarrow> (tokens \<Rightarrow> logits) \<Rightarrow> ('b, 'd, 'r, 'a) engine \<Rightarrow> bool" where
  "parallel_ok E kvs eval s \<longleftrightarrow>
     (\<exists>sc orig. en_scheduler s = Some sc \<and> sch_n_ctx sc = be_context_length (ee_B E) \<and>
        sched_inv (ee_B E) kvs eval (ee_uniform E) orig sc) \<and>
     en_context_tokens s = [] \<and> en_prefix_cache s = None \<and> en_cache s = None \<and> (\<forall>i. en_sessions s i \<in> {None, Some []})"

lemma parallel_generate_ok:
  assumes "isolated_seq_backend (ee_B E) kvs eval" and "parallel_ok E kvs eval s" and "en_scheduler s = Some sc"
    and "parallel_generate E sc tokens cb gen s = (r, d, s1)"
  defines "ref \<equiv> classic_ref (ee_uniform E) eval (be_is_eog (ee_B E)) (be_context_length (ee_B E)) gen cb
    (nat (gc_max_tokens gen)) tokens [] (ee_seed E (gc_seed gen))"
  shows "parallel_ok E kvs eval s1 \<and> (1 \<le> gc_max_tokens gen \<longrightarrow> (\<exists>k. d = take k (snd ref)) \<and> (r = Inr () \<longrightarrow> ref = (Inr (), d)))"
proof -
  from assms(2,3) obtain orig where inv: "sched_inv (ee_B E) kvs eval (ee_uniform E) orig sc"
    and n: "sch_n_ctx sc = be_context_length (ee_B E)" by (auto simp: parallel_ok_def)
  obtain q sc1 where sub: "submit (ee_seed E) tokens gen (Some cb) sc = (q, sc1)" by fastforce
  show ?thesis
  proof (cases q)
    case (Inl x)
    with sub have "sc1 = sc" by (auto simp: submit_def split: if_splits)
    with assms(2,3,4) sub Inl show ?thesis
      by (auto simp: parallel_generate_def parallel_ok_def intro!: exI [of _ 0])
  next
    case (Inr i)
    let ?q = "submitted (ee_seed E) tokens gen cb i"
    have inv1: "sched_inv (ee_B E) kvs eval (ee_uniform E) (orig(i \<mapsto> ?q)) sc1" by (rule submit_inv [OF inv sub [unfolded Inr]])
    have n1: "sch_n_ctx sc1 = be_context_length (ee_B E)" using sub n by (auto simp: submit_def split: if_splits)
    from run_until_idle_drains [OF assms(1) inv1 lessI] obtain sc2 where w: "worker_loop E sc1 = sc2"
      and s2: "idle sc2" "sched_inv (ee_B E) kvs eval (ee_uniform E) (orig(i \<mapsto> ?q)) sc2" "sch_n_ctx sc2 = be_context_length (ee_B E)"
      by (auto simp: worker_loop_def n1)
    have books: "books (solo_of (ee_uniform E) eval (be_is_eog (ee_B E)) (sch_n_ctx sc2)) (sch_n_ctx sc2) (orig(i \<mapsto> ?q)) (sch_log sc2)
        (sch_done sc2) []" using s2(1,2) by (simp add: sched_inv_def idle_def)
    then have "dom (orig(i \<mapsto> ?q)) = dom (sch_done sc2)" unfolding books_def by simp
    then obtain err where e: "sch_done sc2 i = Some err" by (metis domD domI fun_upd_same)
    have out: "outcome (solo_of (ee_uniform E) eval (be_is_eog (ee_B E)) (sch_n_ctx sc2)) (orig(i \<mapsto> ?q)) (sch_log sc2) i err"
      using books e unfolding books_def by blast
    have v: "r = (case err of Some x \<Rightarrow> Inl x | None \<Rightarrow> Inr ())" "d = log_of (sch_log sc2) i" "s1 = s\<lparr>en_scheduler := Some sc2\<rparr>"
      using assms(4) sub Inr w e by (auto simp: parallel_generate_def error_def)
    have "parallel_ok E kvs eval s1" using assms(2) s2 by (auto simp: v parallel_ok_def)
    moreover have "(\<exists>k. d = take k (snd ref)) \<and> (r = Inr () \<longrightarrow> ref = (Inr (), d))" if g: "1 \<le> gc_max_tokens gen"
    proof -
      let ?run = "solo_of (ee_uniform E) eval (be_is_eog (ee_B E)) (be_context_length (ee_B E)) ?q"
      have "ref = (ended err', ts)" if "?run = (ts, err')" for ts err'
        unfolding ref_def using g that by (rule solo_of_submitted)
      then have "ref = (ended (snd ?run), fst ?run)" by simp
      moreover from out have "?run = (d, err) \<or> (\<exists>e rest. err = Some (Engine_model e) \<and> fst ?run = d @ rest)"
        by (auto simp: outcome_def v(2) s2(3))
      ultimately show ?thesis
        by (auto simp: v(1) split: option.splits intro: exI [of _ "length d"])
    qed
    ultimately show ?thesis by blast
  qed
qed

section \<open>The invariant of an engine\<close>

definition engine_ok :: "('b, 'd, 'r, 'a) engine_env \<Rightarrow> ('b \<Rightarrow> bool) \<Rightarrow> ('b \<Rightarrow> tokens) \<Rightarrow> ('b \<Rightarrow> int \<Rightarrow> tokens) \<Rightarrow> (tokens \<Rightarrow> logits)
    \<Rightarrow> tokens set \<Rightarrow> ('b, 'd, 'r, 'a) engine \<Rightarrow> bool" where
  "engine_ok E ok kv kvs eval S s \<longleftrightarrow> serial_ok E ok kv S s \<or> parallel_ok E kvs eval s"

text \<open>A greedy setting: temperature 0 and what \<open>greedy_env\<close> says of the backends and the random source.\<close>

definition greedy_world :: "('b, 'd, 'r, 'a) engine_env \<Rightarrow> (tokens \<Rightarrow> logits) \<Rightarrow> GenerationConfig \<Rightarrow> bool" where
  "greedy_world E eval gen \<longleftrightarrow>
     gc_temperature gen \<le> 0 \<and> 0 < be_vocab_size (ee_B E) \<and> be_vocab_size (ee_B E) < 2 ^ 31 \<and>
     (\<forall>ts. length (eval ts) = be_vocab_size (ee_B E)) \<and>
     (\<forall>r. 0 \<le> fst (ee_uniform E r) \<and> fst (ee_uniform E r) < 1) \<and>
     (\<forall>D d ts l d'. ee_D E = Some D \<and> be_decode_append D d ts = (Inr l, d') \<longrightarrow> length l < 2 ^ 31)"

lemma greedy_world_env: "greedy_world E eval gen \<Longrightarrow> greedy_env (decoder_env E dc corpus cb gen) eval"
  unfolding greedy_world_def greedy_env_def decoder_env_def spec_env.simps .

lemma greedy_world_eval: "greedy_world E eval gen \<Longrightarrow> eval ts \<noteq> []"
  by (metis greedy_world_def length_greater_0_conv)

text \<open>A generation leaves the engine in order and, when greedy, delivers the greedy tokens.\<close>

lemma run_tokens_ok:
  assumes K: "kv_backend (ee_B E) ok kv eval" and I: "isolated_seq_backend (ee_B E) kvs eval"
    and s: "engine_ok E ok kv kvs eval S s" and t: "in_use S tokens"
    and r: "run_tokens E disk tokens cb gen s = (Inr u, d, s1)"
  shows "engine_ok E ok kv kvs eval S s1 \<and>
    (greedy_world E eval gen \<and> length tokens < be_context_length (ee_B E) \<and> 1 \<le> gc_max_tokens gen \<longrightarrow>
      d = greedy_ref gen eval (be_is_eog (ee_B E)) cb (be_context_length (ee_B E)) (max_out gen) tokens [])"
    (is "_ \<and> (?g \<longrightarrow> _)")
proof -
  let ?ref = "classic_ref (ee_uniform E) eval (be_is_eog (ee_B E)) (be_context_length (ee_B E)) gen cb (nat (gc_max_tokens gen)) tokens []
    (ee_seed E (gc_seed gen))"
  have ref: "d = greedy_ref gen eval (be_is_eog (ee_B E)) cb (be_context_length (ee_B E)) (max_out gen) tokens []"
    if "?ref = (Inr (), d)" "?g"
  proof -
    have "nat (gc_max_tokens gen) = max_out gen" using that(2) by (simp add: max_out_def)
    moreover have "gc_temperature gen \<le> 0" using that(2) by (simp add: greedy_world_def)
    moreover have "\<And>ts. eval ts \<noteq> []" using that(2) greedy_world_eval by blast
    ultimately show ?thesis using that classic_ref_greedy [of gen eval tokens] by metis
  qed
  consider (par) "parallel_ok E kvs eval s" | (ser) "serial_ok E ok kv S s" using s by (auto simp: engine_ok_def)
  then show ?thesis
  proof cases
    case par
    then obtain sc where sc: "en_scheduler s = Some sc" by (auto simp: parallel_ok_def)
    with r have "parallel_generate E sc tokens cb gen s = (Inr u, d, s1)" by (simp add: run_tokens_def)
    from parallel_generate_ok [OF I par sc this] ref show ?thesis by (auto simp: engine_ok_def)
  next
    case ser
    then have none: "en_scheduler s = None" by (simp add: serial_ok_def)
    show ?thesis
    proof (cases "en_decoder s")
      case None
      with r none have "classic_generate E disk tokens cb gen s = (Inr u, d, s1)" by (simp add: run_tokens_def)
      from kv_backend.classic_generate_ok [OF K refl ser t this] ref show ?thesis by (auto simp: engine_ok_def)
    next
      case (Some x)
      obtain dc dec where x: "x = (dc, dec)" by fastforce
      with r none Some have "decoder_generate E disk dc dec tokens cb gen s = (Inr u, d, s1)" by (simp add: run_tokens_def)
      from kv_backend.decoder_generate_ok [OF K refl ser t Some [unfolded x] this] greedy_world_env [of E eval gen dc None cb]
      show ?thesis by (auto simp: engine_ok_def)
    qed
  qed
qed


section \<open>Every operation keeps the invariant\<close>

lemma engine_ok_cong:
  assumes "engine_ok E ok kv kvs eval S s" and "en_scheduler s' = en_scheduler s" and "en_context_tokens s' = en_context_tokens s"
    and "en_backend s' = en_backend s" and "en_prefix_cache s' = en_prefix_cache s" and "en_cache s' = en_cache s"
    and "\<And>i. en_scheduler s \<noteq> None \<Longrightarrow> en_sessions s' i \<in> {None, Some []} \<or> en_sessions s' i = en_sessions s i"
  shows "engine_ok E ok kv kvs eval S s'"
  using assms unfolding engine_ok_def serial_ok_def parallel_ok_def by (metis option.distinct(1))

lemma generate_stream_impl_ok:
  assumes "kv_backend (ee_B E) ok kv eval" and "isolated_seq_backend (ee_B E) kvs eval" and "engine_ok E ok kv kvs eval S s"
    and "\<And>tokens. prompt_tokens (ee_B E) prompt = Inr tokens \<Longrightarrow> in_use S tokens"
    and "generate_stream_impl E disk prompt cb gen s = (Inr u, pieces, s1)"
  shows "engine_ok E ok kv kvs eval S s1"
  using assms run_tokens_ok [OF assms(1-3)]
  by (auto simp: generate_stream_impl_def Let_def split: sum.splits if_splits prod.splits)

lemma engine_generate_stream_ok:
  assumes "kv_backend (ee_B E) ok kv eval" and "isolated_seq_backend (ee_B E) kvs eval" and "engine_ok E ok kv kvs eval S s"
    and "\<And>tokens. prompt_tokens (ee_B E) prompt = Inr tokens \<Longrightarrow> in_use S tokens"
    and "engine_generate_stream E disk prompt (Some cb) gen s = (Inr u, pieces, s1)"
  shows "engine_ok E ok kv kvs eval S s1"
proof -
  have arca: "engine_ok E ok kv kvs eval S (s2\<lparr>en_arca := a\<rparr>)" if "engine_ok E ok kv kvs eval S s2" for s2 a
    by (rule engine_ok_cong [OF that]) simp_all
  note run = generate_stream_impl_ok [OF assms(1,2) _ assms(4)]
  show ?thesis
  proof (cases "\<exists>a. en_arca s = Some a \<and> cacheable gen \<and> \<not> gc_echo_prompt gen")
    case False
    then have "generate_stream_impl E disk prompt cb gen s = (Inr u, pieces, s1)"
      using assms(5) by (auto simp: engine_generate_stream_def split: option.splits)
    from run [OF assms(3) _ this] show ?thesis .
  next
    case True
    then obtain a where a: "en_arca s = Some a" "cacheable gen" "\<not> gc_echo_prompt gen" by blast
    obtain hit a1 where g: "ac_get (ee_arca E) a (cache_key (ee_hash E) (en_model_tag s) prompt gen) = (hit, a1)" by fastforce
    obtain r p s2 where i: "generate_stream_impl E disk prompt cb gen (s\<lparr>en_arca := Some a1\<rparr>) = (r, p, s2)" using prod_cases3 by blast
    show ?thesis
    proof (cases hit)
      case (Some h)
      with assms(5) a g have "s1 = s\<lparr>en_arca := Some a1\<rparr>" by (auto simp: engine_generate_stream_def)
      with arca [OF assms(3)] show ?thesis by simp
    next
      case None
      with assms(5) a g i obtain v where r: "r = Inr v" and s1: "s1 = s2\<lparr>en_arca := Some (ac_set (ee_arca E) a1
          (cache_key (ee_hash E) (en_model_tag s) prompt gen) (concat p))\<rparr>"
        by (cases r) (auto simp: engine_generate_stream_def Let_def)
      from arca [OF run [OF arca [OF assms(3)] _ i [unfolded r]]] show ?thesis by (simp add: s1)
    qed
  qed
qed

lemma cache_ok_prefetch:
  "cache_ok z p S B ok kv m \<Longrightarrow> prefix_prefetch z p' m prefix = (r, m') \<Longrightarrow> cache_ok z p S B ok kv m'"
proof -
  have "cache_ok z p S B ok kv m \<Longrightarrow> prefetch_longest z p' prefix marks m = (r, m') \<Longrightarrow> cache_ok z p S B ok kv m'" for marks
  proof (induction marks arbitrary: m)
    case (Cons mark marks)
    obtain h m1 where p: "prefetch z m (key_for p' prefix mark) = (h, m1)" by fastforce
    have "cache_ok z p S B ok kv m1" using Cons.prems(1) prefetch_inv [OF _ p] unfolding cache_ok_def by blast
    with Cons p show ?case by (cases h) auto
  qed simp
  then show "cache_ok z p S B ok kv m \<Longrightarrow> prefix_prefetch z p' m prefix = (r, m') \<Longrightarrow> cache_ok z p S B ok kv m'"
    by (auto simp: prefix_prefetch_def split: if_splits)
qed

lemma prefetch_prefix_ok:
  assumes "engine_ok E ok kv kvs eval S s"
  shows "engine_ok E ok kv kvs eval S (prefetch_prefix E prompt s)"
proof -
  have "disk_ok E ok kv S (en_prefix_cache s) (Some (snd (prefix_prefetch (ee_z E) p m q)))"
    if "disk_ok E ok kv S (en_prefix_cache s) (en_cache s)" "en_cache s = Some m" for p m q
    using that cache_ok_prefetch [OF _ prod.collapse [symmetric]] by (auto simp: disk_ok_def split: option.splits)
  then show ?thesis
    using assms
    by (auto simp: prefetch_prefix_def engine_ok_def serial_ok_def parallel_ok_def split: option.splits sum.splits)
qed

text \<open>The keys of sessions and of prefixes start differently.\<close>

lemma make_key_ne_key_for: "make_key tag tokens \<noteq> key_for p q n"
  by (simp add: make_key_def key_for_def Let_def)

lemma ok_key_make_key:
  assumes "length tokens < 2 ^ 32"
  shows "ok_key (make_key tag tokens)"
proof -
  have "length (make_key tag tokens) \<le> 100"
    using length_string_of_u32 [OF assms] length_string_of_u64 [of "checksum (key_material tag tokens)"]
      length_string_of_u64 [of "checksum (key_material tag tokens @ ''x'')"]
    by (simp add: make_key_def Let_def)
  then show ?thesis by (simp add: ok_key_def)
qed

lemma cache_ok_session_store:
  assumes "cache_ok z p S B ok kv m" and "zstd_ok z" and "length tokens < 2 ^ 32" and "n < 2 ^ 32"
    and "store_state z B w m (make_key tag tokens) b n = (r, m')"
  shows "cache_ok z p S B ok kv m'"
proof (cases "be_state_data B b")
  case (Inl e)
  with assms(1,5) show ?thesis by (simp add: store_state_failed)
next
  case (Inr d)
  from assms(1) obtain H where H: "restorable z H m" "snaps_ok p S B ok kv H" by (auto simp: cache_ok_def)
  have "restorable z (record_snap (make_key tag tokens) d n H) m'"
    using store_state_inv [OF H(1) assms(2) ok_key_make_key [OF assms(3)] assms(4) Inr assms(5)] .
  moreover have "snaps_ok p S B ok kv (record_snap (make_key tag tokens) d n H)"
  proof -
    have "record_snap (make_key tag tokens) d n H (key_for p q mark) = H (key_for p q mark)" for q mark
      using make_key_ne_key_for [of tag tokens p q mark] by (simp add: record_snap_def)
    then show ?thesis using H(2) unfolding snaps_ok_def by simp
  qed
  ultimately show ?thesis by (auto simp: cache_ok_def)
qed

lemma create_session_ok:
  "engine_ok E ok kv kvs eval S s \<Longrightarrow> engine_ok E ok kv kvs eval S (snd (create_session s))"
  by (erule engine_ok_cong) (auto simp: create_session_def Let_def)

lemma delete_session_ok:
  "engine_ok E ok kv kvs eval S s \<Longrightarrow> engine_ok E ok kv kvs eval S (snd (delete_session i s))"
  by (erule engine_ok_cong) (auto simp: delete_session_def)

lemma save_session_ok:
  assumes "engine_ok E ok kv kvs eval S s" and "length (en_context_tokens s) < 2 ^ 32"
  shows "engine_ok E ok kv kvs eval S (snd (save_session E w i s))"
proof (cases "en_sessions s i")
  case None
  then show ?thesis using assms(1) by (simp add: save_session_def)
next
  case (Some old)
  let ?s1 = "s\<lparr>en_sessions := (en_sessions s)(i \<mapsto> en_context_tokens s)\<rparr>"
  have "engine_ok E ok kv kvs eval S ?s1"
    by (rule engine_ok_cong [OF assms(1)]) (use assms(1) in \<open>auto simp: engine_ok_def serial_ok_def parallel_ok_def\<close>)
  moreover have "engine_ok E ok kv kvs eval S (?s1\<lparr>en_cache := Some m1\<rparr>)"
    if c: "en_cache s = Some m" and st: "store_state (ee_z E) (ee_B E) w m (session_cache_key (en_model_tag s) i (en_context_tokens s))
        (backend_of ?s1) (length (en_context_tokens s) mod 2 ^ 32) = (r, m1)" for m r m1
  proof -
    have ser: "serial_ok E ok kv S s" using assms(1) c by (auto simp: engine_ok_def parallel_ok_def)
    have "disk_ok E ok kv S (en_prefix_cache s) (Some m1)"
      using ser c cache_ok_session_store [OF _ _ assms(2) _ st [unfolded session_cache_key_def]]
      by (auto simp: serial_ok_def disk_ok_def split: option.splits)
    with ser show ?thesis by (auto simp: engine_ok_def serial_ok_def)
  qed
  ultimately show ?thesis using Some by (auto simp: save_session_def Let_def split: option.splits prod.splits)
qed

text \<open>Without a disk cache a session is restored by a fresh prefill.\<close>

lemma load_session_ok:
  assumes K: "kv_backend (ee_B E) ok kv eval" and "engine_ok E ok kv kvs eval S s" and "en_cache s = None"
    and "load_session E i s = (Inr u, s1)"
  shows "engine_ok E ok kv kvs eval S s1"
proof -
  from assms(4) obtain tokens where t: "en_sessions s i = Some tokens" by (auto simp: load_session_def split: option.splits)
  show ?thesis
  proof (cases "tokens = []")
    case True
    with assms(4) t have s1: "s1 = s\<lparr>en_context_tokens := []\<rparr>" by (auto simp: load_session_def)
    from assms(2) show ?thesis unfolding s1 by (auto simp: engine_ok_def serial_ok_def parallel_ok_def hot_ok_def)
  next
    case False
    with t have "en_sessions s i \<notin> {None, Some []}" by simp
    then have "\<not> parallel_ok E kvs eval s" unfolding parallel_ok_def by blast
    then have ser: "serial_ok E ok kv S s" using assms(2) by (simp add: engine_ok_def)
    then have none: "en_scheduler s = None" by (simp add: serial_ok_def)
    with ser assms(3,4) t False obtain l b where d: "be_decode (ee_B E) (en_backend s) tokens = (Inr l, b)"
      and s1: "s1 = s\<lparr>en_backend := b, en_context_tokens := tokens\<rparr>"
      by (auto simp: load_session_def restore_session_def backend_of_def set_backend_def split: sum.splits prod.splits)
    from kv_backend.decode_kv [OF K d] ser show ?thesis by (simp add: s1 engine_ok_def serial_ok_def hot_ok_def)
  qed
qed


section \<open>What an engine keeps\<close>

lemma map_sum_eq_Inr: "map_sum f g x = Inr y \<longleftrightarrow> (\<exists>z. x = Inr z \<and> y = g z)"
  by (cases x) auto

lemma cached_prefill_keeps:
  "cached_prefill E disk p ts s = (r, s1) \<Longrightarrow> en_model_tag s1 = en_model_tag s \<and> en_arca s1 = en_arca s \<and> en_prefix_cache s1 = en_prefix_cache s"
  by (auto simp: cached_prefill_def split: option.splits prod.splits)

lemma run_tokens_keeps:
  assumes "run_tokens E disk tokens cb gen s = (r, d, s1)"
  shows "en_model_tag s1 = en_model_tag s \<and> en_arca s1 = en_arca s \<and> en_prefix_cache s1 = en_prefix_cache s"
proof -
  have classic: "en_model_tag s' = en_model_tag s \<and> en_arca s' = en_arca s \<and> en_prefix_cache s' = en_prefix_cache s" if "classic_prefill E disk tokens s = (q, s')" for q s'
    using that by (auto simp: classic_prefill_def Let_def split: if_splits option.splits sum.splits prod.splits dest: cached_prefill_keeps)
  have spec: "en_model_tag s' = en_model_tag s \<and> en_arca s' = en_arca s \<and> en_prefix_cache s' = en_prefix_cache s" if "decoder_prefill E disk tokens s = (q, s')" for q s'
    using that by (auto simp: decoder_prefill_def split: if_splits option.splits sum.splits prod.splits dest: cached_prefill_keeps)
  show ?thesis
    using assms
    by (auto simp: run_tokens_def parallel_generate_def decoder_generate_def classic_generate_def Let_def
        split: option.splits prod.splits sum.splits dest!: classic spec)
qed

lemma impl_keeps:
  "generate_stream_impl E disk prompt cb gen s = (r, ps, s1) \<Longrightarrow> en_model_tag s1 = en_model_tag s \<and> en_arca s1 = en_arca s \<and> en_prefix_cache s1 = en_prefix_cache s"
  by (auto simp: generate_stream_impl_def Let_def split: sum.splits if_splits prod.splits dest: run_tokens_keeps)

lemma generate_stream_keeps:
  "engine_generate_stream E disk prompt cb gen s = (r, ps, s1) \<Longrightarrow>
     en_model_tag s1 = en_model_tag s \<and> en_prefix_cache s1 = en_prefix_cache s"
  by (auto simp: engine_generate_stream_def Let_def split: option.splits if_splits prod.splits sum.splits dest: impl_keeps)

lemma prefetch_keeps [simp]:
  "en_model_tag (prefetch_prefix E prompt s) = en_model_tag s" "en_arca (prefetch_prefix E prompt s) = en_arca s"
  "en_prefix_cache (prefetch_prefix E prompt s) = en_prefix_cache s"
  by (auto simp: prefetch_prefix_def split: option.splits sum.splits)

lemma session_keeps [simp]:
  "en_model_tag (snd (create_session s)) = en_model_tag s" "en_model_tag (snd (save_session E w i s)) = en_model_tag s"
  "en_model_tag (snd (delete_session i s)) = en_model_tag s" "en_prefix_cache (snd (create_session s)) = en_prefix_cache s"
  "en_prefix_cache (snd (save_session E w i s)) = en_prefix_cache s" "en_prefix_cache (snd (delete_session i s)) = en_prefix_cache s"
  by (auto simp: create_session_def save_session_def delete_session_def Let_def split: option.splits prod.splits sum.splits)

lemma load_session_keeps: "load_session E i s = (r, s1) \<Longrightarrow> en_model_tag s1 = en_model_tag s \<and> en_prefix_cache s1 = en_prefix_cache s"
  by (auto simp: load_session_def restore_session_def set_backend_def Let_def
      split: option.splits prod.splits sum.splits if_splits)

lemma init_sets:
  "ReameEngine_init E c arca b d items f = Inr s \<Longrightarrow> en_model_tag s = ec_model_path c \<and>
     (ec_cache_dir c \<noteq> [] \<longrightarrow> en_prefix_cache s = Some (PrefixCache_init (ec_model_path c) (ec_cache_block_tokens c)))"
  by (auto simp: ReameEngine_init_def validate_def Let_def map_sum_eq_Inr split: sum.splits option.splits if_splits)

section \<open>Reachable engines\<close>

lemma engine_init_ok:
  assumes "ReameEngine_init E c arca (Some b) d items corpus_file = Inr s" and "be_context_length (ee_B E) < 2 ^ 32"
    and "\<And>i. kvs b i = []"
    and "ec_cache_dir c \<noteq> [] \<Longrightarrow> zstd_ok (ee_z E) \<and>
      collision_free (PrefixCache_init (ec_model_path c) (ec_cache_block_tokens c)) S"
    and "ec_cache_dir c \<noteq> [] \<Longrightarrow> cache_ok (ee_z E) (PrefixCache_init (ec_model_path c) (ec_cache_block_tokens c)) S (ee_B E) ok kv
      (CacheManager_open (ec_cache_max_mb c * 1024 * 1024 mod 2 ^ 64) (ec_cache_compress c) (256 * 1024 * 1024) items)"
  shows "engine_ok E ok kv kvs eval S s"
proof (cases "1 < ec_n_parallel c")
  case True
  with assms(1) obtain sc where sc: "Scheduler_init (ee_B E) b (ec_n_parallel c) = Inr sc" and s: "en_scheduler s = Some sc"
      "en_context_tokens s = []" "en_prefix_cache s = None" "en_cache s = None" "en_sessions s = Map.empty"
    by (auto simp: ReameEngine_init_def Let_def map_sum_eq_Inr split: sum.splits if_splits)
  have "sch_n_ctx sc = be_context_length (ee_B E)" using sc by (auto simp: Scheduler_init_def split: if_splits)
  with init_inv [where kvs = kvs, OF sc assms(2,3)] s show ?thesis by (auto simp: engine_ok_def parallel_ok_def)
next
  case False
  have s: "en_scheduler s = None" "en_context_tokens s = []"
    "en_prefix_cache s = (if ec_cache_dir c = [] then None else Some (PrefixCache_init (ec_model_path c) (ec_cache_block_tokens c)))"
    "en_cache s = (if ec_cache_dir c = [] then None else Some (CacheManager_open (ec_cache_max_mb c * 1024 * 1024 mod 2 ^ 64)
       (ec_cache_compress c) (256 * 1024 * 1024) items))"
    using assms(1) False
    by (auto simp: ReameEngine_init_def Let_def map_sum_eq_Inr split: sum.splits if_splits)
  show ?thesis
    using assms(4,5)
    by (auto simp: engine_ok_def serial_ok_def s hot_ok_def disk_ok_def PrefixCache_init_def)
qed

text \<open>
  The life of an engine: constructed over an empty cache directory, then any sequence of
  generations that return, session calls, prefetches, and restarts of the program on the directory of the engine
  before, for prompts in \<open>S\<close>. (\<open>warm\<close>, generations
  that throw and sessions restored from disk are left out: see the end of this theory.)
\<close>

inductive engine_reach :: "('b, 'd, 'r, 'a) engine_env \<Rightarrow> tokens set \<Rightarrow> engine_config \<Rightarrow> 'b \<Rightarrow> ('b, 'd, 'r, 'a) engine \<Rightarrow> bool"
  for E S c b where
  er_init: "ReameEngine_init E c arca (Some b) d [] corpus_file = Inr s \<Longrightarrow> engine_reach E S c b s"
| er_restart: "\<lbrakk>engine_reach E S c b s; ec_cache_dir c \<noteq> [] \<longrightarrow> (\<exists>m. en_cache s = Some m \<and> lists_directory (ds_files (cg_store m)) items);
    ReameEngine_init E c arca (Some b) d items corpus_file = Inr s'\<rbrakk> \<Longrightarrow> engine_reach E S c b s'"
| er_generate: "\<lbrakk>engine_reach E S c b s; \<And>tokens. prompt_tokens (ee_B E) prompt = Inr tokens \<Longrightarrow> in_use S tokens;
    engine_generate_stream E disk prompt (Some cb) gen s = (Inr u, pieces, s')\<rbrakk> \<Longrightarrow> engine_reach E S c b s'"
| er_create: "engine_reach E S c b s \<Longrightarrow> engine_reach E S c b (snd (create_session s))"
| er_save: "\<lbrakk>engine_reach E S c b s; length (en_context_tokens s) < 2 ^ 32\<rbrakk> \<Longrightarrow> engine_reach E S c b (snd (save_session E w i s))"
| er_load: "\<lbrakk>engine_reach E S c b s; en_cache s = None; load_session E i s = (Inr u, s')\<rbrakk> \<Longrightarrow> engine_reach E S c b s'"
| er_delete: "engine_reach E S c b s \<Longrightarrow> engine_reach E S c b (snd (delete_session i s))"
| er_prefetch: "engine_reach E S c b s \<Longrightarrow> engine_reach E S c b (prefetch_prefix E prompt s)"

lemma reach_keeps:
  "engine_reach E S c b s \<Longrightarrow> en_model_tag s = ec_model_path c \<and>
     (ec_cache_dir c \<noteq> [] \<longrightarrow> en_prefix_cache s = Some (PrefixCache_init (ec_model_path c) (ec_cache_block_tokens c)))"
  by (induction rule: engine_reach.induct) (auto dest: init_sets generate_stream_keeps load_session_keeps)

lemmas reach_tag = reach_keeps [THEN conjunct1]

text \<open>What the theorems assume of the world an engine lives in.\<close>

definition engine_world :: "('b, 'd, 'r, 'a) engine_env \<Rightarrow> ('b \<Rightarrow> bool) \<Rightarrow> ('b \<Rightarrow> tokens) \<Rightarrow> ('b \<Rightarrow> int \<Rightarrow> tokens) \<Rightarrow> (tokens \<Rightarrow> logits)
    \<Rightarrow> tokens set \<Rightarrow> engine_config \<Rightarrow> 'b \<Rightarrow> bool" where
  "engine_world E ok kv kvs eval S c b \<longleftrightarrow>
     kv_backend (ee_B E) ok kv eval \<and> isolated_seq_backend (ee_B E) kvs eval \<and> be_context_length (ee_B E) < 2 ^ 32 \<and>
     (\<forall>i. kvs b i = []) \<and>
     (ec_cache_dir c \<noteq> [] \<longrightarrow> zstd_ok (ee_z E) \<and>
        collision_free (PrefixCache_init (ec_model_path c) (ec_cache_block_tokens c)) S)"

lemma engine_reach_ok:
  assumes "engine_world E ok kv kvs eval S c b"
  shows "engine_reach E S c b s \<Longrightarrow> engine_ok E ok kv kvs eval S s"
proof (induction rule: engine_reach.induct)
  case (er_init arca d corpus_file s)
  show ?case
    by (rule engine_init_ok [OF er_init]) (use assms cache_ok_fresh in \<open>auto simp: engine_world_def\<close>)
next
  case (er_restart s items arca d corpus_file s')
  have "cache_ok (ee_z E) (PrefixCache_init (ec_model_path c) (ec_cache_block_tokens c)) S (ee_B E) ok kv
      (CacheManager_open (ec_cache_max_mb c * 1024 * 1024 mod 2 ^ 64) (ec_cache_compress c) (256 * 1024 * 1024) items)"
    if dir: "ec_cache_dir c \<noteq> []"
  proof -
    from er_restart.hyps(2) dir obtain m where m: "en_cache s = Some m" "lists_directory (ds_files (cg_store m)) items" by blast
    have "en_prefix_cache s = Some (PrefixCache_init (ec_model_path c) (ec_cache_block_tokens c))"
      using reach_keeps [OF er_restart.hyps(1)] dir by simp
    with er_restart.IH m(1) have "cache_ok (ee_z E) (PrefixCache_init (ec_model_path c) (ec_cache_block_tokens c)) S (ee_B E) ok kv m"
      by (auto simp: engine_ok_def serial_ok_def parallel_ok_def disk_ok_def)
    from cache_ok_reopen [OF this m(2)] show ?thesis .
  qed
  with er_restart.hyps(3) assms show ?case by (auto simp: engine_world_def intro: engine_init_ok)
next
  case (er_generate s prompt disk cb gen u pieces s')
  then show ?case
    using assms engine_generate_stream_ok [of E ok kv eval kvs S s prompt disk cb gen u pieces s']
    unfolding engine_world_def by blast
next
  case (er_load s i u s')
  then show ?case using assms load_session_ok unfolding engine_world_def by blast
qed (simp_all add: create_session_ok save_session_ok delete_session_ok prefetch_prefix_ok)


section \<open>A concrete engine\<close>

text \<open>One serial engine over a model that always prefers token 7, asked for one token.\<close>

definition serve_env :: "(ref_ctx RealLlamaBackend, unit, nat, bytes \<rightharpoonup> bytes) engine_env" where
  "serve_env = \<lparr>ee_B = sched_backend, ee_D = None, ee_uniform = (\<lambda>n. (1 / 2, Suc n)), ee_seed = (\<lambda>_. 0), ee_accept_seed = (\<lambda>_. 0),
     ee_z = no_zstd, ee_hash = checksum, ee_arca = \<lparr>ac_get = (\<lambda>a k. (a k, a)), ac_set = (\<lambda>a k v. a(k \<mapsto> v))\<rparr>\<rparr>"

definition serve_config :: engine_config where
  "serve_config = \<lparr>ec_model_path = ''m.gguf'', ec_draft_model_path = [], ec_n_ctx = 16, ec_n_threads = 1, ec_use_mmap = True,
     ec_use_mlock = False, ec_kv_cache_type = ''f16'', ec_n_ubatch = 0, ec_use_speculative = True, ec_use_prompt_lookup = False,
     ec_draft_tokens = 16, ec_use_corpus = True, ec_spec_disable_after_drafted = 64, ec_spec_disable_below_acceptance = 3 / 20,
     ec_cache_dir = [], ec_cache_max_mb = 512, ec_cache_compress = True, ec_cache_block_tokens = 256, ec_n_parallel = 1,
     ec_verbose = False\<rparr>"

definition serve_engine :: "(ref_ctx RealLlamaBackend, unit, nat, bytes \<rightharpoonup> bytes) engine" where
  "serve_engine = \<lparr>en_backend = sched_b0, en_draft = (), en_decoder = None, en_cache = None, en_prefix_cache = None, en_corpus = None,
     en_model_tag = ''m.gguf'', en_arca = Some Map.empty, en_scheduler = None, en_context_tokens = [], en_sessions = Map.empty,
     en_next_session_id = 1\<rparr>"

lemma serve_engine_init:
  "ReameEngine_init serve_env serve_config (Some Map.empty) (Some sched_b0) () [] None = Inr serve_engine"
  by (simp add: ReameEngine_init_def validate_def serve_config_def serve_env_def serve_engine_def)

lemma serve_world: "engine_world serve_env (real_ok ref_cells) (\<lambda>b. ref_cells (rb_ctx b) 0) (\<lambda>b. ref_cells (rb_ctx b))
    (\<lambda>_. one_hot 256 7) S serve_config sched_b0"
  using sched_backend_ok sched_b0_empty
  by (auto simp: engine_world_def serve_env_def serve_config_def sched_backend_def sched_backend_ctx [unfolded sched_backend_def]
      intro: real_backend_kv [OF ref_llama_ok])

lemma serve_greedy: "greedy_world serve_env (\<lambda>_. one_hot 256 7) sched_gen"
  by (simp add: greedy_world_def serve_env_def sched_gen_def sched_backend_def real_backend_def ref_llama_def)

lemma serve_prompt: "prompt_tokens sched_backend ''a'' = Inr [97]"
  by (simp add: prompt_tokens_def sched_backend_def real_backend_def real_tokenize_def ref_llama_def)

lemma serve_piece: "be_token_piece sched_backend 7 = Inr [CHR 0x07]"
proof -
  have "char_of (7 :: nat) = CHR 0x07" by code_simp
  then show ?thesis by (simp add: sched_backend_def real_backend_def real_token_piece_def ref_llama_def)
qed

definition serve_b1 :: "ref_ctx RealLlamaBackend" where
  "serve_b1 = \<lparr>rb_ctx = \<lparr>rc_seqs = [[97]], rc_logits = [one_hot 256 7]\<rparr>, rb_n_past = 1\<rparr>"

lemma serve_decode: "be_decode sched_backend b [97] = (Inr (one_hot 256 7), serve_b1)"
  by (simp add: sched_backend_def real_backend_def real_decode_def decode_impl_def real_reset_def ref_llama_def serve_b1_def
      single_batch_def ref_decode_def placed_def batch_tokens_def ref_cells_def ref_update_def)

text \<open>A greedy request for one token. A penalty on the only token of the prompt changes nothing: its logit is 0.\<close>

definition one_token :: "GenerationConfig \<Rightarrow> bool" where
  "one_token gen \<longleftrightarrow> gc_max_tokens gen = 1 \<and> gc_temperature gen \<le> 0 \<and> \<not> gc_echo_prompt gen"

lemma one_token_sched_gen: "one_token sched_gen"
  by (simp add: one_token_def sched_gen_def)

lemma serve_sample:
  assumes "one_token gen"
  shows "sample uniform gen (one_hot 256 7) [97] rng = (Inr 7, rng)"
proof -
  have "one_hot 256 7 ! 97 = 0" by (simp add: one_hot_def)
  then have same: "repeat_penalty gen (one_hot 256 7) [97] = one_hot 256 7"
    by (simp add: repeat_penalty_def penalise_token_def Let_def list_update_same_conv min_def)
  have ne: "one_hot 256 7 \<noteq> []" by (metis length_0_conv length_one_hot zero_neq_numeral)
  show ?thesis
    using assms by (subst sample_greedy [OF _ ne]) (simp_all add: one_token_def greedy_token_def same argmax_one_hot)
qed

lemma serve_loop:
  assumes "one_token gen"
  shows "classic_loop sched_backend uniform gen (token_cb sched_backend [] (\<lambda>_. Inr True)) (Suc 0) (one_hot 256 7) [97] [] rng b =
    (Inr (), [7], [97, 7], b)"
  by (simp add: serve_sample [OF assms] token_cb_def serve_piece) (simp add: sched_backend_def real_backend_def ref_llama_def)

text \<open>Any cold serial engine over that model answers \<open>a\<close> the same way.\<close>

lemma cold_generate:
  assumes e: "ee_B E = sched_backend" "en_scheduler s = None" "en_decoder s = None" "en_context_tokens s = []" "en_prefix_cache s = None"
    and g: "one_token gen"
  shows "generate_stream_impl E disk ''a'' (\<lambda>_. Inr True) gen s =
    (Inr (), [[CHR 0x07]], s\<lparr>en_backend := serve_b1, en_context_tokens := [97, 7]\<rparr>)"
proof -
  have n: "gc_echo_prompt gen = False" "nat (gc_max_tokens gen) = Suc 0" using g by (simp_all add: one_token_def)
  have p: "classic_prefill E disk [97] s = (Inr (one_hot 256 7), s\<lparr>en_backend := serve_b1\<rparr>)"
    by (simp add: classic_prefill_def e estende_def serve_decode)
  show ?thesis
    by (simp add: generate_stream_impl_def run_tokens_def classic_generate_def e n serve_prompt p serve_loop [OF g]
        pieces_of_def serve_piece List.map_filter_def del: classic_loop.simps)
qed

lemma serve_generate:
  "generate_stream_impl serve_env disk ''a'' (\<lambda>_. Inr True) sched_gen serve_engine =
    (Inr (), [[CHR 0x07]], serve_engine\<lparr>en_backend := serve_b1, en_context_tokens := [97, 7]\<rparr>)"
  by (rule cold_generate) (simp_all add: serve_env_def serve_engine_def one_token_sched_gen)

lemma impl_greedy:
  assumes "kv_backend (ee_B E) ok kv eval" and "isolated_seq_backend (ee_B E) kvs eval" and "engine_ok E ok kv kvs eval S s"
    and "prompt_tokens (ee_B E) prompt = Inr tokens" and "in_use S tokens" and "length tokens < be_context_length (ee_B E)"
    and "1 \<le> gc_max_tokens gen" and "greedy_world E eval gen" and "\<not> gc_echo_prompt gen"
    and "generate_stream_impl E disk prompt cb gen s = (Inr u, pieces, s1)"
  shows "pieces = pieces_of (ee_B E) (greedy_ref gen eval (be_is_eog (ee_B E)) (token_cb (ee_B E) [] cb)
    (be_context_length (ee_B E)) (max_out gen) tokens [])"
proof -
  obtain r d s2 where run: "run_tokens E disk tokens (token_cb (ee_B E) [] cb) gen s = (r, d, s2)" using prod_cases3 by blast
  with assms(4,9,10) have "r = Inr u" "pieces = pieces_of (ee_B E) d" by (auto simp: generate_stream_impl_def)
  with run_tokens_ok [OF assms(1-3,5) run [unfolded this(1)]] assms(6-8) show ?thesis by simp
qed

section \<open>The Conclave's tally\<close>

text \<open>
  The texts deposited so far are \<open>D\<close>; every tally counts texts that are there, and a winner has
  an absolute majority.
\<close>

definition tally_inv :: "int \<Rightarrow> (nat \<rightharpoonup> bytes) \<Rightarrow> best_state \<Rightarrow> bool" where
  "tally_inv n D t \<longleftrightarrow>
     length (bs_outs t) = nat n \<and> (\<forall>i<nat n. bs_outs t ! i = (case D i of None \<Rightarrow> [] | Some x \<Rightarrow> x)) \<and>
     (\<forall>m. m \<noteq> [] \<longrightarrow> bs_tally t m \<le> votes_of (map final_number (bs_outs t)) m) \<and>
     (0 \<le> bs_winner t \<longrightarrow> bs_stop t \<and> nat (bs_winner t) < nat n \<and> D (nat (bs_winner t)) \<noteq> None \<and>
        (let m = final_number (bs_outs t ! nat (bs_winner t)) in m \<noteq> [] \<and> n < 2 * int (bs_tally t m)))"

lemma final_number_Nil [simp]: "final_number [] = []"
  by (simp add: final_number_def final_loop.simps)

lemma votes_of_update:
  assumes "i < length ns" and "ns ! i = []" and "m \<noteq> []"
  shows "votes_of (ns[i := x]) m = votes_of ns m + (if x = m then 1 else 0)"
proof -
  have ns: "ns = take i ns @ [] # drop (Suc i) ns" using assms(1,2) by (metis id_take_nth_drop)
  have up: "ns[i := x] = take i ns @ x # drop (Suc i) ns" using assms(1) by (rule upd_conv_take_nth_drop)
  show ?thesis unfolding up by (subst (3) ns) (use assms(3) in \<open>simp add: votes_of_def\<close>)
qed

lemma deposit_inv:
  assumes "tally_inv n D t" and "i < nat n" and "D i = None"
  shows "tally_inv n (D(i \<mapsto> out)) (deposit n (i, out) t)"
proof -
  let ?outs = "(bs_outs t)[i := out]" and ?m = "final_number out"
  have len: "length (bs_outs t) = nat n" and at: "\<And>j. j < nat n \<Longrightarrow> bs_outs t ! j = (case D j of None \<Rightarrow> [] | Some x \<Rightarrow> x)"
    and tal: "\<And>m. m \<noteq> [] \<Longrightarrow> bs_tally t m \<le> votes_of (map final_number (bs_outs t)) m"
    using assms(1) by (simp_all add: tally_inv_def)
  have empty: "map final_number (bs_outs t) ! i = []" using assms(2,3) at len by simp
  have outs: "\<forall>j<nat n. ?outs ! j = (case (D(i \<mapsto> out)) j of None \<Rightarrow> [] | Some x \<Rightarrow> x)"
    using at assms(2) len by (simp add: nth_list_update)
  have votes: "votes_of (map final_number ?outs) m = votes_of (map final_number (bs_outs t)) m + (if ?m = m then 1 else 0)"
    if "m \<noteq> []" for m
    using votes_of_update [OF _ empty that] assms(2) len by (simp add: map_update)
  have win: "bs_stop t \<and> nat (bs_winner t) < nat n \<and> nat (bs_winner t) \<noteq> i \<and> D (nat (bs_winner t)) \<noteq> None \<and>
      (let m = final_number (bs_outs t ! nat (bs_winner t)) in m \<noteq> [] \<and> n < 2 * int (bs_tally t m))" if "0 \<le> bs_winner t"
    using assms(1,3) that unfolding tally_inv_def by metis
  consider (silent) "bs_stop t \<or> ?m = []" | (vote) "\<not> bs_stop t" "?m \<noteq> []" by blast
  then show ?thesis
  proof cases
    case silent
    then have "bs_outs (deposit n (i, out) t) = ?outs" "bs_tally (deposit n (i, out) t) = bs_tally t"
      "bs_stop (deposit n (i, out) t) = bs_stop t" "bs_winner (deposit n (i, out) t) = bs_winner t" by (simp_all add: deposit_def)
    note fields = this
    have "\<And>m. m \<noteq> [] \<Longrightarrow> bs_tally t m \<le> votes_of (map final_number ?outs) m" using votes tal by (simp add: le_SucI)
    moreover have "0 \<le> bs_winner t \<longrightarrow> bs_stop t \<and> nat (bs_winner t) < nat n \<and> (D(i \<mapsto> out)) (nat (bs_winner t)) \<noteq> None \<and>
      (let m = final_number (?outs ! nat (bs_winner t)) in m \<noteq> [] \<and> n < 2 * int (bs_tally t m))"
      using win by (metis fun_upd_other nth_list_update_neq)
    moreover have "length ?outs = nat n" using len by simp
    ultimately show ?thesis unfolding tally_inv_def fields using outs by blast
  next
    case vote
    let ?tal = "(bs_tally t)(?m := Suc (bs_tally t ?m))"
    have d: "deposit n (i, out) t = (let t2 = t\<lparr>bs_outs := ?outs, bs_tally := ?tal\<rparr>
      in if n < 2 * int (?tal ?m) then t2\<lparr>bs_winner := int i, bs_stop := True\<rparr> else t2)"
      using vote by (simp add: deposit_def Let_def)
    have "\<not> 0 \<le> bs_winner t" using win vote(1) by blast
    then show ?thesis
      unfolding d using len outs votes tal vote assms(2) by (auto simp: tally_inv_def Let_def)
  qed
qed

lemma threads_loop_inv:
  "\<lbrakk>tally_inv n D t; distinct (map fst rs); \<forall>c\<in>set rs. fst c < nat n \<and> D (fst c) = None; threads_loop n rs t errs = (t', errs')\<rbrakk> \<Longrightarrow>
   \<exists>D'. tally_inv n D' t' \<and> (\<forall>i. errs' i = (case map_of rs i of Some (Inl x) \<Rightarrow> Some x | _ \<Rightarrow> errs i)) \<and>
     (\<forall>i. D' i = (case map_of rs i of Some (Inr out) \<Rightarrow> Some out | _ \<Rightarrow> D i))"
proof (induction n rs t errs arbitrary: D rule: threads_loop.induct)
  case (2 n i x rest t errs)
  have "\<exists>D'. tally_inv n D' t' \<and> (\<forall>j. errs' j = (case map_of rest j of Some (Inl x) \<Rightarrow> Some x | _ \<Rightarrow> (errs(i \<mapsto> x)) j)) \<and>
     (\<forall>j. D' j = (case map_of rest j of Some (Inr out) \<Rightarrow> Some out | _ \<Rightarrow> D j))"
    by (rule 2(1) [OF 2(2) _ _ 2(5) [unfolded threads_loop.simps]]) (use 2(3,4) in simp_all)
  then obtain D' where D': "tally_inv n D' t'" "\<And>j. errs' j = (case map_of rest j of Some (Inl x) \<Rightarrow> Some x | _ \<Rightarrow> (errs(i \<mapsto> x)) j)"
     "\<And>j. D' j = (case map_of rest j of Some (Inr out) \<Rightarrow> Some out | _ \<Rightarrow> D j)" by blast
  have new: "map_of rest i = None" using 2(3) by (simp add: map_of_eq_None_iff)
  show ?case
  proof (intro exI conjI allI)
    show "tally_inv n D' t'" by (rule D'(1))
    show "errs' j = (case map_of ((i, Inl x) # rest) j of Some (Inl x) \<Rightarrow> Some x | _ \<Rightarrow> errs j)" for j
      using new D'(2) [of j] by (auto split: option.splits sum.splits)
    show "D' j = (case map_of ((i, Inl x) # rest) j of Some (Inr out) \<Rightarrow> Some out | _ \<Rightarrow> D j)" for j
      using new D'(3) [of j] by (auto split: option.splits sum.splits)
  qed
next
  case (3 n i out rest t errs)
  have new: "map_of rest i = None" using 3(3) by (simp add: map_of_eq_None_iff)
  have "tally_inv n (D(i \<mapsto> out)) (deposit n (i, out) t)" using deposit_inv [OF 3(2)] 3(4) by simp
  moreover have "\<forall>c\<in>set rest. fst c < nat n \<and> (D(i \<mapsto> out)) (fst c) = None" using 3(3,4) by (auto simp: image_iff)
  moreover have "distinct (map fst rest)" using 3(3) by simp
  moreover note 3(5) [unfolded threads_loop.simps]
  ultimately obtain D' where D': "tally_inv n D' t'" "\<And>j. errs' j = (case map_of rest j of Some (Inl x) \<Rightarrow> Some x | _ \<Rightarrow> errs j)"
     "\<And>j. D' j = (case map_of rest j of Some (Inr out) \<Rightarrow> Some out | _ \<Rightarrow> (D(i \<mapsto> out)) j)" using 3(1) by blast
  show ?case
  proof (intro exI conjI allI)
    show "tally_inv n D' t'" by (rule D'(1))
    show "errs' j = (case map_of ((i, Inr out) # rest) j of Some (Inl x) \<Rightarrow> Some x | _ \<Rightarrow> errs j)" for j
      using new D'(2) [of j] by (auto split: option.splits sum.splits)
    show "D' j = (case map_of ((i, Inr out) # rest) j of Some (Inr out) \<Rightarrow> Some out | _ \<Rightarrow> D j)" for j
      using new D'(3) [of j] by (auto split: option.splits sum.splits)
  qed
qed auto

lemma best_init_inv: "tally_inv n Map.empty (best_init n)"
  by (simp add: tally_inv_def best_init_def)

text \<open>The verdict agrees with the full election, early or not.\<close>

lemma verdict_elects:
  assumes "tally_inv n D t" and "0 < n"
  shows "\<exists>w<nat n. fst (verdict t) = bs_outs t ! w \<and>
    final_number (bs_outs t ! w) = final_number (bs_outs t ! elect_numeric (bs_outs t))"
proof (cases "0 \<le> bs_winner t")
  case True
  let ?w = "nat (bs_winner t)" and ?ns = "map final_number (bs_outs t)"
  let ?m = "final_number (bs_outs t ! ?w)"
  have w: "?w < nat n" "?m \<noteq> []" "n < 2 * int (bs_tally t ?m)" and len: "length (bs_outs t) = nat n"
    using assms(1) True unfolding tally_inv_def Let_def by blast+
  have "bs_tally t ?m \<le> votes_of ?ns ?m" using assms(1) w(2) unfolding tally_inv_def by blast
  moreover have "int (nat n) < int (2 * bs_tally t ?m)" using w(3) assms(2) by simp
  then have "nat n < 2 * bs_tally t ?m" by (simp only: of_nat_less_iff)
  ultimately have "length (bs_outs t) < 2 * votes_of ?ns ?m" using len by linarith
  from elect_numeric_majority [OF w(2) this] have "final_number (bs_outs t ! elect_numeric (bs_outs t)) = ?m" by simp
  with True w(1) show ?thesis by (intro exI [of _ ?w]) (simp add: verdict_def Let_def)
next
  case False
  have len: "length (bs_outs t) = nat n" using assms(1) unfolding tally_inv_def by blast
  then have "elect_numeric (bs_outs t) < nat n" using assms(2) elect_numeric_less [of "bs_outs t"] by fastforce
  with False show ?thesis by (auto simp: verdict_def Let_def)
qed

section \<open>Properties\<close>



text \<open>
  C8. Without speculation the same holds at any temperature: an engine in any reachable state
  hands over exactly the tokens, and ends exactly the way, of sampling from the model's logits
  of the whole conversation with the sampler seeded by the request, whether it continues a
  conversation, restores snapshots, shares batches or starts cold. When the backend or the
  cache fails, it has handed over a prefix of them.
\<close>

theorem sampling_matches_model:
  assumes "engine_world E ok kv kvs eval S c b" and "engine_reach E S c b s" and "en_decoder s = None"
    and "in_use S tokens" and "1 \<le> gc_max_tokens gen" and "run_tokens E disk tokens cb gen s = (r, d, s1)"
  defines "ref \<equiv> classic_ref (ee_uniform E) eval (be_is_eog (ee_B E)) (be_context_length (ee_B E)) gen cb
    (nat (gc_max_tokens gen)) tokens [] (ee_seed E (gc_seed gen))"
  shows "(\<exists>k. d = take k (snd ref)) \<and> (r = Inr () \<longrightarrow> ref = (Inr (), d))"
proof -
  have K: "kv_backend (ee_B E) ok kv eval" and I: "isolated_seq_backend (ee_B E) kvs eval"
    using assms(1) unfolding engine_world_def by blast+
  from engine_reach_ok [OF assms(1,2)] consider (ser) "serial_ok E ok kv S s" | (par) "parallel_ok E kvs eval s"
    by (auto simp: engine_ok_def)
  then show ?thesis
  proof cases
    case ser
    then have "classic_generate E disk tokens cb gen s = (r, d, s1)"
      using assms(3,6) by (simp add: run_tokens_def serial_ok_def)
    from kv_backend.classic_generate_ok [OF K refl ser assms(4) this] show ?thesis unfolding ref_def by blast
  next
    case par
    then obtain sc where sc: "en_scheduler s = Some sc" by (auto simp: parallel_ok_def)
    with assms(6) have "parallel_generate E sc tokens cb gen s = (r, d, s1)" by (simp add: run_tokens_def)
    from parallel_generate_ok [OF I par sc this] assms(5) show ?thesis unfolding ref_def by blast
  qed
qed

theorem sampling_matches_model_witness:
  "\<exists>r d s1 k. run_tokens serve_env (\<lambda>_. True) [97] (\<lambda>_. Inr True) sched_gen serve_engine = (r, d, s1) \<and>
    d = take k (snd (classic_ref (ee_uniform serve_env) (\<lambda>_. one_hot 256 7) (be_is_eog sched_backend) 16 sched_gen (\<lambda>_. Inr True)
      (nat (gc_max_tokens sched_gen)) [97] [] (ee_seed serve_env (gc_seed sched_gen))))"
proof -
  have r: "engine_reach serve_env {[]} serve_config sched_b0 serve_engine" by (rule er_init [OF serve_engine_init])
  have B: "ee_B serve_env = sched_backend" "en_decoder serve_engine = None" by (simp_all add: serve_env_def serve_engine_def)
  have u: "in_use {[]} [97]" "1 \<le> gc_max_tokens sched_gen" by (simp_all add: in_use_def sched_gen_def)
  obtain x d s1 where run: "run_tokens serve_env (\<lambda>_. True) [97] (\<lambda>_. Inr True) sched_gen serve_engine = (x, d, s1)"
    using prod_cases3 by blast
  from sampling_matches_model [OF serve_world r B(2) u run] run show ?thesis unfolding B sched_backend_ctx by blast
qed

text \<open>
  Sessions come back: a session saved by an engine without a disk cache and loaded later,
  whatever happened between, brings back the conversation it was saved with, and the KV cache
  holds exactly that conversation.
\<close>

theorem session_roundtrip:
  assumes "kv_backend (ee_B E) ok kv eval" and "save_session E w i s = (Inr u, s1)" and "en_sessions s2 i = en_sessions s1 i"
    and "en_cache s2 = None" and "en_scheduler s2 = None" and "load_session E i s2 = (Inr v, s3)"
  shows "en_context_tokens s3 = en_context_tokens s \<and>
    (en_context_tokens s \<noteq> [] \<longrightarrow> ok (en_backend s3) \<and> kv (en_backend s3) = en_context_tokens s)"
proof -
  have t: "en_sessions s2 i = Some (en_context_tokens s)"
    using assms(2,3) by (auto simp: save_session_def Let_def split: option.splits if_splits prod.splits)
  show ?thesis
  proof (cases "en_context_tokens s = []")
    case True
    with assms(6) t show ?thesis by (auto simp: load_session_def)
  next
    case False
    with assms(4-6) t obtain l b where d: "be_decode (ee_B E) (en_backend s2) (en_context_tokens s) = (Inr l, b)"
      and s3: "s3 = s2\<lparr>en_backend := b, en_context_tokens := en_context_tokens s\<rparr>"
      by (auto simp: load_session_def restore_session_def backend_of_def set_backend_def split: sum.splits prod.splits)
    from kv_backend.decode_kv [OF assms(1) d] show ?thesis by (simp add: s3)
  qed
qed


theorem session_roundtrip_witness:
  "\<exists>s1 s3. save_session serve_env True ''sess-1'' (serve_engine\<lparr>en_context_tokens := [97], en_sessions := [''sess-1'' \<mapsto> []]\<rparr>) = (Inr (), s1) \<and>
    load_session serve_env ''sess-1'' (s1\<lparr>en_context_tokens := []\<rparr>) = (Inr (), s3) \<and>
    en_context_tokens s3 = [97] \<and> ref_cells (rb_ctx (en_backend s3)) 0 = [97]"
proof -
  let ?s = "serve_engine\<lparr>en_context_tokens := [97], en_sessions := [''sess-1'' \<mapsto> []]\<rparr>"
  let ?s1 = "?s\<lparr>en_sessions := [''sess-1'' \<mapsto> [97]]\<rparr>"
  let ?s2 = "?s1\<lparr>en_context_tokens := []\<rparr>"
  let ?s3 = "?s2\<lparr>en_backend := serve_b1, en_context_tokens := [97]\<rparr>"
  have sv: "save_session serve_env True ''sess-1'' ?s = (Inr (), ?s1)"
    by (simp add: save_session_def Let_def serve_engine_def)
  have ld: "load_session serve_env ''sess-1'' ?s2 = (Inr (), ?s3)"
    using serve_decode by (simp add: load_session_def restore_session_def backend_of_def set_backend_def serve_engine_def serve_env_def)
  have K: "kv_backend (ee_B serve_env) (real_ok ref_cells) (\<lambda>b. ref_cells (rb_ctx b) 0) (\<lambda>_. one_hot 256 7)"
    using serve_world [of "{[]}"] unfolding engine_world_def by blast
  have n: "en_cache ?s2 = None" "en_scheduler ?s2 = None" "en_sessions ?s2 ''sess-1'' = en_sessions ?s1 ''sess-1''"
    by (simp_all add: serve_engine_def)
  from session_roundtrip [OF K sv n(3,1,2) ld] sv ld show ?thesis by auto
qed

text \<open>
  C12. The early verdict cannot be overturned: when the candidates of the Conclave run on threads
  and end in any order, the answer that is returned, early or not, is one of the candidates'
  texts, and it concludes with the same number as the winner of an election over all the
  texts; in particular with any number that more than half of the texts conclude with. It is
  returned exactly when no candidate threw.
\<close>

theorem early_verdict_is_final:
  assumes "0 < n" and "distinct (map fst results)" and "fst ` set results = {..<nat n}"
  shows "case best_parallel n results of
      Inl x \<Rightarrow> \<exists>i<nat n. (i, Inl x) \<in> set results
    | Inr (out, votes) \<Rightarrow>
        \<exists>outs. length outs = nat n \<and> (\<forall>i<nat n. (i, Inr (outs ! i)) \<in> set results) \<and> out \<in> set outs \<and>
          final_number out = final_number (outs ! elect_numeric outs) \<and>
          (\<forall>m. m \<noteq> [] \<and> nat n < 2 * votes_of (map final_number outs) m \<longrightarrow> final_number out = m)"
proof -
  obtain t errs where l: "threads_loop n results (best_init n) Map.empty = (t, errs)" by fastforce
  from threads_loop_inv [OF best_init_inv assms(2) _ l] assms(3) obtain D where D: "tally_inv n D t"
    "\<And>i. errs i = (case map_of results i of Some (Inl x) \<Rightarrow> Some x | _ \<Rightarrow> None)"
    "\<And>i. D i = (case map_of results i of Some (Inr out) \<Rightarrow> Some out | _ \<Rightarrow> None)"
    by fastforce
  show ?thesis
  proof (cases "List.map_filter errs [0..<nat n]")
    case (Cons x xs)
    then have "x \<in> set (List.map_filter errs [0..<nat n])" by simp
    then obtain i where "i < nat n" "errs i = Some x" by (auto simp: List.map_filter_def)
    moreover then have "map_of results i = Some (Inl x)" using D(2) [of i] by (auto split: option.splits sum.splits)
    ultimately show ?thesis using l Cons by (auto simp: best_parallel_def dest: map_of_SomeD)
  next
    case Nil
    have text_of: "(i, Inr (bs_outs t ! i)) \<in> set results" if i: "i < nat n" for i
    proof -
      have "errs i = None" using Nil i by (auto simp: List.map_filter_def filter_empty_conv)
      moreover obtain r where "map_of results i = Some r" using assms(3) i by (metis lessThan_iff map_of_eq_None_iff not_None_eq)
      ultimately obtain out where out: "map_of results i = Some (Inr out)" using D(2) [of i] by (auto split: sum.splits)
      then have "bs_outs t ! i = out" using D(1) D(3) [of i] i unfolding tally_inv_def by simp
      with out show ?thesis by (auto dest: map_of_SomeD)
    qed
    have len: "length (bs_outs t) = nat n" using D(1) unfolding tally_inv_def by blast
    obtain w where w: "w < nat n" "fst (verdict t) = bs_outs t ! w"
      "final_number (bs_outs t ! w) = final_number (bs_outs t ! elect_numeric (bs_outs t))"
      using verdict_elects [OF D(1) assms(1)] by blast
    have maj: "final_number (fst (verdict t)) = m" if "m \<noteq> []" "nat n < 2 * votes_of (map final_number (bs_outs t)) m" for m
      using elect_numeric_majority [OF that(1), of "bs_outs t"] that(2) len w(2,3) by simp
    have "fst (verdict t) \<in> set (bs_outs t)" using w(1,2) len by simp
    with len text_of w(2,3) maj show ?thesis
      by (auto simp: best_parallel_def l Nil split: prod.split intro!: exI [of _ "bs_outs t"])
  qed
qed


theorem early_verdict_is_final_witness:
  "case best_parallel 3 [(2, Inr ''it is 42''), (0, Inr ''7''), (1, Inr ''42'')] of
     Inl x \<Rightarrow> False | Inr (out, votes) \<Rightarrow> final_number out = ''42''"
proof -
  let ?rs = "[(2, Inr ''it is 42''), (0, Inr ''7''), (1, Inr ''42'')] :: (nat \<times> (engine_exn + bytes)) list"
  have n: "final_number ''it is 42'' = ''42''" "final_number ''7'' = ''7''" "final_number ''42'' = ''42''"
    using final_number_digits [of "''42''" "''it is ''"] final_number_digits [of "''7''" "[]"]
      final_number_digits [of "''42''" "[]"] by (simp_all add: isdigit_def breaks_number_def)
  have "fst ` set ?rs = {..<nat 3}" by auto
  note v = early_verdict_is_final [OF _ _ this]
  show ?thesis
  proof (cases "best_parallel 3 ?rs")
    case (Inl x)
    with v show ?thesis by simp
  next
    case (Inr y)
    obtain out votes where y: "y = (out, votes)" by fastforce
    from v Inr y obtain outs where outs: "length outs = 3" "\<And>i. i < 3 \<Longrightarrow> (i, Inr (outs ! i)) \<in> set ?rs"
      and m: "\<And>m. m \<noteq> [] \<Longrightarrow> 3 < 2 * votes_of (map final_number outs) m \<Longrightarrow> final_number out = m" by auto
    have "outs ! 0 = ''7''" "outs ! 1 = ''42''" "outs ! 2 = ''it is 42''" using outs(2) [of 0] outs(2) [of 1] outs(2) [of 2] by auto
    moreover have "outs = [outs ! 0, outs ! 1, outs ! 2]"
      using outs(1) by (intro nth_equalityI) (auto simp: less_Suc_eq numeral_3_eq_3 numeral_2_eq_2)
    ultimately have "outs = [''7'', ''42'', ''it is 42'']" by simp
    with m [of "''42''"] n Inr y show ?thesis by (simp add: votes_of_def)
  qed
qed

text \<open>
  C26. Warming can silently change a later answer. The guard of the hot continuation compares the
  position counter with the length of the remembered conversation, and \<open>warm\<close> changes the KV
  cache but not that conversation: after warming a prompt with as many tokens as the
  conversation has, the next request that extends the conversation is decoded on top of the
  warmed prompt, and its first token is sampled from the logits of the wrong text.
\<close>

theorem warm_misleads_continuation:
  assumes "kv_backend (ee_B E) ok kv eval" and "serial_ok E ok kv S s" and "en_prefix_cache s = Some p"
    and "prompt_tokens (ee_B E) prompt = Inr ws" and "ws \<in> S" and "length ws < 2 ^ 32"
    and "warm E disk prompt s = (Inr n, s1)" and "length ws = length (en_context_tokens s)" and "tail \<noteq> []"
    and "classic_prefill E disk' (en_context_tokens s @ tail) s1 = (Inr l, s2)"
  shows "l = eval (ws @ tail)"
proof -
  from assms(3,4,7) obtain k where c: "cached_prefill E disk p ws s = (Inr k, s1)"
    by (auto simp: warm_def split: sum.splits prod.splits)
  have d: "disk_ok E ok kv S (en_prefix_cache s) (en_cache s)" using assms(2) by (simp add: serial_ok_def)
  from kv_backend.cached_prefill_ok [OF assms(1) refl d assms(3,5,6) c]
  have s1: "en_context_tokens s1 = en_context_tokens s" "ok (en_backend s1)" "kv (en_backend s1) = ws" by blast+
  have ne: "ws \<noteq> []" using assms(4) by (auto simp: prompt_tokens_def split: sum.splits if_splits)
  have "be_n_past (ee_B E) (en_backend s1) = length ws" using kv_backend.n_past_kv [OF assms(1) s1(2)] s1(3) by simp
  then have "estende (ee_B E) (en_context_tokens s1) (en_context_tokens s @ tail) (en_backend s1)"
    using s1(1) assms(8,9) ne by (auto simp: estende_def)
  with assms(10) s1(1) obtain b where "be_decode_append (ee_B E) (en_backend s1) tail = (Inr l, b)"
    by (cases "be_decode_append (ee_B E) (en_backend s1) tail") (auto simp: classic_prefill_def Let_def map_sum_eq_Inr)
  from kv_backend.append_kv [OF assms(1) s1(2) this] s1(3) show ?thesis by simp
qed


text \<open>An engine with a disk cache over a model whose logits show the first token of the text.\<close>

definition first_logits :: "tokens \<Rightarrow> logits" where
  "first_logits ts = [real (unat (hd ts))]"

definition cached_env :: "(ref_ctx RealLlamaBackend, unit, nat, bytes \<rightharpoonup> bytes) engine_env" where
  "cached_env = serve_env\<lparr>ee_B := real_backend (ref_llama first_logits (\<lambda>_. False) 16)\<rparr>"

definition holding :: "tokens \<Rightarrow> nat \<Rightarrow> ref_ctx RealLlamaBackend" where
  "holding ts n = \<lparr>rb_ctx = \<lparr>rc_seqs = [ts], rc_logits = [first_logits ts]\<rparr>, rb_n_past = n\<rparr>"

definition cached_engine :: "tokens \<Rightarrow> nat \<Rightarrow> tokens \<Rightarrow> (ref_ctx RealLlamaBackend, unit, nat, bytes \<rightharpoonup> bytes) engine" where
  "cached_engine ts n ctx = serve_engine\<lparr>en_backend := holding ts n, en_context_tokens := ctx, en_cache := Some demo_manager,
     en_prefix_cache := Some (PrefixCache_init ''m.gguf'' 256)\<rparr>"

lemma cached_kv: "kv_backend (ee_B cached_env) (real_ok ref_cells) (\<lambda>b. ref_cells (rb_ctx b) 0) first_logits"
  unfolding cached_env_def by (simp add: real_backend_kv [OF ref_llama_ok])

lemma cached_append:
  "be_decode_append (ee_B cached_env) b [t] =
     (if rb_n_past b = length (ref_cells (rb_ctx b) 0)
      then (Inr (first_logits (ref_cells (rb_ctx b) 0 @ [t])),
        \<lparr>rb_ctx = (rb_ctx b)\<lparr>rc_seqs := ref_update (rc_seqs (rb_ctx b)) 0 (ref_cells (rb_ctx b) 0 @ [t]),
           rc_logits := [first_logits (ref_cells (rb_ctx b) 0 @ [t])]\<rparr>, rb_n_past = Suc (rb_n_past b)\<rparr>)
      else (Inl (ModelError ''llama_decode failed with status 1''), b))"
proof -
  have "char_of (49 :: nat) = CHR ''1''" by code_simp
  then show ?thesis
    by (simp add: cached_env_def real_backend_def real_decode_append_def decode_impl_def ref_llama_def single_batch_def ref_decode_def
        placed_def batch_tokens_def string_of_int_def string_of_nat.simps)
qed

lemma cached_reset: "be_reset (ee_B cached_env) b = b\<lparr>rb_ctx := (rb_ctx b)\<lparr>rc_seqs := []\<rparr>, rb_n_past := 0\<rparr>"
  by (simp add: cached_env_def real_backend_def real_reset_def ref_llama_def)

lemma cached_state: "\<exists>d. be_state_data (ee_B cached_env) b = Inr d"
  by (simp add: cached_env_def real_backend_def real_state_data_def ref_llama_def ref_state_def Let_def)

lemma cached_fresh_prefill:
  "\<exists>m1. prefill no_zstd (ee_B cached_env) disk (PrefixCache_init tag 256) demo_manager [t] b = (Inr 0, m1,
     \<lparr>rb_ctx = \<lparr>rc_seqs = [[t]], rc_logits = [first_logits [t]]\<rparr>, rb_n_past = 1\<rparr>)"
proof -
  let ?p = "PrefixCache_init tag 256"
  have marks: "boundaries ?p 1 = [1]" by (simp add: boundaries_def PrefixCache_init_def block_marks.simps)
  obtain e s where g: "get (cg_store demo_manager) (key_for ?p [t] 1) = (e, s)" by fastforce
  have "peek (cg_store demo_manager) k = None" for k
    using empty_store_inv(2) [of 0]
    by (auto simp: demo_manager_def CacheManager_open_def empty_store_def disk.coherent_def map_le_iff)
  with disk.get_spec [OF g] have e: "e = None" by simp
  have st: "cg_staging demo_manager = []" "cg_compress demo_manager = False"
    by (simp_all add: demo_manager_def CacheManager_open_def)
  have ld: "load_state no_zstd (ee_B cached_env) demo_manager (key_for ?p [t] 1) b = (False, cm_miss (demo_manager\<lparr>cg_store := s\<rparr>), b)"
    using g e st by (simp add: load_state_def preleva_staging_def)
  let ?m = "cm_miss (demo_manager\<lparr>cg_store := s\<rparr>)"
  let ?b = "\<lparr>rb_ctx = \<lparr>rc_seqs = [[t]], rc_logits = [first_logits [t]]\<rparr>, rb_n_past = 1\<rparr>"
  have "cg_compress ?m = False" using st by (simp add: cm_miss_def)
  note nocomp = this
  obtain d where d: "be_state_data (ee_B cached_env) ?b = Inr d" using cached_state by blast
  obtain q s1 where "put (disk 1) (cg_store ?m) (key_for ?p [t] 1) (envelope (''R'' @ d) 1) = (q, s1)" by fastforce
  then obtain x m1 where
    str: "store_state no_zstd (ee_B cached_env) (disk 1) ?m (key_for ?p [t] 1) ?b 1 = (Inr x, m1)"
    using nocomp d by (cases q) (simp_all add: store_state_def)
  have ap: "be_decode_append (ee_B cached_env) (b\<lparr>rb_ctx := (rb_ctx b)\<lparr>rc_seqs := []\<rparr>, rb_n_past := 0\<rparr>) [t] = (Inr (first_logits [t]), ?b)"
    by (simp add: cached_append ref_cells_def ref_update_def)
  show ?thesis using marks ld ap str by (simp add: prefill_def cached_reset)
qed


lemma cached_prompt: "prompt_tokens (ee_B cached_env) [c] = Inr [word_of_nat (of_char c)]"
  by (simp add: prompt_tokens_def cached_env_def real_backend_def real_tokenize_def ref_llama_def)

lemma cached_fields:
  "en_context_tokens (cached_engine ts n ctx) = ctx" "en_backend (cached_engine ts n ctx) = holding ts n"
  "en_cache (cached_engine ts n ctx) = Some demo_manager" "en_scheduler (cached_engine ts n ctx) = None"
  "en_prefix_cache (cached_engine ts n ctx) = Some (PrefixCache_init ''m.gguf'' 256)" "ee_z cached_env = no_zstd"
  "en_model_tag (cached_engine ts n ctx) = ''m.gguf''"
  by (simp_all add: cached_engine_def cached_env_def serve_env_def serve_engine_def)

lemma cached_serial_ok:
  "serial_ok cached_env (real_ok ref_cells) (\<lambda>b. ref_cells (rb_ctx b) 0) {[99]} (cached_engine [97] 1 [97])"
proof -
  have "hot_ok (ee_B cached_env) (real_ok ref_cells) (\<lambda>b. ref_cells (rb_ctx b) 0) [97] (holding [97] 1)"
    by (simp add: hot_ok_def holding_def real_ok_def ref_cells_def)
  moreover have "cache_ok no_zstd p {[99]} (ee_B cached_env) (real_ok ref_cells) (\<lambda>b. ref_cells (rb_ctx b) 0) demo_manager" for p
    unfolding demo_manager_def by (rule cache_ok_fresh)
  ultimately show ?thesis
    by (simp add: serial_ok_def disk_ok_def cached_fields collision_free_singleton zstd_ok_no_zstd PrefixCache_init_def)
qed

theorem warm_misleads_continuation_witness:
  "\<exists>s1 s2. warm cached_env (\<lambda>_. True) ''c'' (cached_engine [97] 1 [97]) = (Inr 1, s1) \<and>
    classic_prefill cached_env (\<lambda>_. True) ([97] @ [98]) s1 = (Inr (first_logits ([99] @ [98])), s2) \<and>
    first_logits ([99] @ [98]) \<noteq> first_logits ([97] @ [98])"
proof -
  let ?s = "cached_engine [97] 1 [97]"
  obtain m1 where pf: "prefill no_zstd (ee_B cached_env) (\<lambda>_. True) (PrefixCache_init ''m.gguf'' 256) demo_manager [99] (holding [97] 1) =
      (Inr 0, m1, holding [99] 1)" using cached_fresh_prefill [of "\<lambda>_. True" "''m.gguf''" 99] unfolding holding_def by blast
  let ?s1 = "?s\<lparr>en_cache := Some m1, en_backend := holding [99] 1\<rparr>"
  have c: "prompt_tokens (ee_B cached_env) ''c'' = Inr [99]" using cached_prompt [of "CHR ''c''"] by simp
  have w: "warm cached_env (\<lambda>_. True) ''c'' ?s = (Inr 1, ?s1)"
    using pf by (simp add: warm_def c cached_fields cached_prefill_def)
  have np: "be_n_past (ee_B cached_env) (holding [99] 1) = 1" by (simp add: holding_def cached_env_def real_backend_def)
  obtain l b where ap: "be_decode_append (ee_B cached_env) (holding [99] 1) [98] = (Inr l, b)"
    by (simp add: cached_append holding_def ref_cells_def)
  have cp: "classic_prefill cached_env (\<lambda>_. True) (en_context_tokens ?s @ [98]) ?s1 = (Inr l, ?s1\<lparr>en_backend := b\<rparr>)"
    using ap np by (simp add: classic_prefill_def cached_fields estende_def Let_def)
  have "l = first_logits ([99] @ [98])"
    using warm_misleads_continuation [OF cached_kv cached_serial_ok cached_fields(5) c _ _ w _ _ cp] by (simp add: cached_fields)
  with w cp show ?thesis by (auto simp: first_logits_def cached_fields)
qed

text \<open>
  A session restored from the disk cache can be unusable. The token that ends a generation is
  part of the conversation but was never decoded; \<open>save_session\<close> snapshots the KV cache without it
  and labels the snapshot with the length of the conversation, so that after \<open>load_session\<close> the
  position counter is one ahead of the KV cache, and the next request that extends the
  conversation fails in the backend.
\<close>

theorem saved_session_counter_ahead:
  "\<exists>s1 s2 s3. save_session cached_env True ''sess-1'' ((cached_engine [97] 1 [97, 7])\<lparr>en_sessions := [''sess-1'' \<mapsto> []]\<rparr>) = (Inr (), s1) \<and>
    load_session cached_env ''sess-1'' s1 = (Inr (), s2) \<and> rb_n_past (en_backend s2) = 2 \<and>
    ref_cells (rb_ctx (en_backend s2)) 0 = [97] \<and>
    run_tokens cached_env (\<lambda>_. True) [97, 7, 98] (\<lambda>_. Inr True) gen s2 =
      (Inl (Engine_model (ModelError ''llama_decode failed with status 1'')), [], s3)"
proof -
  let ?s = "(cached_engine [97] 1 [97, 7])\<lparr>en_sessions := [''sess-1'' \<mapsto> []]\<rparr>"
  let ?k = "session_cache_key ''m.gguf'' ''sess-1'' [97, 7]" and ?d = "ref_state (rb_ctx (holding [97] 1))"
  have data: "be_state_data (ee_B cached_env) (holding [97] 1) = Inr ?d"
    by (simp add: cached_env_def real_backend_def real_state_data_def ref_llama_def Let_def) (simp add: ref_state_def)
  obtain s where "put True (cg_store demo_manager) ?k (envelope (''R'' @ ?d) 2) = (True, s)"
    using put_unlimited [OF demo_manager_max] by (metis prod.collapse)
  then obtain m1 where st: "store_state no_zstd (ee_B cached_env) True demo_manager ?k (holding [97] 1) 2 = (Inr True, m1)"
    using data by (simp add: store_state_def) (simp add: demo_manager_def CacheManager_open_def)
  let ?s1 = "?s\<lparr>en_sessions := [''sess-1'' \<mapsto> [97, 7]], en_cache := Some m1\<rparr>"
  have sv: "save_session cached_env True ''sess-1'' ?s = (Inr (), ?s1)"
  proof -
    have "length [97, 7 :: TokenId] mod 2 ^ 32 = 2" by simp
    with st show ?thesis by (simp add: save_session_def cached_fields backend_of_def Let_def del: list.size)
  qed
  have ne: "?d \<noteq> []" by (simp add: ref_state_def)
  have set: "be_set_state (ee_B cached_env) (holding [97] 1) ?d 2 = (Inr (), holding [97] 2)"
    using ne by (simp add: cached_env_def real_backend_def real_set_state_def ref_llama_def Let_def ref_load_state holding_def)
  have key: "ok_key ?k" unfolding session_cache_key_def by (rule ok_key_make_key) simp
  obtain m2 where ld: "load_state no_zstd (ee_B cached_env) m1 ?k (holding [97] 1) = (True, m2, holding [97] 2)"
    using store_load_bytes [OF zstd_ok_no_zstd key _ demo_state_facts(3) st data, of "holding [97] 1"] set by auto
  let ?s2 = "?s1\<lparr>en_cache := Some m2, en_backend := holding [97] 2, en_context_tokens := [97, 7]\<rparr>"
  have lo: "load_session cached_env ''sess-1'' ?s1 = (Inr (), ?s2)"
    using ld by (simp add: load_session_def restore_session_def cached_fields backend_of_def set_backend_def)
  have b: "rb_n_past (holding [97] 2) = 2" "ref_cells (rb_ctx (holding [97] 2)) 0 = [97]" by (simp_all add: holding_def ref_cells_def)
  have es: "estende (ee_B cached_env) [97, 7] [97, 7, 98] (holding [97] 2)"
    by (simp add: estende_def cached_env_def real_backend_def holding_def)
  have "run_tokens cached_env (\<lambda>_. True) [97, 7, 98] (\<lambda>_. Inr True) gen ?s2 =
      (Inl (Engine_model (ModelError ''llama_decode failed with status 1'')), [], ?s2)"
    using es b
    by (simp add: run_tokens_def classic_generate_def classic_prefill_def cached_fields cached_append cached_engine_def serve_engine_def Let_def)
  with sv lo b show ?thesis by (intro exI [of _ ?s1] exI [of _ ?s2]) (simp add: cached_fields)
qed

text \<open>
  What a constructed engine has: it refuses every invalid configuration; a parallel engine has
  no decoder, no disk cache and no draft model; a serial one has the disk cache exactly when a
  directory is configured, and the decoder exactly when speculation is on, the backend can roll
  back and a draft source exists; it starts with no conversation and no session.
\<close>

theorem engine_construction:
  assumes "ReameEngine_init E c arca backend d items corpus_file = Inr s"
  shows "validate c = Inr () \<and> backend \<noteq> None \<and> parallel_capable s = (1 < ec_n_parallel c) \<and>
    (parallel_capable s \<longrightarrow> en_decoder s = None \<and> en_cache s = None \<and> ee_D E = None) \<and>
    (\<not> parallel_capable s \<longrightarrow> (en_cache s \<noteq> None) = (ec_cache_dir c \<noteq> []) \<and> (en_prefix_cache s \<noteq> None) = (ec_cache_dir c \<noteq> []) \<and>
      (en_decoder s \<noteq> None) = (ec_use_speculative c \<and> be_supports_rollback (ee_B E) \<and> (ee_D E \<noteq> None \<or> ec_use_prompt_lookup c))) \<and>
    en_context_tokens s = [] \<and> en_sessions s = Map.empty"
  using assms
  by (auto simp: ReameEngine_init_def parallel_capable_def Let_def map_sum_eq_Inr split: sum.splits option.splits if_splits)

theorem engine_construction_witness:
  "validate serve_config = Inr () \<and> parallel_capable serve_engine = False \<and>
   ReameEngine_init serve_env serve_config (Some Map.empty) (Some sched_b0) () [] None = Inr serve_engine"
  using engine_construction [OF serve_engine_init] serve_engine_init by (simp add: serve_config_def)

end
