(* ===== verification/Resp.thy ===== *)
theory Resp
  imports Prelude
begin

text \<open>
  The RESP2 codec of the archive daemon (\<open>src/src/arca/resp.cpp\<close>): the incremental request
  parser \<open>RespParser\<close> and the reply serializers. Everything the parser throws is a value:
  \<open>RespError\<close> with its message, or \<open>StdOutOfRange\<close>, the \<open>std::out_of_range\<close> that
  \<open>std::stol\<close> throws on a length that does not fit a \<open>long\<close>.

  Main results: what the parser returns does not depend on how TCP sliced the bytes; a
  pipelined stream of encoded commands comes back as exactly those commands; every command
  it returns respects the element and bulk limits.
\<close>

section \<open>The request parser\<close>

datatype resp_exn = RespError bytes | StdOutOfRange

definition kMaxElements :: int where "kMaxElements = 1024"
definition kMaxBulkBytes :: int where "kMaxBulkBytes = 64 * 1024 * 1024"

text \<open>\<open>Inr None\<close> is the \<open>false\<close> of the source: the CRLF has not arrived yet.\<close>

definition parse_number_line :: "bytes \<Rightarrow> nat \<Rightarrow> resp_exn + (int \<times> nat) option" where
  "parse_number_line buf pos =
     (case str_find buf crlf pos of
        None \<Rightarrow> Inr None
      | Some e \<Rightarrow>
          let digits = substr buf pos (e - pos);
              i = (if digits \<noteq> [] \<and> hd digits = CHR ''-'' then 1 else 0)
          in if digits = [] then Inl (RespError ''empty length in RESP input'')
             else if i = length digits then Inl (RespError ''bare minus in RESP length'')
             else if \<not> list_all isdigit (drop i digits)
             then Inl (RespError (''non-numeric RESP length: '' @ digits))
             else (case std_stol digits of
                     Inl _ \<Rightarrow> Inl StdOutOfRange
                   | Inr v \<Rightarrow> Inr (Some (v, e + 2))))"

fun split_words :: "bytes \<Rightarrow> bytes \<Rightarrow> bytes list" where
  "split_words word [] = (if word \<noteq> [] then [word] else [])"
| "split_words word (c # cs) =
     (if c = CHR '' '' then (if word \<noteq> [] then [word] else []) @ split_words [] cs
      else split_words (word @ [c]) cs)"

text \<open>The loop over the \<open>n\<close> bulks of a multibulk request.\<close>

fun parse_bulks :: "bytes \<Rightarrow> nat \<Rightarrow> nat \<Rightarrow> bytes list \<Rightarrow> resp_exn + (bytes list \<times> nat) option" where
  "parse_bulks buf 0 pos parts = Inr (Some (parts, pos))"
| "parse_bulks buf (Suc i) pos parts =
     (if length buf \<le> pos then Inr None
      else if buf ! pos \<noteq> CHR ''$'' then Inl (RespError (''expected bulk string marker '' @ quoted ''$''))
      else (case parse_number_line buf (pos + 1) of
              Inl e \<Rightarrow> Inl e
            | Inr None \<Rightarrow> Inr None
            | Inr (Some (len, p)) \<Rightarrow>
                if len < 0 \<or> kMaxBulkBytes < len
                then Inl (RespError (''unreasonable RESP bulk length: '' @ string_of_int len))
                else if length buf < p + nat len + 2 then Inr None
                else if substr buf (p + nat len) 2 \<noteq> crlf
                then Inl (RespError ''bulk payload not terminated by CRLF'')
                else parse_bulks buf i (p + nat len + 2) (parts @ [substr buf p (nat len)])))"

definition parse_one :: "bytes \<Rightarrow> nat \<Rightarrow> resp_exn + (bytes list \<times> nat) option" where
  "parse_one buf offset =
     (if length buf \<le> offset then Inr None
      else if buf ! offset \<noteq> CHR ''*''
      then (case str_find buf crlf offset of
              None \<Rightarrow> Inr None
            | Some e \<Rightarrow> Inr (Some (split_words [] (substr buf offset (e - offset)), e + 2)))
      else (case parse_number_line buf (offset + 1) of
              Inl e \<Rightarrow> Inl e
            | Inr None \<Rightarrow> Inr None
            | Inr (Some (n, pos)) \<Rightarrow>
                if n < 0 \<or> kMaxElements < n
                then Inl (RespError (''unreasonable RESP array size: '' @ string_of_int n))
                else parse_bulks buf (nat n) pos []))"

lemma parse_number_line_progress:
  "parse_number_line buf pos = Inr (Some (v, p)) \<Longrightarrow> pos < p \<and> p \<le> length buf"
  by (auto simp: parse_number_line_def Let_def dest!: str_find_Some
      split: option.splits if_splits sum.splits)

lemma parse_bulks_progress:
  "parse_bulks buf n pos parts = Inr (Some (out, p)) \<Longrightarrow> pos \<le> length buf \<Longrightarrow>
    pos \<le> p \<and> p \<le> length buf"
proof (induction buf n pos parts rule: parse_bulks.induct)
  case (2 buf i pos parts)
  from "2.prems" obtain len q where q: "parse_number_line buf (pos + 1) = Inr (Some (len, q))"
    by (auto split: if_splits sum.splits option.splits)
  with 2 have "q + nat len + 2 \<le> p \<and> p \<le> length buf"
    by (auto split: if_splits)
  with parse_number_line_progress [OF q] show ?case by simp
qed simp

lemma parse_one_progress:
  assumes "parse_one buf off = Inr (Some (out, off'))"
  shows "off < off' \<and> off' \<le> length buf"
proof (cases "buf ! off = CHR ''*''")
  case True
  with assms obtain n pos where n: "parse_number_line buf (off + 1) = Inr (Some (n, pos))"
    and b: "parse_bulks buf (nat n) pos [] = Inr (Some (out, off'))"
    by (auto simp: parse_one_def split: if_splits sum.splits option.splits)
  from parse_number_line_progress [OF n] parse_bulks_progress [OF b] show ?thesis by simp
next
  case False
  with assms show ?thesis
    by (auto simp: parse_one_def dest!: str_find_Some split: if_splits option.splits)
qed

record RespParser =
  rp_buf :: bytes
  rp_ready :: "bytes list list"

definition RespParser_init :: RespParser where
  "RespParser_init = \<lparr>rp_buf = [], rp_ready = []\<rparr>"

text \<open>
  The \<open>while (parse_one(offset, cmd))\<close> loop of \<open>feed\<close>: the exception that left it, if any, the
  offset it reached and the commands it queued.
\<close>

function feed_loop :: "bytes \<Rightarrow> nat \<Rightarrow> bytes list list \<Rightarrow> resp_exn option \<times> nat \<times> bytes list list"
where
  "feed_loop buf offset ready =
     (case parse_one buf offset of
        Inl e \<Rightarrow> (Some e, offset, ready)
      | Inr None \<Rightarrow> (None, offset, ready)
      | Inr (Some (cmd, offset')) \<Rightarrow>
          feed_loop buf offset' (if cmd \<noteq> [] then ready @ [cmd] else ready))"
  by pat_completeness auto
termination
  by (relation "measure (\<lambda>(buf, offset, ready). length buf - offset)")
     (auto dest: parse_one_progress)

declare feed_loop.simps [simp del]

text \<open>An exception leaves the appended bytes in \<open>buf_\<close>: the \<open>erase\<close> is not reached.\<close>

definition feed :: "RespParser \<Rightarrow> bytes \<Rightarrow> resp_exn option \<times> RespParser" where
  "feed p bytes =
     (case feed_loop (rp_buf p @ bytes) 0 (rp_ready p) of
        (Some e, _, ready) \<Rightarrow> (Some e, p\<lparr>rp_buf := rp_buf p @ bytes, rp_ready := ready\<rparr>)
      | (None, offset, ready) \<Rightarrow>
          (None, p\<lparr>rp_buf := drop offset (rp_buf p @ bytes), rp_ready := ready\<rparr>))"

definition take_ready :: "RespParser \<Rightarrow> bytes list list \<times> RespParser" where
  "take_ready p = (rp_ready p, p\<lparr>rp_ready := []\<rparr>)"

section \<open>Reply serializers\<close>

definition resp_simple :: "bytes \<Rightarrow> bytes" where
  "resp_simple s = ''+'' @ s @ crlf"

definition resp_error :: "bytes \<Rightarrow> bytes" where
  "resp_error s = ''-'' @ s @ crlf"

definition resp_integer :: "int \<Rightarrow> bytes" where
  "resp_integer v = '':'' @ string_of_int v @ crlf"

definition resp_bulk :: "bytes \<Rightarrow> bytes" where
  "resp_bulk s = ''$'' @ string_of_nat (length s) @ crlf @ s @ crlf"

definition resp_nil :: bytes where
  "resp_nil = ''$-1'' @ crlf"

text \<open>The request a client sends: \<open>*N\<close> followed by \<open>N\<close> bulks.\<close>

definition encode_command :: "bytes list \<Rightarrow> bytes" where
  "encode_command cmd = ''*'' @ string_of_nat (length cmd) @ crlf @ concat (map resp_bulk cmd)"


text \<open>Feeding a list of slices as they arrive; the daemon stops at the first exception.\<close>

fun feed_all :: "RespParser \<Rightarrow> bytes list \<Rightarrow> resp_exn option \<times> RespParser" where
  "feed_all p [] = (None, p)"
| "feed_all p (x # xs) =
     (case feed p x of (Some e, q) \<Rightarrow> (Some e, q) | (None, q) \<Rightarrow> feed_all q xs)"

section \<open>Locality: what the parser reads lies between its offset and the bytes it needs\<close>

lemma substr_append_left [simp]: "substr (x @ buf) (length x + pos) n = substr buf pos n"
  by (simp add: substr_def)

lemma substr_at: "n = length s \<Longrightarrow> substr (x @ s @ t) (length x) n = s"
  by (simp add: substr_def)

lemma substr_append_right: "pos + n \<le> length buf \<Longrightarrow> substr (buf @ t) pos n = substr buf pos n"
  by (simp add: substr_def)

lemma str_find_shift:
  "str_find (x @ buf) pat (length x + pos) = map_option ((+) (length x)) (str_find buf pat pos)"
  by (simp add: str_find_def option.map_comp comp_def add.assoc cong: option.map_cong)

lemma parse_number_line_shift:
  "parse_number_line (x @ buf) (length x + pos) =
     map_sum id (map_option (map_prod id ((+) (length x)))) (parse_number_line buf pos)"
  by (auto simp: parse_number_line_def str_find_shift Let_def split: option.splits sum.splits)

lemma parse_bulks_shift:
  "parse_bulks (x @ buf) n (length x + pos) parts =
     map_sum id (map_option (map_prod id ((+) (length x)))) (parse_bulks buf n pos parts)"
proof (induction n arbitrary: pos parts)
  case (Suc i)
  have num: "parse_number_line (x @ buf) (Suc (length x + pos)) =
     map_sum id (map_option (map_prod id ((+) (length x)))) (parse_number_line buf (Suc pos))"
    using parse_number_line_shift [of x buf "Suc pos"] by simp
  have sub: "substr (x @ buf) (length x + a + b) k = substr buf (a + b) k" for a b k
    using substr_append_left [of x buf "a + b" k] by (simp add: add.assoc)
  have rec: "parse_bulks (x @ buf) i (Suc (Suc (length x + a + b))) parts =
     map_sum id (map_option (map_prod id ((+) (length x)))) (parse_bulks buf i (Suc (Suc (a + b))) parts)"
    for a b parts
    using Suc.IH [of "Suc (Suc (a + b))" parts] by (simp only: add_Suc_right add.assoc)
  show ?case
    by (auto simp: num sub rec nth_append id_def split: option.splits sum.splits)
qed simp

lemma parse_one_shift:
  "parse_one (x @ buf) (length x + off) =
     map_sum id (map_option (map_prod id ((+) (length x)))) (parse_one buf off)"
proof -
  have num: "parse_number_line (x @ buf) (Suc (length x + off)) =
     map_sum id (map_option (map_prod id ((+) (length x)))) (parse_number_line buf (Suc off))"
    using parse_number_line_shift [of x buf "Suc off"] by simp
  show ?thesis
    by (auto simp: parse_one_def num str_find_shift parse_bulks_shift nth_append
        split: option.splits sum.splits)
qed

text \<open>Bytes that arrive later change neither a result nor an exception.\<close>

lemma parse_number_line_extend:
  "parse_number_line buf pos = r \<Longrightarrow> r \<noteq> Inr None \<Longrightarrow> parse_number_line (buf @ t) pos = r"
proof (cases "str_find buf crlf pos")
  case (Some e)
  assume r: "parse_number_line buf pos = r" "r \<noteq> Inr None"
  have "pos \<le> e" "e + 2 \<le> length buf" using str_find_Some [OF Some] by auto
  then have "substr (buf @ t) pos (e - pos) = substr buf pos (e - pos)"
    by (simp add: substr_append_right)
  with r str_find_append_Some [OF Some] Some show ?thesis
    by (simp add: parse_number_line_def)
qed (simp add: parse_number_line_def)

lemma parse_bulks_extend:
  "parse_bulks buf n pos parts = r \<Longrightarrow> r \<noteq> Inr None \<Longrightarrow> parse_bulks (buf @ t) n pos parts = r"
proof (induction n arbitrary: pos parts)
  case (Suc i)
  then have pos: "pos < length buf" by (auto split: if_splits)
  then have nth: "(buf @ t) ! pos = buf ! pos" by (simp add: nth_append)
  show ?case
  proof (cases "buf ! pos = CHR ''$''")
    case False
    with Suc.prems pos nth show ?thesis by auto
  next
    case True
    with Suc.prems pos have "parse_number_line buf (pos + 1) \<noteq> Inr None" by (auto split: if_splits)
    then have num: "parse_number_line (buf @ t) (pos + 1) = parse_number_line buf (pos + 1)"
      by (rule parse_number_line_extend [OF refl])
    show ?thesis
    proof (cases "parse_number_line buf (pos + 1)")
      case (Inl e)
      with Suc.prems pos nth num True show ?thesis by auto
    next
      case (Inr r')
      then obtain len p where op: "parse_number_line buf (pos + 1) = Inr (Some (len, p))"
        using \<open>parse_number_line buf (pos + 1) \<noteq> Inr None\<close> by (cases r') auto
      have sub: "p + nat len + 2 \<le> length buf \<Longrightarrow>
          substr (buf @ t) (p + nat len) 2 = substr buf (p + nat len) 2 \<and>
          substr (buf @ t) p (nat len) = substr buf p (nat len)"
        by (simp add: substr_append_right)
      show ?thesis
        using Suc.prems pos nth num op True sub Suc.IH
        by (auto split: if_splits)
    qed
  qed
qed simp

lemma parse_one_extend:
  assumes "parse_one buf off = r" and "r \<noteq> Inr None"
  shows "parse_one (buf @ t) off = r"
proof -
  have pos: "off < length buf" using assms by (auto simp: parse_one_def split: if_splits)
  then have nth: "(buf @ t) ! off = buf ! off" by (simp add: nth_append)
  show ?thesis
  proof (cases "buf ! off = CHR ''*''")
    case True
    then have "parse_number_line buf (off + 1) \<noteq> Inr None"
      using assms pos by (auto simp: parse_one_def)
    then have num: "parse_number_line (buf @ t) (off + 1) = parse_number_line buf (off + 1)"
      by (rule parse_number_line_extend [OF refl])
    show ?thesis
      using assms pos nth num True parse_bulks_extend [of buf]
      by (auto simp: parse_one_def split: sum.splits option.splits if_splits)
  next
    case False
    with assms pos obtain e where e: "str_find buf crlf off = Some e"
      by (auto simp: parse_one_def split: option.splits)
    then have "off \<le> e" "e + 2 \<le> length buf" using str_find_Some [OF e] by auto
    then have "substr (buf @ t) off (e - off) = substr buf off (e - off)"
      by (simp add: substr_append_right)
    with assms e str_find_append_Some [OF e] pos nth False show ?thesis
      by (auto simp: parse_one_def)
  qed
qed

section \<open>The feed loop over slices\<close>

abbreviation queue_cmd :: "bytes list list \<Rightarrow> bytes list \<Rightarrow> bytes list list" where
  "queue_cmd ready cmd \<equiv> (if cmd \<noteq> [] then ready @ [cmd] else ready)"

lemma feed_loop_unfold [simp]:
  "parse_one buf off = Inl e \<Longrightarrow> feed_loop buf off ready = (Some e, off, ready)"
  "parse_one buf off = Inr None \<Longrightarrow> feed_loop buf off ready = (None, off, ready)"
  "parse_one buf off = Inr (Some (cmd, p)) \<Longrightarrow>
     feed_loop buf off ready = feed_loop buf p (queue_cmd ready cmd)"
  by (simp_all add: feed_loop.simps [of buf off])

lemma feed_loop_induct [case_names exn wait cmd]:
  assumes "\<And>off ready e. parse_one buf off = Inl e \<Longrightarrow> P off ready"
    and "\<And>off ready. parse_one buf off = Inr None \<Longrightarrow> P off ready"
    and "\<And>off ready cmd p. parse_one buf off = Inr (Some (cmd, p)) \<Longrightarrow>
          P p (queue_cmd ready cmd) \<Longrightarrow> P off ready"
  shows "P off ready"
proof (induction "length buf - off" arbitrary: off ready rule: less_induct)
  case less
  show ?case
  proof (cases "parse_one buf off")
    case (Inr r)
    with assms(2) less parse_one_progress [of buf off] assms(3) show ?thesis
      by (cases r) (auto intro: diff_less_mono2)
  qed (rule assms(1))
qed

lemma feed_loop_shift:
  "feed_loop (x @ buf) (length x + off) ready =
     map_prod id (map_prod ((+) (length x)) id) (feed_loop buf off ready)"
proof (induction off ready rule: feed_loop_induct [of buf])
  case (exn off ready e)
  then show ?case using parse_one_shift [of x buf off] by simp
next
  case (wait off ready)
  then show ?case using parse_one_shift [of x buf off] by simp
next
  case (cmd off ready c p)
  then show ?case using parse_one_shift [of x buf off] by simp
qed

lemma feed_loop_offset:
  "feed_loop buf off ready = (e, off', ready') \<Longrightarrow> off \<le> length buf \<Longrightarrow> off' \<le> length buf"
  by (induction off ready rule: feed_loop_induct [of buf]) (auto dest: parse_one_progress)

lemma feed_loop_extend:
  "feed_loop buf off ready = (e, off', ready') \<Longrightarrow>
     feed_loop (buf @ t) off ready =
       (if e = None then feed_loop (buf @ t) off' ready' else (e, off', ready'))"
  by (induction off ready rule: feed_loop_induct [of buf])
     (auto dest: parse_one_extend [where t = t])

text \<open>No complete command is waiting in the buffer: what every successful \<open>feed\<close> leaves.\<close>

definition quiescent :: "RespParser \<Rightarrow> bool" where
  "quiescent p \<longleftrightarrow> parse_one (rp_buf p) 0 = Inr None"

lemma quiescent_init: "quiescent RespParser_init"
  by (simp add: quiescent_def RespParser_init_def parse_one_def)

lemma feed_loop_stops: "feed_loop buf off ready = (None, off', ready') \<Longrightarrow> parse_one buf off' = Inr None"
  by (induction off ready rule: feed_loop_induct [of buf]) auto

lemma parse_one_drop:
  assumes "off \<le> length buf"
  shows "parse_one buf off = map_sum id (map_option (map_prod id ((+) off))) (parse_one (drop off buf) 0)"
  using parse_one_shift [of "take off buf" "drop off buf" 0] assms by simp

lemma feed_quiescent: "feed p x = (None, q) \<Longrightarrow> quiescent q"
proof -
  assume f: "feed p x = (None, q)"
  then obtain off ready where l: "feed_loop (rp_buf p @ x) 0 (rp_ready p) = (None, off, ready)"
    and q: "rp_buf q = drop off (rp_buf p @ x)"
    by (auto simp: feed_def split: prod.splits option.splits)
  have "off \<le> length (rp_buf p @ x)" using feed_loop_offset [OF l] by simp
  from parse_one_drop [OF this] feed_loop_stops [OF l] q show ?thesis
    by (auto simp: quiescent_def sum.map_comp map_sum_def split: sum.splits option.splits)
qed

lemma feed_append:
  assumes "feed p a = (None, q)"
  shows "fst (feed q b) = fst (feed p (a @ b)) \<and>
         rp_ready (snd (feed q b)) = rp_ready (snd (feed p (a @ b))) \<and>
         (fst (feed q b) = None \<longrightarrow> feed q b = feed p (a @ b))"
proof -
  define A where "A = rp_buf p @ a"
  obtain off ready where l: "feed_loop A 0 (rp_ready p) = (None, off, ready)"
    and q: "q = p\<lparr>rp_buf := drop off A, rp_ready := ready\<rparr>"
    using assms by (auto simp: A_def feed_def split: prod.splits option.splits)
  have off: "off \<le> length A" using feed_loop_offset [OF l] by simp
  then have lt: "length (take off A) = off" by simp
  have "feed_loop (A @ b) 0 (rp_ready p) = feed_loop (A @ b) off ready"
    using feed_loop_extend [OF l, of b] by simp
  also have "\<dots> = feed_loop (take off A @ (drop off A @ b)) (off + 0) ready"
    by (metis add.right_neutral append.assoc append_take_drop_id)
  also have "\<dots> = map_prod id (map_prod ((+) off) id) (feed_loop (drop off A @ b) 0 ready)"
    using feed_loop_shift [of "take off A" "drop off A @ b" 0 ready] unfolding lt .
  finally have loop: "feed_loop (A @ b) 0 (rp_ready p) = \<dots>" .
  have dr: "drop (off + k) (A @ b) = drop k (drop off A @ b)" for k
    using off by (metis add.commute drop_append drop_drop diff_is_0_eq drop0)
  obtain e k r where fl: "feed_loop (drop off A @ b) 0 ready = (e, k, r)"
    by (metis prod.exhaust)
  have fp: "feed p (a @ b) = (case e of
        Some x \<Rightarrow> (Some x, p\<lparr>rp_buf := A @ b, rp_ready := r\<rparr>)
      | None \<Rightarrow> (None, p\<lparr>rp_buf := drop (off + k) (A @ b), rp_ready := r\<rparr>))"
    unfolding feed_def append.assoc [symmetric] A_def [symmetric] loop fl
    by (simp split: option.split del: drop_append)
  have fq: "feed q b = (case e of
        Some x \<Rightarrow> (Some x, p\<lparr>rp_buf := drop off A @ b, rp_ready := r\<rparr>)
      | None \<Rightarrow> (None, p\<lparr>rp_buf := drop k (drop off A @ b), rp_ready := r\<rparr>))"
    unfolding feed_def q by (simp add: fl split: option.split del: drop_append)
  show ?thesis unfolding fp fq by (simp add: dr split: option.split del: drop_append)
qed

lemma feed_Nil: "quiescent p \<Longrightarrow> feed p [] = (None, p)"
  by (simp add: feed_def quiescent_def)

lemma feed_all_concat:
  "quiescent p \<Longrightarrow>
     fst (feed_all p xs) = fst (feed p (concat xs)) \<and>
     rp_ready (snd (feed_all p xs)) = rp_ready (snd (feed p (concat xs))) \<and>
     (fst (feed_all p xs) = None \<longrightarrow> feed_all p xs = feed p (concat xs))"
proof (induction xs arbitrary: p)
  case Nil
  then show ?case by (simp add: feed_Nil)
next
  case (Cons x xs)
  obtain e q where f: "feed p x = (e, q)" by fastforce
  show ?case
  proof (cases e)
    case None
    with f have "feed p x = (None, q)" by simp
    moreover from this have "feed_all p (x # xs) = feed_all q xs" by simp
    ultimately show ?thesis
      using Cons.IH [OF feed_quiescent] feed_append [of p x q "concat xs"]
      unfolding concat.simps by metis
  next
    case (Some err)
    obtain off ready where l: "feed_loop (rp_buf p @ x) 0 (rp_ready p) = (Some err, off, ready)"
      and q: "rp_ready q = ready"
      using f Some by (auto simp: feed_def split: prod.splits option.splits)
    have "feed_loop ((rp_buf p @ x) @ concat xs) 0 (rp_ready p) = (Some err, off, ready)"
      using feed_loop_extend [OF l, of "concat xs"] by simp
    with f Some q show ?thesis by (simp add: feed_def)
  qed
qed

lemmas feed_all_exn = feed_all_concat [THEN conjunct1]
lemmas feed_all_ready = feed_all_concat [THEN conjunct2, THEN conjunct1]
lemmas feed_all_ok = feed_all_concat [THEN conjunct2, THEN conjunct2, rule_format]

section \<open>Round trips\<close>

lemma parse_number_line_nat:
  assumes "int n \<le> LONG_MAX"
  shows "parse_number_line (x @ string_of_nat n @ crlf @ t) (length x) =
           Inr (Some (int n, length x + length (string_of_nat n) + 2))"
proof -
  let ?d = "string_of_nat n"
  have f: "find_sub crlf (?d @ crlf @ t) = Some (length ?d)"
    by (rule find_sub_after) (simp_all add: not_digit_not_in_string_of_nat)
  then have sf: "str_find (x @ ?d @ crlf @ t) crlf (length x) = Some (length x + length ?d)"
    by (simp add: str_find_def)
  have sub: "substr (x @ ?d @ crlf @ t) (length x) (length ?d) = ?d"
    by (simp add: substr_def)
  have "hd ?d \<noteq> CHR ''-''"
    using isdigit_string_of_nat [of "hd ?d" n] by (metis hd_in_set isdigit_simps(1) string_of_nat_nonempty)
  with assms show ?thesis
    by (simp add: parse_number_line_def sf sub std_stol_string_of_nat string_of_nat_digits)
qed

abbreviation fits_bulk :: "bytes \<Rightarrow> bool" where
  "fits_bulk s \<equiv> int (length s) \<le> kMaxBulkBytes"

text \<open>A command a client may send: non-empty, within the element and bulk limits.\<close>

definition sendable :: "bytes list \<Rightarrow> bool" where
  "sendable cmd \<longleftrightarrow> cmd \<noteq> [] \<and> int (length cmd) \<le> kMaxElements \<and> list_all fits_bulk cmd"

lemma parse_bulks_step:
  assumes "\<not> length buf \<le> pos" and "buf ! pos = CHR ''$''"
    and "parse_number_line buf (pos + 1) = Inr (Some (int (length s), p))"
    and "\<not> kMaxBulkBytes < int (length s)" and "\<not> length buf < p + length s + 2"
    and "substr buf (p + length s) 2 = crlf" and "substr buf p (length s) = s"
  shows "parse_bulks buf (Suc i) pos parts = parse_bulks buf i (p + length s + 2) (parts @ [s])"
  using assms by simp

lemma parse_bulks_encode:
  "list_all fits_bulk cmd \<Longrightarrow>
     parse_bulks (x @ concat (map resp_bulk cmd) @ t) (length cmd) (length x) parts =
       Inr (Some (parts @ cmd, length x + length (concat (map resp_bulk cmd))))"
proof (induction cmd arbitrary: x parts)
  case (Cons s cmd)
  let ?n = "string_of_nat (length s)"
  let ?rest = "concat (map resp_bulk cmd) @ t"
  let ?buf = "x @ concat (map resp_bulk (s # cmd)) @ t"
  have buf: "?buf = (x @ ''$'') @ ?n @ crlf @ s @ crlf @ ?rest"
    by (simp add: resp_bulk_def)
  have fits: "int (length s) \<le> LONG_MAX" "\<not> kMaxBulkBytes < int (length s)"
    using Cons.prems by (simp_all add: kMaxBulkBytes_def)
  let ?p = "length x + 1 + length ?n + 2"
  have num: "parse_number_line ?buf (length x + 1) = Inr (Some (int (length s), ?p))"
    unfolding buf using parse_number_line_nat [OF fits(1), of "x @ ''$''" "s @ crlf @ ?rest"]
    by simp
  have buf2: "?buf = (x @ ''$'' @ ?n @ crlf) @ s @ crlf @ ?rest" using buf by simp
  have len: "?p = length (x @ ''$'' @ ?n @ crlf)" by simp
  have payload: "substr ?buf ?p (length s) = s" unfolding buf2 len by (rule substr_at [OF refl])
  have buf3: "?buf = (x @ ''$'' @ ?n @ crlf @ s) @ crlf @ ?rest" using buf by simp
  have len3: "?p + length s = length (x @ ''$'' @ ?n @ crlf @ s)" by simp
  have fin: "substr ?buf (?p + length s) 2 = crlf"
    unfolding buf3 len3 by (rule substr_at) simp
  have sz: "\<not> length ?buf < ?p + length s + 2" unfolding buf by simp
  have nth: "?buf ! length x = CHR ''$''" "\<not> length ?buf \<le> length x"
    unfolding buf by (simp_all add: nth_append)
  have "parse_bulks ?buf (length (s # cmd)) (length x) parts
      = parse_bulks ?buf (length cmd) (?p + length s + 2) (parts @ [s])"
    unfolding list.size(4) add_Suc_right add_0_right
    by (rule parse_bulks_step) (fact nth num fits sz fin payload)+
  also have "\<dots> = parse_bulks ((x @ resp_bulk s) @ ?rest) (length cmd) (length (x @ resp_bulk s)) (parts @ [s])"
    by (simp add: resp_bulk_def add.assoc)
  also have "\<dots> = Inr (Some ((parts @ [s]) @ cmd, length (x @ resp_bulk s) + length (concat (map resp_bulk cmd))))"
    using Cons.IH [of "x @ resp_bulk s" "parts @ [s]"] Cons.prems by simp
  finally show ?case by simp
qed simp

lemma parse_one_encode:
  assumes "sendable cmd"
  shows "parse_one (x @ encode_command cmd @ t) (length x) =
           Inr (Some (cmd, length x + length (encode_command cmd)))"
proof -
  let ?n = "string_of_nat (length cmd)"
  let ?buf = "x @ encode_command cmd @ t"
  have fits: "int (length cmd) \<le> LONG_MAX" "\<not> kMaxElements < int (length cmd)"
    "list_all fits_bulk cmd"
    using assms by (simp_all add: sendable_def kMaxElements_def)
  have buf: "?buf = (x @ ''*'') @ ?n @ crlf @ concat (map resp_bulk cmd) @ t"
    by (simp add: encode_command_def)
  have num: "parse_number_line ?buf (length x + 1) =
      Inr (Some (int (length cmd), length (x @ ''*'' @ ?n @ crlf)))"
    unfolding buf
    using parse_number_line_nat [OF fits(1), of "x @ ''*''" "concat (map resp_bulk cmd) @ t"] by simp
  have "?buf = (x @ ''*'' @ ?n @ crlf) @ concat (map resp_bulk cmd) @ t" using buf by simp
  then have bulks: "parse_bulks ?buf (length cmd) (length (x @ ''*'' @ ?n @ crlf)) [] =
      Inr (Some (cmd, length (x @ ''*'' @ ?n @ crlf) + length (concat (map resp_bulk cmd))))"
    using parse_bulks_encode [OF fits(3), of "x @ ''*'' @ ?n @ crlf" t "[]"] by (simp only: append_Nil)
  have nth: "?buf ! length x = CHR ''*''" "\<not> length ?buf \<le> length x"
    unfolding buf by (simp_all add: nth_append)
  show ?thesis
    using num bulks nth fits(2) by (simp add: parse_one_def encode_command_def)
qed

lemma feed_loop_encoded:
  "list_all sendable cmds \<Longrightarrow>
     feed_loop (x @ concat (map encode_command cmds)) (length x) ready =
       (None, length (x @ concat (map encode_command cmds)), ready @ cmds)"
proof (induction cmds arbitrary: x ready)
  case Nil
  then show ?case by (simp add: parse_one_def)
next
  case (Cons c cmds)
  have "feed_loop ((x @ encode_command c) @ concat (map encode_command cmds))
      (length (x @ encode_command c)) (ready @ [c]) =
      (None, length ((x @ encode_command c) @ concat (map encode_command cmds)), (ready @ [c]) @ cmds)"
    by (rule Cons.IH) (use Cons.prems in simp)
  moreover have "sendable c" "c \<noteq> []" using Cons.prems by (simp_all add: sendable_def)
  ultimately show ?case
    using parse_one_encode [of c x "concat (map encode_command cmds)"] by simp
qed

lemma feed_all_encoded:
  assumes "list_all sendable cmds" and "concat xs = concat (map encode_command cmds)"
  shows "feed_all RespParser_init xs = (None, \<lparr>rp_buf = [], rp_ready = cmds\<rparr>)"
proof -
  have "feed RespParser_init (concat (map encode_command cmds)) =
      (None, \<lparr>rp_buf = [], rp_ready = cmds\<rparr>)"
    using feed_loop_encoded [OF assms(1), of "[]" "[]"]
    by (simp add: feed_def RespParser_init_def)
  with feed_all_exn [OF quiescent_init, of xs] feed_all_ok [OF quiescent_init, of xs] assms(2)
  show ?thesis by simp
qed


section \<open>Properties\<close>

text \<open>
  The parser is independent of TCP slicing: two ways to cut the same byte stream make it
  raise the same exception, if any, and queue the same commands.
\<close>

theorem resp_slicing_independent:
  assumes "concat xs = concat ys"
  shows "fst (feed_all RespParser_init xs) = fst (feed_all RespParser_init ys) \<and>
         rp_ready (snd (feed_all RespParser_init xs)) = rp_ready (snd (feed_all RespParser_init ys))"
  by (simp add: feed_all_exn feed_all_ready quiescent_init assms)

theorem resp_slicing_independent_witness:
  "concat [''PI'', ''NG'' @ crlf] = concat [''PING'' @ crlf] \<and>
   fst (feed_all RespParser_init [''PI'', ''NG'' @ crlf]) = fst (feed_all RespParser_init [''PING'' @ crlf]) \<and>
   rp_ready (snd (feed_all RespParser_init [''PI'', ''NG'' @ crlf])) =
     rp_ready (snd (feed_all RespParser_init [''PING'' @ crlf]))"
  using resp_slicing_independent [of "[''PI'', ''NG'' @ crlf]" "[''PING'' @ crlf]"] by simp

lemma encode_command_nonempty: "encode_command cmd \<noteq> []"
  by (simp add: encode_command_def)

text \<open>
  C17. Round trip under pipelining and arbitrary slicing: however the encodings of a list of
  commands (each non-empty, at most 1024 elements of at most 64 MB) are cut, feeding the
  slices queues exactly those commands, in order, and leaves no byte behind.
\<close>

theorem resp_stream_roundtrip:
  assumes "list_all sendable cmds" and "concat xs = concat (map encode_command cmds)"
  shows "feed_all RespParser_init xs = (None, \<lparr>rp_buf = [], rp_ready = cmds\<rparr>)"
  using assms by (rule feed_all_encoded)

theorem resp_stream_roundtrip_witness:
  "list_all sendable [[''GET'', ''k''], [''PING'']] \<and>
   feed_all RespParser_init
     [take 7 (concat (map encode_command [[''GET'', ''k''], [''PING'']])),
      drop 7 (concat (map encode_command [[''GET'', ''k''], [''PING'']]))] =
     (None, \<lparr>rp_buf = [], rp_ready = [[''GET'', ''k''], [''PING'']]\<rparr>)"
proof
  show ok: "list_all sendable [[''GET'', ''k''], [''PING'']]"
    by (simp add: sendable_def kMaxElements_def kMaxBulkBytes_def)
  show "feed_all RespParser_init
     [take 7 (concat (map encode_command [[''GET'', ''k''], [''PING'']])),
      drop 7 (concat (map encode_command [[''GET'', ''k''], [''PING'']]))] =
     (None, \<lparr>rp_buf = [], rp_ready = [[''GET'', ''k''], [''PING'']]\<rparr>)"
    by (rule resp_stream_roundtrip [OF ok])
      (simp only: concat.simps append_Nil2 append_take_drop_id)
qed

lemma parse_bulks_limits:
  "parse_bulks buf n pos parts = Inr (Some (out, p)) \<Longrightarrow> list_all fits_bulk parts \<Longrightarrow>
     length out = length parts + n \<and> list_all fits_bulk out"
proof (induction n arbitrary: pos parts)
  case (Suc i)
  from Suc.prems(1) obtain len q where
    "len \<ge> 0" "len \<le> kMaxBulkBytes"
    and rec: "parse_bulks buf i (q + nat len + 2) (parts @ [substr buf q (nat len)]) = Inr (Some (out, p))"
    by (auto simp: not_less split: if_splits sum.splits option.splits)
  then have "fits_bulk (substr buf q (nat len))" by (simp add: substr_def)
  with Suc.IH [OF rec] Suc.prems(2) show ?case by simp
qed simp

text \<open>
  Limits: a multibulk request the parser returns has at most 1024 elements, each of at
  most 64 MB, whatever the bytes are.
\<close>

theorem parse_one_multibulk_limits:
  assumes "parse_one buf off = Inr (Some (cmd, p))" and "buf ! off = CHR ''*''"
  shows "int (length cmd) \<le> 1024 \<and> list_all (\<lambda>s. length s \<le> 64 * 1024 * 1024) cmd"
proof -
  from assms obtain n pos where n: "0 \<le> n" "n \<le> kMaxElements"
    and b: "parse_bulks buf (nat n) pos [] = Inr (Some (cmd, p))"
    by (auto simp: parse_one_def not_less split: if_splits sum.splits option.splits)
  from parse_bulks_limits [OF b] n show ?thesis
    by (auto simp: kMaxElements_def kMaxBulkBytes_def list_all_iff)
qed

theorem parse_one_multibulk_limits_witness:
  "parse_one (''*1'' @ crlf @ ''$2'' @ crlf @ ''ab'' @ crlf) 0 = Inr (Some ([''ab''], 12)) \<and>
   int (length [''ab'']) \<le> 1024 \<and> list_all (\<lambda>s. length s \<le> 64 * 1024 * 1024) [''ab'']"
proof -
  have p: "parse_one (''*1'' @ crlf @ ''$2'' @ crlf @ ''ab'' @ crlf) 0 = Inr (Some ([''ab''], 12))"
    by code_simp
  show ?thesis using p parse_one_multibulk_limits [OF p] by simp
qed

text \<open>
  A length that does not fit a \<open>long\<close> leaves \<open>feed\<close> with \<open>std::out_of_range\<close>, which is not
  the \<open>RespError\<close> the connection worker catches.
\<close>

theorem resp_length_overflow_escapes:
  assumes "list_all isdigit ds" and "LONG_MAX < int (nat_of_digits ds)"
  shows "fst (feed RespParser_init (''*'' @ ds @ crlf)) = Some StdOutOfRange"
proof -
  let ?buf = "''*'' @ ds @ crlf"
  obtain c cs where ds: "ds = c # cs" using assms(2) by (cases ds) (auto simp: nat_of_digits_def)
  have c: "isdigit c" using assms(1) ds by simp
  have "find_sub crlf (ds @ crlf @ []) = Some (length ds)"
    by (rule find_sub_after) (use assms(1) in \<open>auto simp: list_all_iff\<close>)
  then have sf: "str_find ?buf crlf 1 = Some (1 + length ds)" by (simp add: str_find_def)
  have sub: "substr ?buf 1 (length ds) = ds" using substr_at [OF refl, of "''*''" ds crlf] by simp
  have tw: "dropWhile isspace ds = ds" "takeWhile isdigit ds = ds" "hd ds \<noteq> CHR ''-''" "hd ds \<noteq> CHR ''+''"
    using assms(1) c ds by (auto simp: list_all_iff not_isspace_digit)
  then have "std_stol ds = Inl Out_of_range"
    using assms(2) by (simp add: std_stol_def std_sto_def Let_def ds)
  then have "parse_number_line ?buf 1 = Inl StdOutOfRange"
    unfolding parse_number_line_def sf
    using tw assms(1) sub ds by simp
  then have "parse_one ?buf 0 = Inl StdOutOfRange" by (simp add: parse_one_def)
  then show ?thesis by (simp add: feed_def RespParser_init_def)
qed

theorem resp_length_overflow_escapes_witness:
  "list_all isdigit ''9999999999999999999'' \<and>
   LONG_MAX < int (nat_of_digits ''9999999999999999999'') \<and>
   fst (feed RespParser_init (''*'' @ ''9999999999999999999'' @ crlf)) = Some StdOutOfRange"
proof -
  have d: "list_all isdigit ''9999999999999999999''" by (simp add: isdigit_def)
  have v: "LONG_MAX < int (nat_of_digits ''9999999999999999999'')" by (simp add: nat_of_digits_def)
  show ?thesis using d v resp_length_overflow_escapes [OF d v] by simp
qed

end
