(* ===== verification/Archive.thy ===== *)
theory Archive
  imports Resp Disk_Store Corpus_Index
begin

text \<open>
  The archive behind the ARCA daemon (\<open>src/src/arca/archive.cpp\<close>): the command dispatcher over
  the disk store (exact responses) and the generation memory (shared corpus). The mutex makes
  each \<open>dispatch\<close> atomic, so the commands of all connections form one sequence.

  The main results: over any such sequence a \<open>GET\<close> is answered with the last value whose
  \<open>SET\<close> was acknowledged, or nil; token payloads survive the wire; a draft served to one
  node is a continuation some node observed.
\<close>

section \<open>Commands\<close>

definition upper :: "bytes \<Rightarrow> bytes" where
  "upper s = map toupper s"

definition err_arity :: "bytes \<Rightarrow> bytes" where
  "err_arity name = resp_error (''ERR wrong number of arguments for '' @ quoted name)"

definition pack_tokens :: "tokens \<Rightarrow> bytes" where
  "pack_tokens toks = concat (map (le_bytes 4) toks)"

text \<open>\<open>None\<close> is the \<open>false\<close> of the source.\<close>

definition unpack_tokens :: "bytes \<Rightarrow> tokens option" where
  "unpack_tokens s =
     (if length s mod 4 \<noteq> 0 then None else Some (read_tokens (length s div 4) s))"

record Archive =
  ar_store :: DiskCacheStore
  ar_corpus :: CorpusIndex

definition archive_corpus_config :: "nat \<Rightarrow> corpus_config" where
  "archive_corpus_config ngram =
     \<lparr>cc_ngram = ngram, cc_max_log_bytes = 64 * 2 ^ 20, cc_max_sites = 8\<rparr>"

text \<open>Opening the archive on a directory: its items and the corpus log, if there is one.\<close>

definition Archive_open :: "nat \<Rightarrow> nat \<Rightarrow> dir_item list \<Rightarrow> bytes option \<Rightarrow> Archive" where
  "Archive_open max_bytes ngram items corpus_log =
     \<lparr>ar_store = DiskCacheStore_open max_bytes items,
      ar_corpus = CorpusIndex_open (archive_corpus_config ngram) corpus_log\<rparr>"

definition dispatch_draft :: "Archive \<Rightarrow> bytes \<Rightarrow> bytes \<Rightarrow> bytes" where
  "dispatch_draft a payload len =
     (case unpack_tokens payload of
        None \<Rightarrow> resp_error ''ERR token payload must be whole u32s''
      | Some tail \<Rightarrow>
          (case std_stoi len of
             Inl _ \<Rightarrow> resp_error ''ERR draft length is not an integer''
           | Inr k \<Rightarrow>
               if k \<le> 0 then resp_error ''ERR draft length must be positive''
               else let d = draft (ar_corpus a) tail k
                    in if d = [] then resp_nil else resp_bulk (pack_tokens d)))"

definition dispatch :: "bool \<Rightarrow> Archive \<Rightarrow> bytes list \<Rightarrow> bytes \<times> Archive" where
  "dispatch write_ok a cmd =
     (if cmd = [] then (resp_error ''ERR empty command'', a)
      else let name = upper (cmd ! 0) in
        if name = ''PING'' then (resp_simple ''PONG'', a)
        else if name = ''SET'' then
          (if length cmd \<noteq> 3 then (err_arity ''set'', a)
           else let (ok, s) = put write_ok (ar_store a) (cmd ! 1) (cmd ! 2)
                in (if ok then resp_simple ''OK''
                    else resp_error ''ERR value larger than the archive budget'',
                    a\<lparr>ar_store := s\<rparr>))
        else if name = ''GET'' then
          (if length cmd \<noteq> 2 then (err_arity ''get'', a)
           else let (r, s) = get (ar_store a) (cmd ! 1)
                in (case r of None \<Rightarrow> resp_nil | Some d \<Rightarrow> resp_bulk d, a\<lparr>ar_store := s\<rparr>))
        else if name = ''DEL'' then
          (if length cmd \<noteq> 2 then (err_arity ''del'', a)
           else let (ok, s) = remove (ar_store a) (cmd ! 1)
                in (resp_integer (if ok then 1 else 0), a\<lparr>ar_store := s\<rparr>))
        else if name = ''EXISTS'' then
          (if length cmd \<noteq> 2 then (err_arity ''exists'', a)
           else (resp_integer (if contains (ar_store a) (cmd ! 1) then 1 else 0), a))
        else if name = ''DBSIZE'' then
          (if length cmd \<noteq> 1 then (err_arity ''dbsize'', a)
           else (resp_integer (int (count (ar_store a))), a))
        else if name = ''ARCA.OBSERVE'' then
          (if length cmd \<noteq> 2 then (err_arity ''arca.observe'', a)
           else (case unpack_tokens (cmd ! 1) of
                   None \<Rightarrow> (resp_error ''ERR token payload must be whole u32s'', a)
                 | Some toks \<Rightarrow> (resp_simple ''OK'', a\<lparr>ar_corpus := observe (ar_corpus a) toks\<rparr>)))
        else if name = ''ARCA.DRAFT'' then
          (if length cmd \<noteq> 3 then (err_arity ''arca.draft'', a)
           else (dispatch_draft a (cmd ! 1) (cmd ! 2), a))
        else (resp_error (''ERR unknown command '' @ quoted (cmd ! 0)), a))"

text \<open>Commands in a row; \<open>disk i\<close> says whether the disk takes the write of command \<open>i\<close>.\<close>

fun dispatch_all :: "(nat \<Rightarrow> bool) \<Rightarrow> nat \<Rightarrow> Archive \<Rightarrow> bytes list list \<Rightarrow> bytes \<times> Archive" where
  "dispatch_all disk n a [] = ([], a)"
| "dispatch_all disk n a (cmd # cmds) =
     (let (r, a1) = dispatch (disk n) a cmd; (rs, a2) = dispatch_all disk (Suc n) a1 cmds
      in (r @ rs, a2))"

section \<open>Token payloads\<close>

lemma pack_tokens_eq: "pack_tokens ts = token_bytes ts"
  by (simp add: pack_tokens_def token_bytes_def)

lemma unpack_pack: "unpack_tokens (pack_tokens ts) = Some ts"
  using read_tokens_token_bytes [of ts "[]"] by (simp add: unpack_tokens_def pack_tokens_eq)

section \<open>What a command does to the store\<close>

text \<open>The ghost map of acknowledged values, updated from the command and its reply.\<close>

definition ghost_step :: "bytes list \<Rightarrow> bytes \<Rightarrow> (bytes \<rightharpoonup> bytes) \<Rightarrow> (bytes \<rightharpoonup> bytes)" where
  "ghost_step cmd reply g =
     (if cmd \<noteq> [] \<and> upper (cmd ! 0) = ''SET'' \<and> length cmd = 3 \<and> reply = resp_simple ''OK''
      then g(cmd ! 1 \<mapsto> cmd ! 2)
      else if cmd \<noteq> [] \<and> upper (cmd ! 0) = ''DEL'' \<and> length cmd = 2 then g(cmd ! 1 := None)
      else g)"

fun ghost_run :: "(nat \<Rightarrow> bool) \<Rightarrow> nat \<Rightarrow> Archive \<times> (bytes \<rightharpoonup> bytes) \<Rightarrow> bytes list list
    \<Rightarrow> Archive \<times> (bytes \<rightharpoonup> bytes)" where
  "ghost_run disk n (a, g) [] = (a, g)"
| "ghost_run disk n (a, g) (cmd # cmds) =
     (let (r, a1) = dispatch (disk n) a cmd
      in ghost_run disk (Suc n) (a1, ghost_step cmd r g) cmds)"

definition cmd_ok :: "bytes list \<Rightarrow> bool" where
  "cmd_ok cmd \<longleftrightarrow> list_all ok_key cmd"

lemma resp_simple_not_error [simp]: "resp_simple s \<noteq> resp_error t" "resp_error t \<noteq> resp_simple s"
  by (simp_all add: resp_simple_def resp_error_def)

text \<open>The store after a command, by the operation the command stands for.\<close>

lemma dispatch_store_cases:
  assumes "dispatch w a cmd = (r, a')"
  obtains (set) k v b s where "cmd \<noteq> []" "upper (cmd ! 0) = ''SET''" "length cmd = 3" "cmd ! 1 = k" "cmd ! 2 = v"
      "put w (ar_store a) k v = (b, s)" "ar_store a' = s" "(r = resp_simple ''OK'') = b"
  | (get) k d s where "cmd \<noteq> []" "upper (cmd ! 0) = ''GET''" "length cmd = 2" "cmd ! 1 = k"
      "get (ar_store a) k = (d, s)" "ar_store a' = s"
  | (del) k where "cmd \<noteq> []" "upper (cmd ! 0) = ''DEL''" "length cmd = 2" "cmd ! 1 = k"
      "ar_store a' = snd (remove (ar_store a) k)"
  | (other) "ar_store a' = ar_store a" "\<not> (upper (cmd ! 0) = ''SET'' \<and> length cmd = 3)"
      "\<not> (upper (cmd ! 0) = ''DEL'' \<and> length cmd = 2)"
proof (cases "cmd = []")
  case True
  with assms that(4) show ?thesis by (simp add: dispatch_def)
next
  case False
  let ?n = "upper (cmd ! 0)"
  consider "?n = ''SET''" "length cmd = 3" | "?n = ''GET''" "length cmd = 2" | "?n = ''DEL''" "length cmd = 2"
    | "\<not> (?n = ''SET'' \<and> length cmd = 3)" "\<not> (?n = ''GET'' \<and> length cmd = 2)" "\<not> (?n = ''DEL'' \<and> length cmd = 2)"
    by blast
  then show ?thesis
  proof cases
    case 1
    obtain b s where p: "put w (ar_store a) (cmd ! 1) (cmd ! 2) = (b, s)" by fastforce
    with 1 assms False have "ar_store a' = s" "(r = resp_simple ''OK'') = b"
      by (auto simp: dispatch_def split: if_splits)
    with 1 False p show ?thesis using that(1) by blast
  next
    case 2
    obtain d s where g: "get (ar_store a) (cmd ! 1) = (d, s)" by fastforce
    with 2 assms False have "ar_store a' = s" by (auto simp: dispatch_def)
    with 2 False g show ?thesis using that(2) by blast
  next
    case 3
    obtain b s where g: "remove (ar_store a) (cmd ! 1) = (b, s)" by fastforce
    with 3 assms False have "ar_store a' = snd (remove (ar_store a) (cmd ! 1))" by (auto simp: dispatch_def)
    with 3 False show ?thesis using that(3) by blast
  next
    case 4
    with assms False have "ar_store a' = ar_store a"
      by (auto simp: dispatch_def Let_def split: if_splits option.splits)
    with 4 show ?thesis using that(4) by blast
  qed
qed


lemma dispatch_store_inv:
  assumes "store_wf (ar_store a)" and "disk.coherent g (ar_store a)" and "cmd_ok cmd"
    and "dispatch w a cmd = (r, a')"
  shows "store_wf (ar_store a') \<and> disk.coherent (ghost_step cmd r g) (ar_store a')"
  using assms(4)
proof (cases rule: dispatch_store_cases)
  case (set k v b s)
  have "ok_key k" using set assms(3) by (auto simp: cmd_ok_def list_all_length)
  from disk.coherent_put [OF assms(2) this set(6)] put_wf [OF assms(1), of w k v] set
  show ?thesis by (simp add: ghost_step_def split: if_splits)
next
  case (get k d s)
  with disk.coherent_get [OF assms(2) get(5)] get_wf [OF assms(1), of k] show ?thesis
    by (simp add: ghost_step_def)
next
  case (del k)
  with disk.coherent_remove [OF assms(2), of k] remove_wf [OF assms(1), of k] show ?thesis
    by (simp add: ghost_step_def)
next
  case other
  with assms show ?thesis by (auto simp: ghost_step_def)
qed

lemma ghost_run_inv:
  "\<lbrakk>store_wf (ar_store a); disk.coherent g (ar_store a); list_all cmd_ok cmds;
    ghost_run disk n (a, g) cmds = (a', g')\<rbrakk> \<Longrightarrow>
   store_wf (ar_store a') \<and> disk.coherent g' (ar_store a')"
proof (induction cmds arbitrary: a g n)
  case (Cons cmd cmds)
  obtain r a1 where d: "dispatch (disk n) a cmd = (r, a1)" by fastforce
  from dispatch_store_inv [OF Cons.prems(1,2) _ d] Cons.prems(3)
  have "store_wf (ar_store a1)" "disk.coherent (ghost_step cmd r g) (ar_store a1)" by simp_all
  with Cons.IH [of a1 "ghost_step cmd r g" "Suc n"] Cons.prems(3,4) d show ?case by simp
qed simp

lemma dispatch_GET:
  assumes "upper name = ''GET''"
  shows "fst (dispatch w a [name, k]) = (case peek (ar_store a) k of None \<Rightarrow> resp_nil | Some d \<Rightarrow> resp_bulk d)"
proof -
  obtain r s where g: "get (ar_store a) k = (r, s)" by fastforce
  from disk.get_spec [OF g] g assms show ?thesis by (simp add: dispatch_def)
qed

lemma dispatch_SET_OK:
  assumes "upper name = ''SET''" and "fst (dispatch w a [name, k, v]) = resp_simple ''OK''" and "ok_key k"
  shows "peek (ar_store (snd (dispatch w a [name, k, v]))) k = Some v"
proof -
  obtain b s where p: "put w (ar_store a) k v = (b, s)" by fastforce
  then have d: "dispatch w a [name, k, v] = (if b then resp_simple ''OK''
      else resp_error ''ERR value larger than the archive budget'', a\<lparr>ar_store := s\<rparr>)"
    using assms(1) by (simp add: dispatch_def)
  then have b: "b" using assms(2) by (simp split: if_splits)
  with disk.put_same [of w "ar_store a" k v s] p assms(3) d show ?thesis by simp
qed

definition empty_archive :: "nat \<Rightarrow> nat \<Rightarrow> Archive" where
  "empty_archive max_bytes ngram = Archive_open max_bytes ngram [] None"

lemma empty_archive_inv:
  "store_wf (ar_store (empty_archive m n))" "disk.coherent Map.empty (ar_store (empty_archive m n))"
  using empty_store_inv [of m] by (simp_all add: empty_archive_def Archive_open_def empty_store_def)

section \<open>What a command does to the corpus\<close>

lemma dispatch_corpus:
  assumes "dispatch w a cmd = (r, a')"
  shows "ar_corpus a' = ar_corpus a \<or> (\<exists>ts. length cmd = 2 \<and> unpack_tokens (cmd ! 1) = Some ts \<and>
    upper (cmd ! 0) = ''ARCA.OBSERVE'' \<and> ar_corpus a' = observe (ar_corpus a) ts)"
  using assms
  by (auto simp: dispatch_def Let_def split: if_splits option.splits prod.splits)

text \<open>The streams the nodes fed to the corpus, in order.\<close>

fun observed :: "bytes list list \<Rightarrow> tokens list" where
  "observed [] = []"
| "observed (cmd # cmds) =
     (if length cmd = 2 \<and> upper (cmd ! 0) = ''ARCA.OBSERVE''
      then (case unpack_tokens (cmd ! 1) of None \<Rightarrow> [] | Some ts \<Rightarrow> [ts]) @ observed cmds
      else observed cmds)"

lemma fit_subset: "set (fit b ss) \<subseteq> set ss"
  using fit_suffix [of ss b] by (metis Un_upper2 set_append)

lemma observe_spec_subset: "set (observe_spec b ss ts) \<subseteq> set ss \<union> {ts}"
  using fit_subset [of b "ss @ [ts]"] by (auto simp: observe_spec_def)

lemma dispatch_all_corpus:
  assumes "represents (ar_corpus a) ss" and "ci_cfg (ar_corpus a) = cfg"
    and "length (concat ss) \<le> max_tokens cfg"
  shows "\<exists>ss'. represents (ar_corpus (snd (dispatch_all disk n a cmds))) ss' \<and>
    set ss' \<subseteq> set ss \<union> set (observed cmds) \<and>
    ci_cfg (ar_corpus (snd (dispatch_all disk n a cmds))) = cfg \<and> length (concat ss') \<le> max_tokens cfg"
  using assms
proof (induction cmds arbitrary: n a ss)
  case Nil
  then show ?case by (intro exI [of _ ss]) simp
next
  case (Cons cmd cmds)
  obtain r a1 where d: "dispatch (disk n) a cmd = (r, a1)" by fastforce
  obtain ss1 where s1: "represents (ar_corpus a1) ss1" "ci_cfg (ar_corpus a1) = cfg"
    "length (concat ss1) \<le> max_tokens cfg" "set ss1 \<subseteq> set ss \<union> set (observed [cmd])"
    using dispatch_corpus [OF d]
  proof
    assume "ar_corpus a1 = ar_corpus a"
    with Cons.prems show ?thesis by (intro that [of ss]) simp_all
  next
    assume "\<exists>ts. length cmd = 2 \<and> unpack_tokens (cmd ! 1) = Some ts \<and>
      upper (cmd ! 0) = ''ARCA.OBSERVE'' \<and> ar_corpus a1 = observe (ar_corpus a) ts"
    then obtain ts where ts: "length cmd = 2" "unpack_tokens (cmd ! 1) = Some ts"
      "upper (cmd ! 0) = ''ARCA.OBSERVE''" "ar_corpus a1 = observe (ar_corpus a) ts" by blast
    have "length (concat (observe_spec (max_tokens cfg) ss ts)) \<le> max_tokens cfg"
      using Cons.prems(3) fit_bound by (simp add: observe_spec_def)
    then show ?thesis
      using observe_represents [OF Cons.prems(1), of ts] Cons.prems ts observe_spec_subset [of "max_tokens cfg" ss ts]
      by (intro that [of "observe_spec (max_tokens cfg) ss ts"]) auto
  qed
  from Cons.IH [OF s1(1-3), of "Suc n"] obtain ss' where
    "represents (ar_corpus (snd (dispatch_all disk (Suc n) a1 cmds))) ss'"
    "set ss' \<subseteq> set ss1 \<union> set (observed cmds)"
    "ci_cfg (ar_corpus (snd (dispatch_all disk (Suc n) a1 cmds))) = cfg"
    "length (concat ss') \<le> max_tokens cfg" by blast
  with s1(4) d show ?case
    by (intro exI [of _ ss']) (auto simp: split_def Let_def split: if_splits option.splits)
qed


section \<open>Properties\<close>

text \<open>
  C15. The archive serves what was acknowledged. After any sequence of commands from any number
  of connections on a fresh archive, with failed writes, evictions and deletions, \<open>GET k\<close> is
  answered with the last value whose \<open>SET k\<close> got \<open>+OK\<close> and was not deleted since, or nil.
\<close>

theorem archive_serves_acknowledged:
  assumes "list_all cmd_ok cmds" and "ghost_run disk 0 (empty_archive m n, Map.empty) cmds = (a, g)"
    and "upper name = ''GET''"
  shows "fst (dispatch w a [name, k]) = resp_nil \<or>
    (\<exists>v. g k = Some v \<and> fst (dispatch w a [name, k]) = resp_bulk v)"
proof -
  from ghost_run_inv [OF empty_archive_inv assms(1,2)] have "disk.coherent g (ar_store a)" by simp
  then have "peek (ar_store a) k = Some v \<Longrightarrow> g k = Some v" for v
    by (auto simp: disk.coherent_def dest: map_leD)
  then show ?thesis
    using dispatch_GET [OF assms(3), of w a k] by (cases "peek (ar_store a) k") auto
qed

theorem archive_serves_acknowledged_witness:
  "\<exists>a g. ghost_run (\<lambda>_. True) 0 (empty_archive 0 3, Map.empty) [[''SET'', ''k'', ''v''], [''PING'']] = (a, g) \<and>
     (fst (dispatch True a [''get'', ''k'']) = resp_nil \<or>
      (\<exists>v. g ''k'' = Some v \<and> fst (dispatch True a [''get'', ''k'']) = resp_bulk v)) \<and>
     g ''k'' = Some ''v''"
proof -
  let ?cmds = "[[''SET'', ''k'', ''v''], [''PING'']]"
  obtain a g where r: "ghost_run (\<lambda>_. True) 0 (empty_archive 0 3, Map.empty) ?cmds = (a, g)" by fastforce
  have ok: "list_all cmd_ok ?cmds" by (simp add: cmd_ok_def ok_key_def)
  have u: "upper ''get'' = ''GET''" by code_simp
  have "fst (dispatch True (empty_archive 0 3) [''SET'', ''k'', ''v'']) = resp_simple ''OK''"
    by (simp add: dispatch_def upper_def toupper_def islower_def put_def Let_def empty_archive_def Archive_open_def
        DiskCacheStore_open_def sort_found_def)
  then have "g ''k'' = Some ''v''"
    using r by (auto simp: split_def Let_def ghost_step_def upper_def toupper_def islower_def)
  with archive_serves_acknowledged [OF ok r u, of True "''k''"] r show ?thesis by blast
qed

text \<open>
  A value whose \<open>SET\<close> was acknowledged is what the next \<open>GET\<close> returns, in any letter case
  of the command names and whatever the archive held before.
\<close>

theorem set_then_get:
  assumes "upper set_name = ''SET''" and "upper get_name = ''GET''" and "ok_key k"
    and "dispatch w a [set_name, k, v] = (resp_simple ''OK'', a')"
  shows "fst (dispatch w' a' [get_name, k]) = resp_bulk v"
proof -
  have "peek (ar_store a') k = Some v"
    using dispatch_SET_OK [OF assms(1) _ assms(3), of w a v] assms(4) by simp
  with dispatch_GET [OF assms(2), of w' a' k] show ?thesis by simp
qed

theorem set_then_get_witness:
  "\<exists>a'. dispatch True (empty_archive 0 3) [''Set'', ''k'', ''v''] = (resp_simple ''OK'', a') \<and>
     fst (dispatch False a' [''gET'', ''k'']) = resp_bulk ''v''"
proof -
  have u: "upper ''Set'' = ''SET''" "upper ''gET'' = ''GET''" by code_simp+
  obtain a' where d: "dispatch True (empty_archive 0 3) [''Set'', ''k'', ''v''] = (resp_simple ''OK'', a')"
    by (simp add: dispatch_def u put_def Let_def empty_archive_def Archive_open_def
        DiskCacheStore_open_def sort_found_def)
  have k: "ok_key ''k''" by (simp add: ok_key_def)
  show ?thesis using d set_then_get [OF u k d] by blast
qed

text \<open>
  Speculation shared by the fleet is history: after any sequence of commands on a fresh
  archive, \<open>ARCA.DRAFT\<close> is answered with nil or with the packed tokens that followed the last
  n-gram of the tail in a stream some node sent with \<open>ARCA.OBSERVE\<close>, at most \<open>k\<close> of them.
\<close>

theorem arca_draft_is_observed:
  assumes "0 < n" and "a = snd (dispatch_all disk 0 (empty_archive m n) cmds)"
    and "upper name = ''ARCA.DRAFT''" and "std_stoi len = Inr k" and "0 < k"
  shows "fst (dispatch w a [name, pack_tokens tail, len]) = resp_nil \<or>
    (\<exists>d p q. fst (dispatch w a [name, pack_tokens tail, len]) = resp_bulk (pack_tokens d) \<and>
       p @ drop (length tail - n) tail @ d @ q \<in> set (observed cmds) \<and> d \<noteq> [] \<and> int (length d) \<le> k)"
proof -
  let ?cfg = "archive_corpus_config n"
  have corpus: "ar_corpus (empty_archive m n) = CorpusIndex_empty ?cfg None"
    by (simp add: empty_archive_def Archive_open_def CorpusIndex_open_def)
  obtain ss where ss: "represents (ar_corpus a) ss" "set ss \<subseteq> set (observed cmds)"
    "ci_cfg (ar_corpus a) = ?cfg" "length (concat ss) \<le> max_tokens ?cfg"
    using dispatch_all_corpus [of "empty_archive m n" "[]" ?cfg disk 0 cmds] assms(2)
    by (auto simp: corpus) (auto simp: CorpusIndex_empty_def)
  let ?d = "draft (ar_corpus a) tail k"
  have r: "fst (dispatch w a [name, pack_tokens tail, len]) =
      (if ?d = [] then resp_nil else resp_bulk (pack_tokens ?d))"
    using assms(3-5) by (simp add: dispatch_def dispatch_draft_def unpack_pack Let_def)
  have "max_tokens ?cfg < 2 ^ 32" by (simp add: max_tokens_def archive_corpus_config_def)
  with ss(4) have small: "length (concat ss) < 2 ^ 32" by simp
  have n: "cc_ngram (ci_cfg (ar_corpus a)) = n" using ss(3) by (simp add: archive_corpus_config_def)
  show ?thesis
  proof (cases "?d = []")
    case False
    have "0 < cc_ngram (ci_cfg (ar_corpus a))" using n assms(1) by simp
    from draft_sound [OF ss(1) this small refl False] n obtain p q where
      "p @ drop (length tail - n) tail @ ?d @ q \<in> set ss" "int (length ?d) \<le> k" by auto
    with ss(2) r False show ?thesis
      by (intro disjI2 exI [of _ ?d] exI [of _ p] exI [of _ q]) auto
  qed (use r in simp)
qed

theorem arca_draft_is_observed_witness:
  "let a = snd (dispatch_all (\<lambda>_. True) 0 (empty_archive 0 2) [[''ARCA.OBSERVE'', pack_tokens [1, 2, 3]]]);
       r = fst (dispatch True a [''ARCA.DRAFT'', pack_tokens [1, 2], ''4''])
   in r = resp_nil \<or> (\<exists>d p q. r = resp_bulk (pack_tokens d) \<and>
       p @ drop (length [1, 2 :: TokenId] - 2) [1, 2] @ d @ q
         \<in> set (observed [[''ARCA.OBSERVE'', pack_tokens [1, 2, 3]]]) \<and> d \<noteq> [] \<and> int (length d) \<le> 4)"
proof -
  have u: "upper ''ARCA.DRAFT'' = ''ARCA.DRAFT''" and k: "std_stoi ''4'' = Inr 4" by code_simp+
  from arca_draft_is_observed [OF _ refl u k, where n = 2 and disk = "\<lambda>_. True" and m = 0
      and cmds = "[[''ARCA.OBSERVE'', pack_tokens [1, 2, 3]]]" and w = True and tail = "[1, 2]"]
  show ?thesis by (simp add: Let_def)
qed

text \<open>
  Token payloads survive the wire: unpacking packed tokens gives the tokens, and a
  payload has four bytes per token.
\<close>

theorem token_payload_roundtrip:
  "unpack_tokens (pack_tokens ts) = Some ts \<and> length (pack_tokens ts) = 4 * length ts"
  by (simp add: unpack_pack) (simp add: pack_tokens_eq)

end
