(* ===== verification/Arca_Wire.thy ===== *)
theory Arca_Wire
  imports Archive
begin

text \<open>
  The two ends of an ARCA connection: the connection worker of the daemon
  (\<open>src/src/arca/server.cpp\<close>, \<open>serve\<close>) and the client the engine uses
  (\<open>src/src/arca/client.cpp\<close>). A socket is the list of slices its reads return; after the
  last one the read fails (hang-up, timeout or shutdown).

  The main results: the daemon answers a well-formed request stream with the replies of its
  commands in order, however TCP slices it; the client gets from the daemon the value the
  archive holds, however the reply is sliced, and a miss or an error never drops the
  connection.
\<close>

section \<open>The connection worker\<close>

datatype serve_end = Hung_up | Protocol_error | Write_failed | Std_terminate

text \<open>
  Each read delivers a slice; the flag says whether the write of the reply to it succeeds.
  \<open>Std_terminate\<close> is an exception that leaves the detached worker thread.
\<close>

fun serve :: "(nat \<Rightarrow> bool) \<Rightarrow> nat \<Rightarrow> RespParser \<Rightarrow> Archive \<Rightarrow> (bytes \<times> bool) list
    \<Rightarrow> serve_end \<times> bytes \<times> Archive" where
  "serve disk n parser a [] = (Hung_up, [], a)"
| "serve disk n parser a ((buf, write_ok) # reads) =
     (case feed parser buf of
        (Some (RespError e), _) \<Rightarrow>
          (Protocol_error, if write_ok then resp_error (''ERR '' @ e) else [], a)
      | (Some StdOutOfRange, _) \<Rightarrow> (Std_terminate, [], a)
      | (None, parser1) \<Rightarrow>
          let (cmds, parser2) = take_ready parser1;
              (out, a1) = dispatch_all disk n a cmds
          in if out \<noteq> [] \<and> \<not> write_ok then (Write_failed, [], a1)
             else let (e, rest, a2) = serve disk (n + length cmds) parser2 a1 reads
                  in (e, out @ rest, a2))"

section \<open>The client\<close>

datatype io_exn = Parse_exn

text \<open>\<open>recv_more\<close>: the next slice, \<open>None\<close> when the read fails or returns nothing.\<close>

fun recv_more :: "bytes \<Rightarrow> bytes list \<Rightarrow> (bytes \<times> bytes list) option" where
  "recv_more buf [] = None"
| "recv_more buf (tmp # sock) = (if tmp = [] then None else Some (buf @ tmp, sock))"

function fill_until_crlf :: "bytes \<Rightarrow> bytes list \<Rightarrow> (bytes \<times> bytes list) option" where
  "fill_until_crlf buf sock =
     (if str_find buf crlf 0 \<noteq> None then Some (buf, sock)
      else (case recv_more buf sock of
              None \<Rightarrow> None
            | Some (buf1, sock1) \<Rightarrow> fill_until_crlf buf1 sock1))"
  by pat_completeness auto
termination
  by (relation "measure (\<lambda>(_, sock). length sock)") (auto elim!: recv_more.elims split: if_splits)

declare fill_until_crlf.simps [simp del]

function fill_until :: "nat \<Rightarrow> bytes \<Rightarrow> bytes list \<Rightarrow> (bytes \<times> bytes list) option" where
  "fill_until need buf sock =
     (if need \<le> length buf then Some (buf, sock)
      else (case recv_more buf sock of
              None \<Rightarrow> None
            | Some (buf1, sock1) \<Rightarrow> fill_until need buf1 sock1))"
  by pat_completeness auto
termination
  by (relation "measure (\<lambda>(_, _, sock). length sock)") (auto elim!: recv_more.elims split: if_splits)

declare fill_until.simps [simp del]

text \<open>
  \<open>read_reply\<close>: an exception of \<open>std::stol\<close>, or the reply, the flag \<open>io_ok\<close> and the slices left
  on the socket.
\<close>

definition read_reply :: "bytes list \<Rightarrow> io_exn + bytes option \<times> bool \<times> bytes list" where
  "read_reply sock =
     (case fill_until_crlf [] sock of
        None \<Rightarrow> Inr (None, False, [])
      | Some (buf, sock1) \<Rightarrow>
          let eol = the (str_find buf crlf 0);
              type = buf ! 0;
              head = (if eol = 0 then drop 1 buf else substr buf 1 (eol - 1))
          in if type = CHR ''+'' then Inr (Some [], True, sock1)
             else if type = CHR ''-'' then Inr (None, True, sock1)
             else if type = CHR ''$'' then
               (case std_stol head of
                  Inl _ \<Rightarrow> Inl Parse_exn
                | Inr n \<Rightarrow>
                    if n < 0 then Inr (None, True, sock1)
                    else (case fill_until (eol + 2 + nat n + 2) buf sock1 of
                            None \<Rightarrow> Inr (None, False, [])
                          | Some (buf2, sock2) \<Rightarrow> Inr (Some (substr buf2 (eol + 2) (nat n)), True, sock2)))
             else Inr (None, True, sock1))"

text \<open>
  The connection of the client: \<open>None\<close> when \<open>sock\<close> is not open. \<open>fresh\<close> is what a new
  connection would deliver, \<open>None\<close> when connecting fails or times out.
\<close>

definition connect :: "bytes list option \<Rightarrow> bytes list option \<Rightarrow> bytes list option" where
  "connect fresh conn = (case conn of Some s \<Rightarrow> Some s | None \<Rightarrow> fresh)"

definition get_request :: "bytes \<Rightarrow> bytes" where
  "get_request key = ''*2'' @ crlf @ ''$3'' @ crlf @ ''GET'' @ crlf @ resp_bulk key"

definition set_request :: "bytes \<Rightarrow> bytes \<Rightarrow> bytes" where
  "set_request key value = ''*3'' @ crlf @ ''$3'' @ crlf @ ''SET'' @ crlf @ resp_bulk key @ resp_bulk value"

text \<open>
  \<open>ArcaClient::get\<close>: the bytes sent, the result and the connection kept. \<open>write_ok\<close> is the
  result of \<open>write_all\<close>.
\<close>

definition client_get :: "bool \<Rightarrow> bytes list option \<Rightarrow> bytes list option \<Rightarrow> bytes
    \<Rightarrow> bytes \<times> bytes option \<times> bytes list option" where
  "client_get write_ok fresh conn key =
     (case connect fresh conn of
        None \<Rightarrow> ([], None, None)
      | Some sock \<Rightarrow>
          if \<not> write_ok then (get_request key, None, None)
          else (case read_reply sock of
                  Inl _ \<Rightarrow> (get_request key, None, None)
                | Inr (reply, io_ok, sock1) \<Rightarrow>
                    (get_request key, reply, if io_ok then Some sock1 else None)))"

definition client_set :: "bool \<Rightarrow> bytes list option \<Rightarrow> bytes list option \<Rightarrow> bytes \<Rightarrow> bytes
    \<Rightarrow> bytes \<times> bytes list option" where
  "client_set write_ok fresh conn key value =
     (case connect fresh conn of
        None \<Rightarrow> ([], None)
      | Some sock \<Rightarrow>
          if \<not> write_ok then (set_request key value, None)
          else (case read_reply sock of
                  Inl _ \<Rightarrow> (set_request key value, None)
                | Inr (_, io_ok, sock1) \<Rightarrow> (set_request key value, if io_ok then Some sock1 else None)))"


section \<open>Serving a stream of requests\<close>

lemma feed_loop_ready:
  "feed_loop buf off (r @ ready) = map_prod id (map_prod id ((@) r)) (feed_loop buf off ready)"
  by (induction off ready rule: feed_loop_induct [of buf]) auto

lemma feed_ready:
  assumes "rp_ready p = []" and "feed p x = (e, q)"
  shows "feed (p\<lparr>rp_ready := r\<rparr>) x = (e, q\<lparr>rp_ready := r @ rp_ready q\<rparr>)"
proof -
  obtain e' off ready where l: "feed_loop (rp_buf p @ x) 0 [] = (e', off, ready)"
    using prod_cases3 by blast
  then have "feed_loop (rp_buf p @ x) 0 r = (e', off, r @ ready)"
    using feed_loop_ready [of "rp_buf p @ x" 0 r "[]"] by simp
  with l assms show ?thesis by (auto simp: feed_def split: option.splits)
qed

lemma feed_all_pending:
  "\<lbrakk>rp_ready p = []; feed_all p xs = (e, q)\<rbrakk> \<Longrightarrow>
     feed_all (p\<lparr>rp_ready := r\<rparr>) xs = (e, q\<lparr>rp_ready := r @ rp_ready q\<rparr>)"
proof (induction xs arbitrary: p r q e)
  case Nil
  then show ?case by auto
next
  case (Cons x xs)
  obtain e1 p1 where f: "feed p x = (e1, p1)" by fastforce
  note f' = feed_ready [OF Cons.prems(1) f]
  show ?case
  proof (cases e1)
    case None
    let ?p = "p1\<lparr>rp_ready := []\<rparr>"
    obtain e2 q2 where all: "feed_all ?p xs = (e2, q2)" by fastforce
    from Cons.IH [OF _ this, of "rp_ready p1"] Cons.IH [OF _ all, of "r @ rp_ready p1"] Cons.prems(2) f f' None
    show ?thesis by auto
  next
    case (Some err)
    with f f' Cons.prems(2) show ?thesis by auto
  qed
qed

lemma dispatch_all_append:
  "dispatch_all disk n a (xs @ ys) =
     (let (r1, a1) = dispatch_all disk n a xs; (r2, a2) = dispatch_all disk (n + length xs) a1 ys
      in (r1 @ r2, a2))"
  by (induction xs arbitrary: n a) (auto simp: split_def Let_def)

lemma serve_stream:
  "\<lbrakk>rp_ready p = []; feed_all p xs = (None, q)\<rbrakk> \<Longrightarrow>
     serve disk n p a (map (\<lambda>x. (x, True)) xs) = (Hung_up, dispatch_all disk n a (rp_ready q))"
proof (induction xs arbitrary: p n a q)
  case (Cons x xs)
  from Cons.prems(2) obtain p1 where f: "feed p x = (None, p1)" and all: "feed_all p1 xs = (None, q)"
    by (auto split: prod.splits option.splits)
  let ?p = "p1\<lparr>rp_ready := []\<rparr>"
  obtain e2 q2 where all2: "feed_all ?p xs = (e2, q2)" by fastforce
  from feed_all_pending [OF _ this, of "rp_ready p1"] all
  have q: "e2 = None" "rp_ready q = rp_ready p1 @ rp_ready q2" by auto
  obtain o1 a1 where d: "dispatch_all disk n a (rp_ready p1) = (o1, a1)" by fastforce
  have "serve disk (n + length (rp_ready p1)) ?p a1 (map (\<lambda>x. (x, True)) xs)
      = (Hung_up, dispatch_all disk (n + length (rp_ready p1)) a1 (rp_ready q2))"
    using Cons.IH [OF _ all2 [unfolded q(1)]] by simp
  with f d q(2) show ?case
    by (simp add: take_ready_def dispatch_all_append split_def Let_def)
qed simp

lemma small_numbers: "string_of_nat (Suc (Suc 0)) = ''2''" "string_of_nat (Suc (Suc (Suc 0))) = ''3''"
  by code_simp+

lemma get_request_eq: "get_request key = encode_command [''GET'', key]"
  by (simp add: get_request_def encode_command_def resp_bulk_def small_numbers)

lemma set_request_eq: "set_request key v = encode_command [''SET'', key, v]"
  by (simp add: set_request_def encode_command_def resp_bulk_def small_numbers)

lemma serve_encoded:
  assumes "list_all sendable cmds" and "concat xs = concat (map encode_command cmds)"
  shows "serve disk n RespParser_init a (map (\<lambda>x. (x, True)) xs) = (Hung_up, dispatch_all disk n a cmds)"
  using serve_stream [OF _ feed_all_encoded [OF assms], of disk n a] by (simp add: RespParser_init_def)

section \<open>Reading a reply\<close>

lemma str_find_stable: "str_find buf pat 0 = Some i \<Longrightarrow> str_find (buf @ t) pat 0 = Some j \<Longrightarrow> i = j"
  using str_find_append_Some [of buf pat 0 i t] by simp

lemma fill_until_crlf_ok:
  "\<lbrakk>[] \<notin> set sock; str_find (buf @ concat sock) crlf 0 = Some e\<rbrakk> \<Longrightarrow>
     \<exists>buf1 sock1. fill_until_crlf buf sock = Some (buf1, sock1) \<and> buf1 @ concat sock1 = buf @ concat sock \<and>
       str_find buf1 crlf 0 = Some e \<and> [] \<notin> set sock1"
proof (induction sock arbitrary: buf)
  case Nil
  then show ?case by (simp add: fill_until_crlf.simps)
next
  case (Cons x sock)
  show ?case
  proof (cases "str_find buf crlf 0")
    case None
    with Cons.IH [of "buf @ x"] Cons.prems show ?thesis by (auto simp: fill_until_crlf.simps [of buf])
  next
    case (Some i)
    with Cons.prems str_find_stable have "i = e" by blast
    with Some Cons.prems show ?thesis by (simp add: fill_until_crlf.simps [of buf])
  qed
qed

lemma fill_until_ok:
  "\<lbrakk>[] \<notin> set sock; need \<le> length (buf @ concat sock)\<rbrakk> \<Longrightarrow>
     \<exists>buf1 sock1. fill_until need buf sock = Some (buf1, sock1) \<and> buf1 @ concat sock1 = buf @ concat sock \<and>
       need \<le> length buf1 \<and> [] \<notin> set sock1"
proof (induction sock arbitrary: buf)
  case Nil
  then show ?case by (simp add: fill_until.simps)
next
  case (Cons x sock)
  show ?case
  proof (cases "need \<le> length buf")
    case True
    with Cons.prems show ?thesis by (simp add: fill_until.simps [of need buf])
  next
    case False
    with Cons.IH [of "buf @ x"] Cons.prems show ?thesis by (auto simp: fill_until.simps [of need buf])
  qed
qed

lemma no_slices: "[] \<notin> set xs \<Longrightarrow> concat xs = [] \<Longrightarrow> xs = []"
  by (cases xs) auto

text \<open>The status line of a reply, however it is sliced.\<close>

lemma reply_line:
  assumes "[] \<notin> set sock" and "concat sock = c # line @ crlf @ rest" and "CHR 0x0D \<notin> set (c # line)"
  obtains buf sock1 where "fill_until_crlf [] sock = Some (buf, sock1)" "buf @ concat sock1 = concat sock"
    "str_find buf crlf 0 = Some (Suc (length line))" "[] \<notin> set sock1" "buf ! 0 = c"
    "substr buf 1 (length line) = line"
proof -
  have f: "str_find (concat sock) crlf 0 = Some (Suc (length line))"
    using find_sub_after [of crlf "c # line" rest] assms(2,3) by (simp add: str_find_def)
  from fill_until_crlf_ok [OF assms(1), of "[]"] f obtain buf sock1 where
    b: "fill_until_crlf [] sock = Some (buf, sock1)" "buf @ concat sock1 = concat sock"
    "str_find buf crlf 0 = Some (Suc (length line))" "[] \<notin> set sock1" by auto
  from str_find_Some [OF b(3)] have len: "Suc (length line) + 2 \<le> length buf" by simp
  then obtain m where m: "length buf = Suc (length line + m)"
    by (metis add_leD1 add_Suc le_Suc_ex)
  have "buf = take (length buf) (c # line @ crlf @ rest)"
    using b(2) assms(2) by (metis append_eq_conv_conj)
  then have buf: "buf = c # line @ take m (crlf @ rest)" unfolding m by simp
  show ?thesis
  proof (rule that [OF b])
    show "buf ! 0 = c" by (subst buf) simp
    show "substr buf 1 (length line) = line" by (subst buf) (simp add: substr_def)
  qed
qed


lemma read_reply_simple:
  assumes "[] \<notin> set sock" and "concat sock = resp_simple s" and "CHR 0x0D \<notin> set s"
  shows "\<exists>sock1. read_reply sock = Inr (Some [], True, sock1)"
proof -
  have e: "concat sock = CHR ''+'' # s @ crlf @ []" "CHR 0x0D \<notin> set (CHR ''+'' # s)"
    using assms by (simp_all add: resp_simple_def)
  obtain buf sock1 where "fill_until_crlf [] sock = Some (buf, sock1)" "buf ! 0 = CHR ''+''"
    by (rule reply_line [OF assms(1) e])
  then show ?thesis by (simp add: read_reply_def Let_def)
qed

lemma read_reply_nil:
  assumes "[] \<notin> set sock" and "concat sock = resp_nil"
  shows "read_reply sock = Inr (None, True, [])"
proof -
  have num: "std_stol ''-1'' = Inr (- 1)" by code_simp
  have e: "concat sock = CHR ''$'' # ''-1'' @ crlf @ []" "CHR 0x0D \<notin> set (CHR ''$'' # ''-1'')"
    using assms by (simp_all add: resp_nil_def)
  obtain buf sock1 where
    b: "fill_until_crlf [] sock = Some (buf, sock1)" "buf @ concat sock1 = concat sock"
    "str_find buf crlf 0 = Some (Suc (length ''-1''))" "[] \<notin> set sock1" "buf ! 0 = CHR ''$''"
    "substr buf 1 (length ''-1'') = ''-1''"
    by (rule reply_line [OF assms(1) e])
  have "length (buf @ concat sock1) = 5" unfolding b(2) e(1) by simp
  then have "length buf + length (concat sock1) = 5" by (simp only: length_append)
  moreover have "5 \<le> length buf" using str_find_Some [OF b(3)] by simp
  ultimately have "length (concat sock1) = 0" by linarith
  then have "concat sock1 = []" by (simp only: length_0_conv)
  with b(4) have "sock1 = []" by (simp add: no_slices)
  with b num show ?thesis by (simp add: read_reply_def Let_def)
qed

lemma read_reply_bulk:
  assumes "[] \<notin> set sock" and "concat sock = resp_bulk v" and "int (length v) \<le> LONG_MAX"
  shows "read_reply sock = Inr (Some v, True, [])"
proof -
  let ?l = "string_of_nat (length v)"
  have nocr: "CHR 0x0D \<notin> set (CHR ''$'' # ?l)" using not_digit_not_in_string_of_nat by simp
  from reply_line [of sock "CHR ''$''" ?l "v @ crlf", OF assms(1) _ nocr] assms(2) obtain buf sock1 where
    b: "fill_until_crlf [] sock = Some (buf, sock1)" "buf @ concat sock1 = concat sock"
    "str_find buf crlf 0 = Some (Suc (length ?l))" "[] \<notin> set sock1" "buf ! 0 = CHR ''$''" "substr buf 1 (length ?l) = ?l"
    by (auto simp: resp_bulk_def)
  let ?need = "Suc (length ?l) + 2 + length v + 2"
  have need: "length (concat sock) = ?need" using assms(2) by (simp add: resp_bulk_def)
  from fill_until_ok [OF b(4), of ?need buf] b(2) need obtain buf2 sock2 where
    f: "fill_until ?need buf sock1 = Some (buf2, sock2)" "buf2 @ concat sock2 = concat sock"
    "?need \<le> length buf2" "[] \<notin> set sock2" by auto
  have "length buf2 + length (concat sock2) = ?need" using f(2) need by (metis length_append)
  with f(3) have "length (concat sock2) = 0" by linarith
  then have "concat sock2 = []" by (simp only: length_0_conv)
  with f(2,4) have s2: "sock2 = []" "buf2 = resp_bulk v" using assms(2) no_slices by auto
  have "substr buf2 (Suc (length ?l) + 2) (length v) = v"
    using substr_at [of "length v" v "''$'' @ ?l @ crlf" crlf] by (simp add: s2 resp_bulk_def)
  with b f s2 std_stol_string_of_nat [OF assms(3)] show ?thesis
    by (simp add: read_reply_def Let_def)
qed

section \<open>Properties\<close>

text \<open>
  C25. The daemon answers a stream of requests with the replies of its commands in order,
  however TCP slices the stream: the replies and the archive it leaves are those of
  dispatching the commands one after the other.
\<close>

theorem serve_answers_in_order:
  assumes "list_all sendable cmds" and "concat xs = concat (map encode_command cmds)"
  shows "serve disk 0 RespParser_init a (map (\<lambda>x. (x, True)) xs) = (Hung_up, dispatch_all disk 0 a cmds)"
  using assms by (rule serve_encoded)

theorem serve_answers_in_order_witness:
  "serve (\<lambda>_. True) 0 RespParser_init (empty_archive 0 3)
     (map (\<lambda>x. (x, True)) [take 5 (encode_command [''PING'']), drop 5 (encode_command [''PING''])]) =
   (Hung_up, dispatch_all (\<lambda>_. True) 0 (empty_archive 0 3) [[''PING'']]) \<and>
   fst (dispatch_all (\<lambda>_. True) 0 (empty_archive 0 3) [[''PING'']]) = resp_simple ''PONG''"
proof -
  have ok: "list_all sendable [[''PING'']]" by (simp add: sendable_def kMaxElements_def kMaxBulkBytes_def)
  have "fst (dispatch_all (\<lambda>_. True) 0 (empty_archive 0 3) [[''PING'']]) = resp_simple ''PONG''"
    by (simp add: dispatch_def upper_def toupper_def islower_def)
  with serve_answers_in_order [OF ok, of "[take 5 (encode_command [''PING'']), drop 5 (encode_command [''PING''])]"
      "\<lambda>_. True" "empty_archive 0 3"]
  show ?thesis by simp
qed

text \<open>
  End to end, the client reads what the archive holds: when the daemon receives the
  client's \<open>GET\<close> and its reply arrives, both cut into any slices, \<open>get\<close> returns exactly the
  content of the archive for the key, hit or miss, and the connection stays open and in
  step.
\<close>

theorem client_get_end_to_end:
  assumes "concat reqs = get_request key" and "int (length key) \<le> kMaxBulkBytes"
    and "serve disk 0 RespParser_init a (map (\<lambda>x. (x, True)) reqs) = (e, out, a')"
    and "concat replies = out" and "[] \<notin> set replies"
    and "\<And>v. peek (ar_store a) key = Some v \<Longrightarrow> int (length v) \<le> LONG_MAX"
  shows "client_get True (Some replies) None key = (get_request key, peek (ar_store a) key, Some [])"
proof -
  have "list_all sendable [[''GET'', key]]"
    using assms(2) by (simp add: sendable_def kMaxElements_def kMaxBulkBytes_def)
  from serve_encoded [OF this, of reqs disk 0 a] assms(1,3)
  have "out = fst (dispatch (disk 0) a [''GET'', key])"
    by (auto simp: get_request_eq split_def Let_def dest: arg_cong [of _ _ fst])
  also have "\<dots> = (case peek (ar_store a) key of None \<Rightarrow> resp_nil | Some d \<Rightarrow> resp_bulk d)"
    by (rule dispatch_GET) (simp add: upper_def toupper_def islower_def)
  finally have out: "out = \<dots>" .
  have "read_reply replies = Inr (peek (ar_store a) key, True, [])"
  proof (cases "peek (ar_store a) key")
    case None
    with out assms(4,5) show ?thesis by (simp add: read_reply_nil)
  next
    case (Some v)
    with out assms(4,5,6) show ?thesis by (simp add: read_reply_bulk)
  qed
  then show ?thesis by (simp add: client_get_def connect_def)
qed

theorem client_get_end_to_end_witness:
  "\<exists>a' replies. serve (\<lambda>_. True) 0 RespParser_init (empty_archive 0 3) [(get_request ''k'', True)]
      = (Hung_up, resp_nil, a') \<and> concat replies = resp_nil \<and>
    client_get True (Some replies) None ''k'' = (get_request ''k'', peek (ar_store (empty_archive 0 3)) ''k'', Some [])"
proof -
  let ?a = "empty_archive 0 3"
  have none: "peek (ar_store ?a) k = None" for k
    using empty_archive_inv(2) [of 0 3] by (auto simp: disk.coherent_def map_le_iff)
  have nil: "fst (dispatch True ?a [''GET'', ''k'']) = resp_nil"
    using dispatch_GET [of "''GET''" True ?a "''k''"] none by (simp add: upper_def toupper_def islower_def)
  have ok: "list_all sendable [[''GET'', ''k'']]" by (simp add: sendable_def kMaxElements_def kMaxBulkBytes_def)
  obtain a' where s: "serve (\<lambda>_. True) 0 RespParser_init ?a (map (\<lambda>x. (x, True)) [get_request ''k'']) = (Hung_up, resp_nil, a')"
    using serve_encoded [OF ok, of "[get_request ''k'']" "\<lambda>_. True" 0 ?a] nil
    by (simp add: get_request_eq split_def Let_def del: serve.simps) (metis prod.collapse)
  have "client_get True (Some [resp_nil]) None ''k'' = (get_request ''k'', peek (ar_store ?a) ''k'', Some [])"
    by (rule client_get_end_to_end [OF _ _ s]) (simp_all add: kMaxBulkBytes_def resp_nil_def none)
  then show ?thesis using s by (intro exI [of _ a'] exI [of _ "[resp_nil]"]) simp
qed




text \<open>
  A malformed request loses the valid ones that arrived with it: when a slice holds complete
  commands followed by a malformed one, \<open>feed\<close> throws before \<open>take\<close> is reached, so none of the
  commands of that slice is executed, while the same bytes cut before the malformed request
  execute them.
\<close>

theorem malformed_slice_drops_commands:
  "serve disk 0 RespParser_init a [(''PING'' @ crlf @ ''*x'' @ crlf, True)] =
     (Protocol_error, resp_error (''ERR non-numeric RESP length: x''), a) \<and>
   serve disk 0 RespParser_init a [(''PING'' @ crlf, True), (''*x'' @ crlf, True)] =
     (Protocol_error, resp_simple ''PONG'' @ resp_error (''ERR non-numeric RESP length: x''), a)"
proof -
  have f: "feed RespParser_init (''PING'' @ crlf @ ''*x'' @ crlf) =
      (Some (RespError ''non-numeric RESP length: x''),
       \<lparr>rp_buf = ''PING'' @ crlf @ ''*x'' @ crlf, rp_ready = [[''PING'']]\<rparr>)"
    "feed RespParser_init (''PING'' @ crlf) = (None, \<lparr>rp_buf = [], rp_ready = [[''PING'']]\<rparr>)"
    "feed \<lparr>rp_buf = [], rp_ready = []\<rparr> (''*x'' @ crlf) =
      (Some (RespError ''non-numeric RESP length: x''), \<lparr>rp_buf = ''*x'' @ crlf, rp_ready = []\<rparr>)"
    by code_simp+
  have d: "dispatch (disk 0) a [''PING''] = (resp_simple ''PONG'', a)"
    by (simp add: dispatch_def upper_def toupper_def islower_def)
  show ?thesis using f d by (simp add: take_ready_def Let_def)
qed

text \<open>
  A command name is echoed raw into the error reply: a name that contains CRLF makes one
  command produce two replies, which puts a pipelining client out of step.
\<close>

theorem unknown_command_splits_reply:
  "fst (dispatch w a [''X'' @ crlf @ ''+OK'']) =
     resp_error (''ERR unknown command '' @ [CHR 0x27] @ ''X'') @ resp_simple (''OK'' @ [CHR 0x27])"
proof -
  have "upper (''X'' @ crlf @ ''+OK'') = ''X'' @ crlf @ ''+OK''" by code_simp
  then show ?thesis by (simp add: dispatch_def resp_error_def resp_simple_def)
qed

end
