(* ===== verification/Response_Cache.thy ===== *)
theory Response_Cache
  imports Serving Arca_Wire
begin

text \<open>
  The transparent response cache: the engine (\<open>core/engine.cpp\<close>, \<open>generate_stream\<close>) in front of an ARCA
  daemon reached through the client (\<open>arca/client.cpp\<close>, \<open>arca/server.cpp\<close>).

  The locale \<open>response_cache\<close> is what the engine relies on: a value that is read is held, and what is held
  was held before or has just been written. A cache may lose anything at any time. The engine's
  transparency is proved from these laws; the interpretation shows that client, wire and daemon
  together satisfy them.
\<close>

section \<open>The interface\<close>

definition answers_only :: "(bytes \<Rightarrow> bool) \<Rightarrow> ('q \<Rightarrow> bytes) \<Rightarrow> ('q \<Rightarrow> bytes) \<Rightarrow> 'q set \<Rightarrow> (bytes \<rightharpoonup> bytes) \<Rightarrow> bool" where
  "answers_only fits key answer Q m \<longleftrightarrow>
     (\<forall>k v. m k = Some v \<longrightarrow> fits v \<and> (\<forall>q \<in> Q. key q = k \<longrightarrow> v = answer q))"

locale response_cache =
  fixes A :: "'a ArcaCache" and holds :: "'a \<Rightarrow> bytes \<rightharpoonup> bytes" and fits key_ok :: "bytes \<Rightarrow> bool"
  assumes get_sound: "\<forall>k v. holds a k = Some v \<longrightarrow> fits v \<Longrightarrow> key_ok k \<Longrightarrow> ac_get A a k = (r, a1) \<Longrightarrow>
      (\<forall>v. r = Some v \<longrightarrow> holds a k = Some v) \<and> holds a1 \<subseteq>\<^sub>m holds a"
    and set_sound: "fits v \<Longrightarrow> key_ok k \<Longrightarrow> holds (ac_set A a k v) k' = Some w \<Longrightarrow>
      k' = k \<and> w = v \<or> holds a k' = Some w"
begin

lemma answers_get:
  assumes "answers_only fits key answer Q (holds a)" and "key_ok (key q)" and "q \<in> Q" and "ac_get A a (key q) = (r, a1)"
  shows "answers_only fits key answer Q (holds a1)" and "r = Some v \<Longrightarrow> v = answer q"
proof -
  have g: "(\<forall>v. r = Some v \<longrightarrow> holds a (key q) = Some v) \<and> holds a1 \<subseteq>\<^sub>m holds a"
    using assms by (intro get_sound) (auto simp: answers_only_def)
  then show "answers_only fits key answer Q (holds a1)"
    using assms(1) map_leD [of "holds a1" "holds a"] unfolding answers_only_def by blast
  show "v = answer q" if "r = Some v"
    using g that assms(1,3) unfolding answers_only_def by blast
qed

lemma answers_set:
  assumes "answers_only fits key answer Q (holds a)" and "key_ok (key q)" and "q \<in> Q" and "fits (answer q)"
    and "\<And>q'. q' \<in> Q \<Longrightarrow> key q' = key q \<Longrightarrow> answer q' = answer q"
  shows "answers_only fits key answer Q (holds (ac_set A a (key q) (answer q)))"
  unfolding answers_only_def
proof (intro allI impI)
  fix k v
  assume "holds (ac_set A a (key q) (answer q)) k = Some v"
  from set_sound [OF assms(4,2) this] assms(1,4,5)
  show "fits v \<and> (\<forall>q \<in> Q. key q = k \<longrightarrow> v = answer q)" unfolding answers_only_def by auto
qed

end

section \<open>Client, wire and daemon\<close>

text \<open>The blocks that a byte string is read in, 4096 bytes at most.\<close>

function blocks :: "bytes \<Rightarrow> bytes list" where
  "blocks s = (if s = [] then [] else take 4096 s # blocks (drop 4096 s))"
  by pat_completeness auto
termination
  by (relation "measure length") auto

declare blocks.simps [simp del]

lemma concat_blocks [simp]: "concat (blocks s) = s"
  by (induction s rule: blocks.induct) (subst blocks.simps, simp)

lemma blocks_nonempty [simp]: "[] \<notin> set (blocks s)"
  by (induction s rule: blocks.induct) (subst blocks.simps, simp)

text \<open>
  One call of the client, over a fresh connection served by the daemon. \<open>up\<close> says whether the daemon is
  reachable for this key, \<open>disk\<close> whether its disk writes succeed.
\<close>

definition link_get :: "(bytes \<Rightarrow> bool) \<Rightarrow> bool \<Rightarrow> Archive \<Rightarrow> bytes \<Rightarrow> bytes option \<times> Archive" where
  "link_get up disk a k =
     (if up k
      then (case serve (\<lambda>_. disk) 0 RespParser_init a (map (\<lambda>x. (x, True)) (blocks (get_request k))) of
              (_, out, a1) \<Rightarrow> (fst (snd (client_get True (Some (blocks out)) None k)), a1))
      else (fst (snd (client_get True None None k)), a))"

definition link_set :: "(bytes \<Rightarrow> bool) \<Rightarrow> bool \<Rightarrow> Archive \<Rightarrow> bytes \<Rightarrow> bytes \<Rightarrow> Archive" where
  "link_set up disk a k v =
     (if up k
      then snd (snd (serve (\<lambda>_. disk) 0 RespParser_init a (map (\<lambda>x. (x, True)) (blocks (set_request k v)))))
      else a)"

definition arca_link :: "(bytes \<Rightarrow> bool) \<Rightarrow> bool \<Rightarrow> Archive ArcaCache" where
  "arca_link up disk = \<lparr>ac_get = link_get up disk, ac_set = link_set up disk\<rparr>"

definition bulk_fits :: "bytes \<Rightarrow> bool" where
  "bulk_fits v \<longleftrightarrow> int (length v) \<le> kMaxBulkBytes"

definition archive_holds :: "Archive \<Rightarrow> bytes \<rightharpoonup> bytes" where
  "archive_holds a = peek (ar_store a)"

lemma upper_commands: "upper ''GET'' = ''GET''" "upper ''SET'' = ''SET''"
  by code_simp+

lemma serve_one:
  assumes "sendable cmd"
  shows "serve (\<lambda>_. disk) 0 RespParser_init a (map (\<lambda>x. (x, True)) (blocks (encode_command cmd))) =
    (Hung_up, dispatch disk a cmd)"
  using serve_encoded [of "[cmd]" "blocks (encode_command cmd)" "\<lambda>_. disk" 0 a] assms by (simp add: split_def)

lemma sendable_request:
  assumes "bulk_fits k" shows "sendable [''GET'', k]" and "bulk_fits v \<Longrightarrow> sendable [''SET'', k, v]"
  using assms by (simp_all add: sendable_def kMaxElements_def kMaxBulkBytes_def bulk_fits_def)

lemma link_get_sound:
  assumes fit: "\<forall>k v. archive_holds a k = Some v \<longrightarrow> bulk_fits v" and k: "bulk_fits k"
    and get: "link_get up disk a k = (r, a1)"
  shows "(\<forall>v. r = Some v \<longrightarrow> archive_holds a k = Some v) \<and> archive_holds a1 \<subseteq>\<^sub>m archive_holds a"
proof (cases "up k")
  case False
  with get show ?thesis by (auto simp: link_get_def client_get_def connect_def)
next
  case True
  obtain out a2 where d: "dispatch disk a [''GET'', k] = (out, a2)" by fastforce
  have out: "out = (case archive_holds a k of None \<Rightarrow> resp_nil | Some d \<Rightarrow> resp_bulk d)"
    using dispatch_GET [OF upper_commands(1), of disk a k] d by (simp add: archive_holds_def)
  have s: "serve (\<lambda>_. disk) 0 RespParser_init a (map (\<lambda>x. (x, True)) (blocks (get_request k))) = (Hung_up, out, a2)"
    unfolding get_request_eq using serve_one [OF sendable_request(1) [OF k], of disk a] d by simp
  with get True have r: "r = fst (snd (client_get True (Some (blocks out)) None k))" "a1 = a2"
    by (simp_all add: link_get_def)
  have le: "archive_holds a2 \<subseteq>\<^sub>m archive_holds a"
    using d
  proof (cases rule: dispatch_store_cases)
    case (get k' v s)
    with disk.get_spec [of "ar_store a" k' v s] show ?thesis by (simp add: archive_holds_def)
  qed (simp_all add: upper_commands archive_holds_def)
  have "r = archive_holds a k"
  proof (cases "archive_holds a k")
    case None
    with out have "read_reply (blocks out) = Inr (None, True, [])" by (intro read_reply_nil) simp_all
    with r None show ?thesis by (simp add: client_get_def connect_def)
  next
    case (Some v)
    have "bulk_fits v" using fit Some by blast
    then have "int (length v) \<le> LONG_MAX" by (simp add: bulk_fits_def kMaxBulkBytes_def)
    with out Some have "read_reply (blocks out) = Inr (Some v, True, [])" by (intro read_reply_bulk) simp_all
    with r Some show ?thesis by (simp add: client_get_def connect_def)
  qed
  with le r show ?thesis by simp
qed

lemma link_set_sound:
  assumes v: "bulk_fits v" and k: "bulk_fits k" and w: "archive_holds (link_set up disk a k v) k' = Some w"
  shows "k' = k \<and> w = v \<or> archive_holds a k' = Some w"
proof (cases "up k")
  case False
  with w show ?thesis by (simp add: link_set_def)
next
  case True
  obtain out a2 where d: "dispatch disk a [''SET'', k, v] = (out, a2)" by fastforce
  have a2: "link_set up disk a k v = a2"
    using True d serve_one [OF sendable_request(2) [OF k v], of disk a] by (simp add: link_set_def set_request_eq)
  have key: "ok_key k" using k by (simp add: bulk_fits_def kMaxBulkBytes_def ok_key_def)
  obtain b s where p: "put disk (ar_store a) k v = (b, s)" by fastforce
  then have s: "ar_store a2 = s" using d by (auto simp: dispatch_def upper_commands split: if_splits)
  show ?thesis
  proof (cases b)
    case True
    with p key disk.put_same [of disk "ar_store a" k v s] disk.put_other [OF p key, of k' w] w s a2
    show ?thesis by (cases "k' = k") (auto simp: archive_holds_def)
  next
    case False
    with p disk.put_fail [of disk "ar_store a" k v s] w s a2 show ?thesis
      by (auto simp: archive_holds_def dest: map_leD)
  qed
qed

interpretation arca: response_cache "arca_link up disk" archive_holds bulk_fits bulk_fits
  for up disk
  by unfold_locales (auto simp: arca_link_def dest: link_get_sound link_set_sound)


section \<open>Keys\<close>

lemma bit_of_nibble: "bit (drop_bit n h AND (15 :: u64)) j \<longleftrightarrow> j < 4 \<and> bit h (n + j)"
proof -
  have "drop_bit n h AND 15 = take_bit 4 (drop_bit n h)" by (simp add: take_bit_eq_mask mask_eq_exp_minus_1)
  then show ?thesis by (simp add: bit_take_bit_iff bit_drop_bit_eq)
qed

lemma hex_digits_inject:
  assumes "''0123456789abcdef'' ! i = ''0123456789abcdef'' ! j" and "i < 16" and "j < 16"
  shows "i = j"
proof -
  have "distinct ''0123456789abcdef''" by code_simp
  moreover have "length ''0123456789abcdef'' = 16" by simp
  ultimately show ?thesis using assms nth_eq_iff_index_eq by metis
qed

lemma nibble_less: "unat (drop_bit n h AND (15 :: u64)) < 16"
proof -
  have "drop_bit n h AND 15 \<le> (15 :: u64)" by (rule word_and_le1)
  then have "unat (drop_bit n h AND 15) \<le> unat (15 :: u64)" by (simp only: word_le_nat_alt)
  also have "\<dots> = 15" by simp
  finally show ?thesis by simp
qed

lemma hex16_inject:
  assumes "hex16 h = hex16 h'"
  shows "h = h'"
proof (rule bit_word_eqI)
  fix n assume "n < LENGTH(64)"
  then have n: "n < 64" by simp
  define i where "i = 15 - n div 4"
  have i: "i \<in> set [0..<16]" "4 * (15 - i) + n mod 4 = n" using n by (auto simp: i_def)
  from assms have "''0123456789abcdef'' ! unat (drop_bit (4 * (15 - i)) h AND 15) =
      ''0123456789abcdef'' ! unat (drop_bit (4 * (15 - i)) h' AND 15)"
    unfolding hex16_def map_eq_conv using i(1) by blast
  then have "unat (drop_bit (4 * (15 - i)) h AND 15) = unat (drop_bit (4 * (15 - i)) h' AND 15)"
    by (rule hex_digits_inject) (rule nibble_less)+
  then have "drop_bit (4 * (15 - i)) h AND 15 = drop_bit (4 * (15 - i)) h' AND 15" by (simp only: word_unat_eq_iff)
  then have "bit (drop_bit (4 * (15 - i)) h AND 15) (n mod 4) = bit (drop_bit (4 * (15 - i)) h' AND 15) (n mod 4)" by simp
  then show "bit h n = bit h' n" using i(2) by (simp add: bit_of_nibble)
qed

lemma string_of_int_char: "c \<in> set (string_of_int i) \<Longrightarrow> isdigit c \<or> c = CHR ''-''"
  by (auto simp: string_of_int_def split: if_splits dest: isdigit_string_of_nat)

lemma string_of_int_inject: "string_of_int i = string_of_int j \<Longrightarrow> i = j"
proof -
  have "string_of_nat n \<noteq> CHR ''-'' # ds" for n ds
    using isdigit_string_of_nat [of "CHR ''-''" n] by (auto simp: isdigit_def)
  then show "string_of_int i = string_of_int j \<Longrightarrow> i = j"
    by (auto simp: string_of_int_def split: if_splits dest: sym)
qed

lemma separator_split:
  assumes "xs @ c # ys = xs' @ c # ys'" and "c \<notin> set xs" and "c \<notin> set xs'"
  shows "xs = xs' \<and> ys = ys'"
proof -
  have "takeWhile (\<lambda>x. x \<noteq> c) (zs @ c # us) = zs" if "c \<notin> set zs" for zs us
    using that by (induction zs) auto
  from this [OF assms(2), of ys] this [OF assms(3), of ys'] assms(1) show ?thesis by simp
qed

lemma cache_material_inject:
  assumes "cache_material tag p g = cache_material tag p' g'"
  shows "p = p' \<and> gc_max_tokens g = gc_max_tokens g'"
proof -
  have no: "CHR 0x1F \<notin> set (string_of_int i)" for i using string_of_int_char by (force simp: isdigit_def)
  from assms have "string_of_int (gc_max_tokens g) @ CHR 0x1F # p = string_of_int (gc_max_tokens g') @ CHR 0x1F # p'"
    by (simp add: cache_material_def)
  from separator_split [OF this no no] string_of_int_inject show ?thesis by blast
qed

section \<open>The model's answer\<close>

definition model_answer :: "('b, 'd, 'r, 'a) engine_env \<Rightarrow> (tokens \<Rightarrow> logits) \<Rightarrow> bytes \<times> GenerationConfig \<Rightarrow> bytes" where
  "model_answer E eval q =
     (case prompt_tokens (ee_B E) (fst q) of
        Inl _ \<Rightarrow> []
      | Inr tokens \<Rightarrow> concat (pieces_of (ee_B E) (greedy_ref (snd q) eval (be_is_eog (ee_B E))
          (token_cb (ee_B E) [] (\<lambda>_. Inr True)) (be_context_length (ee_B E)) (max_out (snd q)) tokens [])))"

lemma greedy_ref_penalties:
  assumes "gc_repeat_penalty g = gc_repeat_penalty g'" and "gc_repeat_last_n g = gc_repeat_last_n g'"
  shows "greedy_ref g eval eog cb n_ctx n h d = greedy_ref g' eval eog cb n_ctx n h d"
proof (induction n arbitrary: h d)
  case (Suc n)
  have "greedy_token g l r = greedy_token g' l r" for l r
    using assms by (simp add: greedy_token_def repeat_penalty_def)
  with Suc show ?case by (simp add: Let_def)
qed simp

text \<open>
  The requests of a deployment: greedy ones the model can answer, whose texts the hash tells apart and
  where the token limit determines the penalties, which the key leaves out.
\<close>

definition askable :: "('b, 'd, 'r, 'a) engine_env \<Rightarrow> (tokens \<Rightarrow> logits) \<Rightarrow> tokens set \<Rightarrow> bytes \<times> GenerationConfig \<Rightarrow> bool" where
  "askable E eval S q \<longleftrightarrow>
     (\<exists>tokens. prompt_tokens (ee_B E) (fst q) = Inr tokens \<and> in_use S tokens \<and> length tokens < be_context_length (ee_B E)) \<and>
     1 \<le> gc_max_tokens (snd q) \<and> greedy_world E eval (snd q) \<and> \<not> gc_echo_prompt (snd q)"

definition keys_apart :: "('b, 'd, 'r, 'a) engine_env \<Rightarrow> bytes \<Rightarrow> (bytes \<times> GenerationConfig) set \<Rightarrow> bool" where
  "keys_apart E tag Q \<longleftrightarrow>
     inj_on (ee_hash E) ((\<lambda>q. cache_material tag (fst q) (snd q)) ` Q) \<and>
     (\<forall>q \<in> Q. \<forall>q' \<in> Q. fst q = fst q' \<and> gc_max_tokens (snd q) = gc_max_tokens (snd q') \<longrightarrow>
        gc_repeat_penalty (snd q) = gc_repeat_penalty (snd q') \<and> gc_repeat_last_n (snd q) = gc_repeat_last_n (snd q'))"

abbreviation query_key :: "('b, 'd, 'r, 'a) engine_env \<Rightarrow> bytes \<Rightarrow> bytes \<times> GenerationConfig \<Rightarrow> bytes" where
  "query_key E tag q \<equiv> cache_key (ee_hash E) tag (fst q) (snd q)"

lemma same_key_same_answer:
  assumes "keys_apart E tag Q" and "q \<in> Q" and "q' \<in> Q" and "query_key E tag q = query_key E tag q'"
  shows "model_answer E eval q = model_answer E eval q'"
proof -
  from assms(4) have "ee_hash E (cache_material tag (fst q) (snd q)) = ee_hash E (cache_material tag (fst q') (snd q'))"
    by (auto simp: cache_key_def dest: hex16_inject)
  with assms(1-3) have "cache_material tag (fst q) (snd q) = cache_material tag (fst q') (snd q')"
    unfolding keys_apart_def inj_on_def by blast
  from cache_material_inject [OF this] have m: "fst q = fst q'" "gc_max_tokens (snd q) = gc_max_tokens (snd q')" by simp_all
  with assms(1-3) have "gc_repeat_penalty (snd q) = gc_repeat_penalty (snd q')" "gc_repeat_last_n (snd q) = gc_repeat_last_n (snd q')"
    unfolding keys_apart_def by blast+
  from greedy_ref_penalties [OF this] m show ?thesis by (simp add: model_answer_def max_out_def split: sum.split)
qed


section \<open>Transparency\<close>

lemma impl_answer:
  assumes "engine_world E ok kv kvs eval S c b" and "engine_ok E ok kv kvs eval S s" and "askable E eval S (prompt, gen)"
    and "generate_stream_impl E disk prompt (\<lambda>_. Inr True) gen s = (Inr u, pieces, s1)"
  shows "concat pieces = model_answer E eval (prompt, gen)"
proof -
  from assms(3) obtain tokens where t: "prompt_tokens (ee_B E) prompt = Inr tokens" "in_use S tokens"
      "length tokens < be_context_length (ee_B E)"
    and g: "1 \<le> gc_max_tokens gen" "greedy_world E eval gen" "\<not> gc_echo_prompt gen" by (auto simp: askable_def)
  have K: "kv_backend (ee_B E) ok kv eval" and I: "isolated_seq_backend (ee_B E) kvs eval"
    using assms(1) unfolding engine_world_def by blast+
  from impl_greedy [OF K I assms(2) t g assms(4)] t(1) show ?thesis by (simp add: model_answer_def)
qed

context response_cache
begin

lemma transparent:
  assumes "engine_world E ok kv kvs eval S c b" and "engine_ok E ok kv kvs eval S s"
    and "ee_arca E = A" and "en_arca s = Some a"
    and "\<And>q. q \<in> Q \<Longrightarrow> askable E eval S q \<and> key_ok (query_key E (en_model_tag s) q) \<and> fits (model_answer E eval q)"
    and "keys_apart E (en_model_tag s) Q"
    and "answers_only fits (query_key E (en_model_tag s)) (model_answer E eval) Q (holds a)"
    and "(prompt, gen) \<in> Q" and "engine_generate E disk prompt gen s = (Inr out, s1)"
  shows "out = model_answer E eval (prompt, gen) \<and>
    (\<exists>a1. en_arca s1 = Some a1 \<and> answers_only fits (query_key E (en_model_tag s)) (model_answer E eval) Q (holds a1))"
proof -
  let ?key = "query_key E (en_model_tag s)" and ?q = "(prompt, gen)" and ?ans = "model_answer E eval"
  have ask: "askable E eval S ?q" "key_ok (?key ?q)" "fits (?ans ?q)" using assms(5,8) by blast+
  then have use: "cacheable gen" "\<not> gc_echo_prompt gen" by (simp_all add: askable_def greedy_world_def cacheable_def)
  obtain hit a1 where g: "ac_get A a (?key ?q) = (hit, a1)" by fastforce
  note got = answers_get [OF assms(7) ask(2) assms(8) g]
  show ?thesis
  proof (cases hit)
    case (Some v)
    with g use assms(3,4,9) have "out = v" "en_arca s1 = Some a1"
      by (auto simp: engine_generate_def engine_generate_stream_def)
    with got(2) [OF Some] got(1) show ?thesis by blast
  next
    case None
    obtain r pieces s2 where i: "generate_stream_impl E disk prompt (\<lambda>_. Inr True) gen (s\<lparr>en_arca := Some a1\<rparr>) = (r, pieces, s2)"
      using prod_cases3 by blast
    with g None use assms(3,4,9) obtain u where r: "r = Inr u" "out = concat pieces" "en_arca s1 = Some (ac_set A a1 (?key ?q) (concat pieces))"
      by (cases r) (auto simp: engine_generate_def engine_generate_stream_def)
    have "engine_ok E ok kv kvs eval S (s\<lparr>en_arca := Some a1\<rparr>)" by (rule engine_ok_cong [OF assms(2)]) simp_all
    from impl_answer [OF assms(1) this ask(1) i [unfolded r(1)]] have out: "concat pieces = ?ans ?q" .
    have "answers_only fits ?key ?ans Q (holds (ac_set A a1 (?key ?q) (?ans ?q)))"
      by (rule answers_set [OF got(1) ask(2) assms(8) ask(3)]) (rule same_key_same_answer [OF assms(6) _ assms(8)])
    with r out show ?thesis by simp
  qed
qed

end


lemma length_cache_key: "length (cache_key hash tag p g) = 21"
  by (simp add: cache_key_def hex16_def)

text \<open>
  C4. The response cache is transparent: an engine whose responses are cached by an ARCA daemon, reached over
  the wire by the client, answers every greedy request that does not fail with the text the model alone
  gives, whether the daemon has the answer, lost it, cannot write its disk or cannot be reached; and
  afterwards the daemon still holds nothing but right answers for the requests of the deployment. This needs
  that the hash keeps those requests apart and that requests with the same prompt and token limit have the
  same penalties, which the key does not contain.
\<close>

theorem response_cache_transparent:
  assumes "engine_world E ok kv kvs eval S c b" and "engine_reach E S c b s"
    and "ee_arca E = arca_link up disk" and "en_arca s = Some a"
    and "\<And>q. q \<in> Q \<Longrightarrow> askable E eval S q \<and> bulk_fits (model_answer E eval q)"
    and "keys_apart E (en_model_tag s) Q"
    and "answers_only bulk_fits (query_key E (en_model_tag s)) (model_answer E eval) Q (archive_holds a)"
    and "(prompt, gen) \<in> Q" and "engine_generate E disk' prompt gen s = (Inr out, s1)"
  shows "out = model_answer E eval (prompt, gen) \<and>
    (\<exists>a1. en_arca s1 = Some a1 \<and>
      answers_only bulk_fits (query_key E (en_model_tag s)) (model_answer E eval) Q (archive_holds a1))"
  by (rule arca.transparent [OF assms(1) engine_reach_ok [OF assms(1,2)] assms(3,4) _ assms(6-9)])
    (use assms(5) in \<open>simp add: bulk_fits_def kMaxBulkBytes_def length_cache_key\<close>)

section \<open>A concrete deployment\<close>

text \<open>The engine of \<open>Serving\<close> in front of a fresh daemon.\<close>

definition linked_env :: "(ref_ctx RealLlamaBackend, unit, nat, Archive) engine_env" where
  "linked_env = \<lparr>ee_B = sched_backend, ee_D = None, ee_uniform = (\<lambda>n. (1 / 2, Suc n)), ee_seed = (\<lambda>_. 0), ee_accept_seed = (\<lambda>_. 0),
     ee_z = no_zstd, ee_hash = checksum, ee_arca = arca_link (\<lambda>_. True) True\<rparr>"

definition linked_engine :: "(ref_ctx RealLlamaBackend, unit, nat, Archive) engine" where
  "linked_engine = \<lparr>en_backend = sched_b0, en_draft = (), en_decoder = None, en_cache = None, en_prefix_cache = None, en_corpus = None,
     en_model_tag = ''m.gguf'', en_arca = Some (empty_archive 0 3), en_scheduler = None, en_context_tokens = [], en_sessions = Map.empty,
     en_next_session_id = 1\<rparr>"

lemma linked_reach: "engine_reach linked_env {[]} serve_config sched_b0 linked_engine"
proof (rule er_init)
  show "ReameEngine_init linked_env serve_config (Some (empty_archive 0 3)) (Some sched_b0) () [] None = Inr linked_engine"
    by (simp add: ReameEngine_init_def validate_def serve_config_def linked_env_def linked_engine_def)
qed

lemma linked_world: "engine_world linked_env (real_ok ref_cells) (\<lambda>b. ref_cells (rb_ctx b) 0) (\<lambda>b. ref_cells (rb_ctx b))
    (\<lambda>_. one_hot 256 7) S serve_config sched_b0"
  using serve_world [of S] by (simp add: engine_world_def serve_env_def linked_env_def)

lemma linked_askable:
  assumes "one_token gen"
  shows "askable linked_env (\<lambda>_. one_hot 256 7) {[]} (''a'', gen)"
proof -
  have "greedy_world linked_env (\<lambda>_. one_hot 256 7) gen"
    using serve_greedy assms by (simp add: linked_env_def serve_env_def greedy_world_def one_token_def)
  moreover have "ee_B linked_env = sched_backend" by (simp add: linked_env_def)
  ultimately show ?thesis using assms by (simp add: askable_def serve_prompt in_use_def sched_backend_ctx one_token_def)
qed

lemma fresh_archive_holds: "archive_holds (empty_archive m n) = Map.empty"
  using empty_archive_inv(2) [of m n] by (auto simp: archive_holds_def disk.coherent_def map_le_iff)

lemma linked_generate:
  assumes "one_token gen"
  shows "\<exists>s1. engine_generate_stream linked_env disk ''a'' (Some (\<lambda>_. Inr True)) gen linked_engine = (Inr (), [[CHR 0x07]], s1)"
    and "model_answer linked_env (\<lambda>_. one_hot 256 7) (''a'', gen) = [CHR 0x07]"
proof -
  let ?key = "query_key linked_env ''m.gguf'' (''a'', gen)"
  have f: "ee_arca linked_env = arca_link (\<lambda>_. True) True" "en_arca linked_engine = Some (empty_archive 0 3)"
    "en_model_tag linked_engine = ''m.gguf''"
    by (simp_all add: linked_env_def linked_engine_def)
  have use: "cacheable gen" "\<not> gc_echo_prompt gen" using assms by (simp_all add: cacheable_def one_token_def)
  obtain hit a1 where g: "ac_get (arca_link (\<lambda>_. True) True) (empty_archive 0 3) ?key = (hit, a1)" by fastforce
  have "\<forall>v. hit = Some v \<longrightarrow> archive_holds (empty_archive 0 3) ?key = Some v"
    using arca.get_sound [OF _ _ g] by (simp add: fresh_archive_holds bulk_fits_def kMaxBulkBytes_def length_cache_key)
  then have hit: "hit = None" by (cases hit) (simp_all add: fresh_archive_holds)
  let ?s = "linked_engine\<lparr>en_arca := Some a1\<rparr>"
  have run: "generate_stream_impl linked_env disk ''a'' (\<lambda>_. Inr True) gen ?s =
      (Inr (), [[CHR 0x07]], ?s\<lparr>en_backend := serve_b1, en_context_tokens := [97, 7]\<rparr>)"
    by (rule cold_generate) (simp_all add: linked_env_def linked_engine_def assms)
  then show "\<exists>s1. engine_generate_stream linked_env disk ''a'' (Some (\<lambda>_. Inr True)) gen linked_engine = (Inr (), [[CHR 0x07]], s1)"
    using g hit use by (simp add: engine_generate_stream_def f)
  have "engine_ok linked_env (real_ok ref_cells) (\<lambda>b. ref_cells (rb_ctx b) 0) (\<lambda>b. ref_cells (rb_ctx b)) (\<lambda>_. one_hot 256 7) {[]} ?s"
    by (rule engine_ok_cong [OF engine_reach_ok [OF linked_world linked_reach]]) simp_all
  from impl_answer [OF linked_world this linked_askable [OF assms] run]
  show "model_answer linked_env (\<lambda>_. one_hot 256 7) (''a'', gen) = [CHR 0x07]" by simp
qed

lemma linked_requests:
  assumes "one_token gen" and "q \<in> {(''a'', gen)}"
  shows "askable linked_env (\<lambda>_. one_hot 256 7) {[]} q \<and> bulk_fits (model_answer linked_env (\<lambda>_. one_hot 256 7) q)"
  using linked_askable [OF assms(1)] linked_generate(2) [OF assms(1)] assms(2) by (simp add: bulk_fits_def kMaxBulkBytes_def)

theorem response_cache_transparent_witness:
  "\<exists>out s1. engine_generate linked_env (\<lambda>_. True) ''a'' sched_gen linked_engine = (Inr out, s1) \<and> out = [CHR 0x07] \<and>
    out = model_answer linked_env (\<lambda>_. one_hot 256 7) (''a'', sched_gen)"
proof -
  let ?Q = "{(''a'', sched_gen)}"
  have f: "ee_arca linked_env = arca_link (\<lambda>_. True) True" "en_arca linked_engine = Some (empty_archive 0 3)"
    by (simp_all add: linked_env_def linked_engine_def)
  have only: "answers_only bulk_fits (query_key linked_env (en_model_tag linked_engine)) ans ?Q (archive_holds (empty_archive 0 3))" for ans
    by (simp add: answers_only_def fresh_archive_holds)
  obtain s1 where gen: "engine_generate linked_env (\<lambda>_. True) ''a'' sched_gen linked_engine = (Inr [CHR 0x07], s1)"
    using linked_generate(1) [OF one_token_sched_gen, of "\<lambda>_. True"] by (auto simp: engine_generate_def)
  have "keys_apart linked_env (en_model_tag linked_engine) ?Q" by (simp add: keys_apart_def)
  from response_cache_transparent [OF linked_world linked_reach f linked_requests [OF one_token_sched_gen] this only _ gen] gen
  show ?thesis by simp
qed

end
