(* ===== verification/Api_Serving.thy ===== *)
theory Api_Serving
  imports Api Response_Cache
begin

text \<open>
  What the running server promises, over the models of its parts: from the bytes on a connection
  (\<open>Http\<close>) through the router (\<open>Api\<close>), the engine in any reachable state (\<open>Serving\<close>) and its response
  cache (\<open>Response_Cache\<close>) to the bytes of the reply; and where a request can make the server fail.
\<close>

section \<open>A deployment\<close>

text \<open>
  The world of the engine, a daemon as its response cache, and the requests \<open>Q\<close> that its clients make.
\<close>

definition deployment :: "('b, 'd, 'r, Archive) engine_env \<Rightarrow> ('b \<Rightarrow> bool) \<Rightarrow> ('b \<Rightarrow> tokens) \<Rightarrow> ('b \<Rightarrow> int \<Rightarrow> tokens)
    \<Rightarrow> (tokens \<Rightarrow> logits) \<Rightarrow> tokens set \<Rightarrow> engine_config \<Rightarrow> 'b \<Rightarrow> (bytes \<times> GenerationConfig) set \<Rightarrow> bool" where
  "deployment E ok kv kvs eval S c b Q \<longleftrightarrow>
     engine_world E ok kv kvs eval S c b \<and> (\<exists>up disk. ee_arca E = arca_link up disk) \<and>
     (\<forall>q \<in> Q. askable E eval S q \<and> bulk_fits (model_answer E eval q)) \<and> keys_apart E (ec_model_path c) Q"

text \<open>An engine of the deployment: reachable, and its daemon, if it has one, holds only right answers.\<close>

definition serving :: "('b, 'd, 'r, Archive) engine_env \<Rightarrow> (tokens \<Rightarrow> logits) \<Rightarrow> tokens set \<Rightarrow> engine_config \<Rightarrow> 'b
    \<Rightarrow> (bytes \<times> GenerationConfig) set \<Rightarrow> ('b, 'd, 'r, Archive) engine \<Rightarrow> bool" where
  "serving E eval S c b Q s \<longleftrightarrow>
     engine_reach E S c b s \<and>
     (\<forall>a. en_arca s = Some a \<longrightarrow>
        answers_only bulk_fits (query_key E (ec_model_path c)) (model_answer E eval) Q (archive_holds a))"

lemma serving_prefetch: "serving E eval S c b Q s \<Longrightarrow> serving E eval S c b Q (prefetch_prefix E prompt s)"
  by (simp add: serving_def er_prefetch)

lemma serving_generate:
  assumes d: "deployment E ok kv kvs eval S c b Q" and s: "serving E eval S c b Q s" and q: "(prompt, gen) \<in> Q"
    and g: "engine_generate_stream E disk prompt (Some (\<lambda>_. Inr True)) gen s = (Inr u, pieces, s1)"
  shows "concat pieces = model_answer E eval (prompt, gen) \<and> serving E eval S c b Q s1"
proof -
  from d obtain up disk' where W: "engine_world E ok kv kvs eval S c b" and L: "ee_arca E = arca_link up disk'"
    and Q: "\<And>q. q \<in> Q \<Longrightarrow> askable E eval S q \<and> bulk_fits (model_answer E eval q)" and k: "keys_apart E (ec_model_path c) Q"
    unfolding deployment_def by blast
  from s have r: "engine_reach E S c b s" by (simp add: serving_def)
  note tag = reach_tag [OF r]
  have "\<And>tokens. prompt_tokens (ee_B E) prompt = Inr tokens \<Longrightarrow> in_use S tokens" using Q [OF q] by (auto simp: askable_def)
  from er_generate [OF r this g] have r1: "engine_reach E S c b s1" .
  show ?thesis
  proof (cases "en_arca s")
    case None
    then have i: "generate_stream_impl E disk prompt (\<lambda>_. Inr True) gen s = (Inr u, pieces, s1)"
      using g by (simp add: engine_generate_stream_def)
    from impl_answer [OF W engine_reach_ok [OF W r] conjunct1 [OF Q [OF q]] i] impl_keeps [OF i] None r1 show ?thesis
      by (simp add: serving_def)
  next
    case (Some a)
    have eg: "engine_generate E disk prompt gen s = (Inr (concat pieces), s1)" using g by (simp add: engine_generate_def)
    have key: "bulk_fits (query_key E (en_model_tag s) q)" for q
      by (simp add: bulk_fits_def kMaxBulkBytes_def length_cache_key)
    from s Some have "answers_only bulk_fits (query_key E (en_model_tag s)) (model_answer E eval) Q (archive_holds a)"
      by (simp add: serving_def tag)
    from arca.transparent [OF W engine_reach_ok [OF W r] L Some _ k [folded tag] this q eg] Q key r1 show ?thesis
      by (auto simp: serving_def tag)
  qed
qed

section \<open>Dispatch\<close>

definition completions_target :: "bool \<Rightarrow> bytes" where
  "completions_target chat = (if chat then ''/v1/chat/completions'' else ''/v1/completions'')"

text \<open>A generation request that passes authentication and finds a free slot.\<close>

definition admitted :: "('j, 'b, 'd, 'r, 'a) api_env \<Rightarrow> bool \<Rightarrow> HttpRequest \<Rightarrow> ('b, 'd, 'r, 'a) api \<Rightarrow> bool" where
  "admitted A chat r s \<longleftrightarrow>
     hq_method r = ''POST'' \<and> hq_target r = completions_target chat \<and>
     (hc_api_key (ae_cfg A) = [] \<or> request_header r ''Authorization'' = ''Bearer '' @ hc_api_key (ae_cfg A)) \<and>
     ap_active s < hc_max_concurrent_requests (ae_cfg A)"

abbreviation entered :: "('j, 'b, 'd, 'r, 'a) api_env \<Rightarrow> bytes \<Rightarrow> ('b, 'd, 'r, 'a) api \<Rightarrow> ('b, 'd, 'r, 'a) api" where
  "entered A prompt s \<equiv> s\<lparr>ap_total := ap_total s + 1, ap_engine := prefetch_prefix (ae_engine A) prompt (ap_engine s),
     ap_active := ap_active s + 1\<rparr>"

lemma route_admitted:
  assumes "admitted A chat r s" and "js_parse (ae_json A) (hq_body r) = Some j" and "prompt_of A chat j = Prompt prompt"
    and "guarded_generation A disk chat j prompt (entered A prompt s) = (calls, x, s1)"
  shows "route A disk r s = (calls, x, s1\<lparr>ap_active := ap_active s1 - 1\<rparr>)"
proof -
  have t: "hq_method r = ''POST''" "hq_target r = completions_target chat" "authorized (ae_cfg A) r"
    "\<not> hc_max_concurrent_requests (ae_cfg A) \<le> ap_active s"
    using assms(1) by (simp_all add: admitted_def authorized_iff)
  have "route A disk r s = handle_generation A disk r chat (s\<lparr>ap_total := ap_total s + 1\<rparr>)"
    using t by (cases chat) (simp_all add: route_def completions_target_def Let_def)
  then show ?thesis using assms(2-4) t(4) by (simp add: handle_generation_def Let_def)
qed

lemma plain_answer:
  assumes "prompt_tokens (ee_B (ae_engine A)) prompt = Inr tokens" and "chat \<longrightarrow> hc_escalation_endpoint (ae_cfg A) = []"
    and "engine_generate_stream (ae_engine A) disk prompt (Some (\<lambda>_. Inr True)) gen (ap_engine s) = (Inr u, pieces, e1)"
    and "js_dump (ae_json A) (completion_json A chat \<lparr>go_text = concat pieces, go_completion_tokens = length pieces,
      go_prompt_tokens = length tokens, go_hit_max_tokens = (gc_max_tokens gen \<le> int (length pieces))\<rparr> False (concat pieces) False) = Inr d"
  shows "plain_generation A disk chat j prompt gen s =
    ([Begin 200 (base_headers (ae_cfg A) ''application/json''), Chunk d, End], None, s\<lparr>ap_engine := e1\<rparr>)"
proof -
  have count: "count_tokens (ae_engine A) prompt = Inr (length tokens)"
    using assms(1) by (auto simp: prompt_tokens_def count_tokens_def split: sum.splits if_splits)
  let ?out = "\<lparr>go_text = concat pieces, go_completion_tokens = length pieces, go_prompt_tokens = length tokens,
    go_hit_max_tokens = (gc_max_tokens gen \<le> int (length pieces))\<rparr>"
  have run: "run_generation A disk prompt gen (\<lambda>_. Inr ()) s = (Inr ?out, pieces, s\<lparr>ap_engine := e1\<rparr>)"
    using count assms(3) by (simp add: run_generation_def)
  have st: "(chat \<and> hc_escalation_endpoint (ae_cfg A) \<noteq> []) = False" using assms(2) by blast
  have esc: "escalate A False j (concat pieces) = Inr (concat pieces, False)" by (simp add: escalate_def Let_def split: option.split)
  show ?thesis
    unfolding plain_generation_def run st Let_def prod.case sum.case using esc assms(4) by (simp add: respond_def)
qed

section \<open>A concrete server\<close>

text \<open>The engine of \<open>Response_Cache\<close> behind the router, with a table of documents and a key.\<close>

definition demo_api_cfg :: "bytes \<Rightarrow> bytes \<Rightarrow> api_config" where
  "demo_api_cfg key endpoint =
     \<lparr>hc_api_key = key, hc_enable_cors = True, hc_enable_metrics = True, hc_max_concurrent_requests = 4, hc_model_id = ''reame'',
      hc_escalation_endpoint = endpoint, hc_escalation_trigger = ''no'', hc_escalation_model_id = [], hc_escalation_timeout_ms = 1\<rparr>"

definition demo_api :: "(bytes \<Rightarrow> jval option) \<Rightarrow> api_config \<Rightarrow> client option
    \<Rightarrow> (jval, ref_ctx RealLlamaBackend, unit, nat, Archive) api_env" where
  "demo_api docs cfg client =
     \<lparr>ae_json = demo_json docs, ae_engine = linked_env, ae_cfg = cfg, ae_regex = (\<lambda>_ _. Some True), ae_client = client, ae_times = (1, 1, 1)\<rparr>"

definition demo_server :: "(ref_ctx RealLlamaBackend, unit, nat, Archive) api" where
  "demo_server = \<lparr>ap_engine = linked_engine, ap_active = 0, ap_total = 0, ap_errors = 0\<rparr>"

definition ask_doc :: jval where
  "ask_doc = JObj [(''prompt'', JStr ''a''), (''max_tokens'', JInt 1), (''temperature'', JInt 0), (''repeat_penalty'', JInt 1)]"

definition bad_doc :: jval where
  "bad_doc = JObj [(''prompt'', JStr ''a''), (''max_tokens'', JStr ''x'')]"

definition demo_docs :: "bytes \<Rightarrow> jval option" where
  "demo_docs = [''q'' \<mapsto> ask_doc, ''x'' \<mapsto> bad_doc]"

definition ask_gen :: GenerationConfig where
  "ask_gen = \<lparr>gc_max_tokens = 1, gc_temperature = 0, gc_top_p = 0.95, gc_repeat_penalty = 1, gc_repeat_last_n = 64, gc_seed = 42,
     gc_echo_prompt = False\<rparr>"

lemma demo_request:
  "message_ok ''POST'' (completions_target False) [(''Content-Length'', ''1'')] [c]"
  "head_size ''POST'' (completions_target False) [(''Content-Length'', ''1'')] \<le> 65536" "length [c] \<le> max_bytes 1"
proof -
  have "string_of_nat 1 = ''1''" "trim ''Content-Length'' = ''Content-Length''" "trim ''1'' = ''1''" by code_simp+
  then show "message_ok ''POST'' (completions_target False) [(''Content-Length'', ''1'')] [c]"
    by (simp add: message_ok_def line_ok_def header_ok_def body_ok_def completions_target_def assign_all_def ci_eval)
  show "head_size ''POST'' (completions_target False) [(''Content-Length'', ''1'')] \<le> 65536"
    by (simp add: head_size_def print_http_request_def request_line_def print_headers_def print_header_def completions_target_def crlf_def)
qed (simp add: max_bytes_def)

lemma demo_fields [simp]:
  "ae_json (demo_api docs cfg cl) = demo_json docs" "ae_engine (demo_api docs cfg cl) = linked_env"
  "ae_cfg (demo_api docs cfg cl) = cfg" "ae_client (demo_api docs cfg cl) = cl" "ap_engine demo_server = linked_engine"
  "ap_active demo_server = 0" "ap_total demo_server = 0" "ap_errors demo_server = 0"
  by (simp_all add: demo_api_def demo_server_def)

lemma ask_doc_gen: "gen_config_from (demo_json docs) ask_doc = Inr ask_gen" "js_value_bool (demo_json docs) ask_doc ''stream'' False = Inr False"
  by (simp_all add: gen_config_from_def demo_json_def ask_doc_def jv_value_def ask_gen_def)

lemma ask_gen_one_token: "one_token ask_gen"
  by (simp add: one_token_def ask_gen_def)

lemma doc_prompts: "prompt_of (demo_api docs cfg cl) False ask_doc = Prompt ''a''" "prompt_of (demo_api docs cfg cl) False bad_doc = Prompt ''a''"
  by (simp_all add: prompt_of_def has_prompt_def demo_json_def ask_doc_def bad_doc_def)

lemma demo_dump: "\<exists>d. js_dump (demo_json docs) j = Inr d"
  by (simp add: demo_json_def)

lemma demo_prefetch: "prefetch_prefix linked_env prompt linked_engine = linked_engine"
  by (simp add: prefetch_prefix_def linked_engine_def)

lemma demo_admitted:
  "admitted (demo_api docs (demo_api_cfg [] endpoint) cl) chat \<lparr>hq_method = ''POST'', hq_target = completions_target chat, hq_headers = hs,
     hq_body = body\<rparr> demo_server"
  by (simp add: admitted_def demo_api_cfg_def)

lemma demo_deployment:
  "deployment linked_env (real_ok ref_cells) (\<lambda>b. ref_cells (rb_ctx b) 0) (\<lambda>b. ref_cells (rb_ctx b)) (\<lambda>_. one_hot 256 7) {[]}
    serve_config sched_b0 {(''a'', ask_gen)}"
  using linked_world [of "{[]}"] linked_requests [OF ask_gen_one_token]
  by (simp add: deployment_def keys_apart_def) (auto simp: linked_env_def)

lemma demo_serving: "serving linked_env (\<lambda>_. one_hot 256 7) {[]} serve_config sched_b0 {(''a'', ask_gen)} linked_engine"
  using linked_reach by (simp add: serving_def linked_engine_def fresh_archive_holds answers_only_def)

section \<open>End to end\<close>






section \<open>Accounting and authentication\<close>

text \<open>
  Accounting: every request, on every path including the ones an exception leaves through, counts once
  in \<open>total_requests\<close> and gives its generation slot back.
\<close>

theorem route_accounting:
  assumes "route A disk r s = (calls, x, s1)"
  shows "ap_active s1 = ap_active s \<and> ap_total s1 = ap_total s + 1"
proof -
  have "same_gate (s\<lparr>ap_total := ap_total s + 1\<rparr>) s1"
    using assms by (auto simp: route_def Let_def method_not_allowed_def split: if_splits dest!: gate)
  then show ?thesis by (simp add: same_gate_def)
qed

theorem route_accounting_witness:
  "\<exists>calls x s1. route (demo_api demo_docs (demo_api_cfg [] []) None) (\<lambda>_. True)
      \<lparr>hq_method = ''POST'', hq_target = ''/v1/completions'', hq_headers = [], hq_body = ''x''\<rparr> demo_server = (calls, x, s1) \<and>
    ap_active s1 = 0 \<and> ap_total s1 = 1"
proof -
  obtain calls x s1 where r: "route (demo_api demo_docs (demo_api_cfg [] []) None) (\<lambda>_. True)
      \<lparr>hq_method = ''POST'', hq_target = ''/v1/completions'', hq_headers = [], hq_body = ''x''\<rparr> demo_server = (calls, x, s1)"
    using prod_cases3 by blast
  from route_accounting [OF r] r show ?thesis by simp
qed

text \<open>
  C10. Authentication: with a key configured, a request whose \<open>Authorization\<close> header is not exactly
  \<open>Bearer\<close> and the key is answered without touching the engine, with 401 unless it only asks for the health
  check or is a CORS preflight.
\<close>

theorem unauthorized_never_reaches_engine:
  assumes "hc_api_key (ae_cfg A) \<noteq> []"
    and "request_header r ''Authorization'' \<noteq> ''Bearer '' @ hc_api_key (ae_cfg A)"
    and "route A disk r s = (calls, x, s1)"
  shows "ap_engine s1 = ap_engine s \<and>
    (hq_target r = ''/health'' \<or> hq_method r = ''OPTIONS'' \<or>
     (\<exists>headers rest. calls = Begin 401 headers # rest \<and> ap_errors s1 = ap_errors s + 1))"
proof -
  have "\<not> authorized (ae_cfg A) r" using assms(1,2) by (simp add: authorized_iff)
  with assms(3) show ?thesis
    by (auto simp: route_def respond_error_def respond_def Let_def split: if_splits sum.splits)
qed

theorem unauthorized_never_reaches_engine_witness:
  "\<exists>calls x s1. route (demo_api demo_docs (demo_api_cfg ''key'' []) None) (\<lambda>_. True)
      \<lparr>hq_method = ''POST'', hq_target = ''/v1/warm'', hq_headers = [], hq_body = ''q''\<rparr> demo_server = (calls, x, s1) \<and>
    ap_engine s1 = linked_engine \<and> ap_errors s1 = 1"
proof -
  let ?r = "\<lparr>hq_method = ''POST'', hq_target = ''/v1/warm'', hq_headers = [], hq_body = ''q''\<rparr>"
  let ?A = "demo_api demo_docs (demo_api_cfg ''key'' []) None"
  obtain calls x s1 where r: "route ?A (\<lambda>_. True) ?r demo_server = (calls, x, s1)" using prod_cases3 by blast
  have "request_header ?r ''Authorization'' \<noteq> ''Bearer '' @ hc_api_key (ae_cfg ?A)"
    by (simp add: request_header_def header_of_def demo_api_cfg_def)
  from unauthorized_never_reaches_engine [OF _ this r] r show ?thesis by (simp add: demo_api_cfg_def)
qed

text \<open>
  C28. The generation gate holds in every interleaving of the workers: never more than
  \<open>max_concurrent_requests\<close> of them generate at the same time, and the counter returns to 0 when all
  have left.
\<close>

theorem busy_gate_bounds_generations:
  assumes "gate_reach max_active g"
  shows "int (card (bg_inside g)) \<le> max 0 max_active \<and>
    (bg_inside g = {} \<and> bg_refused g = {} \<longrightarrow> bg_active g = 0)"
  using gate_reach_inv [OF assms] by (simp add: gate_inv_def)

theorem busy_gate_bounds_generations_witness:
  "int (card (bg_inside (busy_enter 1 8 (busy_enter 1 7 \<lparr>bg_active = 0, bg_inside = {}, bg_refused = {}\<rparr>)))) \<le> max 0 1"
  by (rule busy_gate_bounds_generations [THEN conjunct1], intro gate_enter gate_init)
    (simp_all add: busy_enter_def)

section \<open>What can go wrong\<close>

text \<open>
  C30. An exception in the middle of an event stream puts a second HTTP response into the stream: after the
  200 head and the events already sent, the client receives the bytes of a complete 500 response,
  status line and headers included, where it expects events. A piece that ends inside a UTF-8 sequence is
  enough, since it cannot be dumped.
\<close>

theorem failed_stream_embeds_response:
  assumes "gen_config_from (ae_json A) body = Inr gen" and "js_value_bool (ae_json A) body ''stream'' False = Inr True"
    and "stream_generation A disk chat prompt gen s = (sent, Some x, s1)" and "what x = Some m"
    and "\<And>code. \<exists>d. js_dump (ae_json A) (error_json (ae_json A) m ''server_error'' code) = Inr d"
    and "guarded_generation A disk chat body prompt s = (calls, y, s2)"
  shows "\<exists>events resp. write_calls calls =
      stream_head \<lparr>hr_status = 200, hr_headers = stream_headers (ae_cfg A), hr_body = []\<rparr> @
      events @ serialize_http_response resp \<and> hr_status resp = 500"
proof -
  obtain cs where cs: "sent = Begin 200 (stream_headers (ae_cfg A)) # map Chunk cs"
    using assms(3) by (auto simp: stream_generation_def Let_def simp del: map_map split: prod.splits sum.splits)
  let ?h = "base_headers (ae_cfg A) ''application/json''"
  obtain code where failed: "generation_failed A x s1 = respond_error A 500 m ''server_error'' code s1"
    using assms(4) by (simp add: generation_failed_def)
  obtain err where "js_dump (ae_json A) (error_json (ae_json A) m ''server_error'' code) = Inr err" using assms(5) by blast
  then have err: "generation_failed A x s1 = ([Begin 500 ?h, Chunk err, End], None, s1\<lparr>ap_errors := ap_errors s1 + 1\<rparr>)"
    by (simp add: failed respond_error_def respond_def Let_def)
  have calls: "calls = Begin 200 (stream_headers (ae_cfg A)) # map Chunk cs @ [Begin 500 ?h, Chunk err, End]"
    using assms(1,2,3,6) err cs by (simp add: guarded_generation_def)
  have ne: "header_of ?h ''Content-Type'' \<noteq> ''text/event-stream''" by (simp add: base_headers_type)
  show ?thesis
    unfolding calls write_stream_then_response [OF stream_headers_type ne]
    by (intro exI [of _ "concat cs"] exI [of _ "\<lparr>hr_status = 500, hr_headers = ?h, hr_body = err\<rparr>"]) simp
qed

theorem failed_stream_embeds_response_witness:
  "\<exists>calls y s2 resp events. guarded_generation (demo_api demo_docs (demo_api_cfg [] []) None) (\<lambda>_. True) True
      (JObj [(''stream'', JBool True)]) [] demo_server = (calls, y, s2) \<and>
    write_calls calls = stream_head \<lparr>hr_status = 200, hr_headers = stream_headers (demo_api_cfg [] []), hr_body = []\<rparr> @
      events @ serialize_http_response resp \<and> hr_status resp = 500"
proof -
  let ?A = "demo_api demo_docs (demo_api_cfg [] []) None" and ?j = "JObj [(''stream'', JBool True)]"
  let ?x = "EngineError ''prompt tokenized to zero tokens''"
  obtain gen where gen: "gen_config_from (ae_json ?A) ?j = Inr gen" "gc_temperature gen = 0.7" "js_value_bool (ae_json ?A) ?j ''stream'' False = Inr True"
    by (simp add: gen_config_from_def demo_json_def jv_value_def)
  have p: "prompt_tokens (ee_B linked_env) [] = Inl ?x" "count_tokens linked_env [] = Inr 0"
    by (simp_all add: linked_env_def prompt_tokens_def count_tokens_def sched_backend_def real_backend_def real_tokenize_def ref_llama_def)
  have "engine_generate_stream linked_env disk [] (Some cb) gen s = (Inl ?x, [], s)" for disk cb s
    using gen(2) p by (simp add: engine_generate_stream_def cacheable_def generate_stream_impl_def split: option.split)
  then have "stream_generation ?A (\<lambda>_. True) True [] gen demo_server = ([Begin 200 (stream_headers (ae_cfg ?A))], Some ?x, demo_server)"
    by (simp add: stream_generation_def run_generation_def p demo_server_def)
  note failed = failed_stream_embeds_response [OF gen(1,3) this, of "''prompt tokenized to zero tokens''"]
  obtain calls y s2 where g: "guarded_generation ?A (\<lambda>_. True) True ?j [] demo_server = (calls, y, s2)" using prod_cases3 by blast
  from failed [OF _ _ g] g demo_dump show ?thesis by (auto simp: what_def)
qed

text \<open>
  C29. One request can end the whole server: a field of the wrong type, such as \<open>"max_tokens": "x"\<close>, throws
  outside the handler's \<open>try\<close> block and leaves the thread of the connection, which terminates the process;
  nothing is sent.
\<close>

theorem malformed_field_terminates_server:
  assumes "message_ok ''POST'' (completions_target chat) hs body" and "head_size ''POST'' (completions_target chat) hs \<le> 65536"
    and "length body \<le> max_bytes mb" and "concat reads = print_http_request ''POST'' (completions_target chat) hs body @ extra"
    and "admitted A chat \<lparr>hq_method = ''POST'', hq_target = completions_target chat,
      hq_headers = assign_all ci_less hs [], hq_body = body\<rparr> s"
    and "js_parse (ae_json A) body = Some j" and "prompt_of A chat j = Prompt prompt"
    and "js_value_int (ae_json A) j ''max_tokens'' 512 = Inl w"
  shows "cn_terminated (handle_connection mb (api_handle A disk) reads s) \<and>
    cn_wire (handle_connection mb (api_handle A disk) reads s) = []"
proof -
  have "guarded_generation A disk chat j prompt (entered A prompt s) = ([], Some w, entered A prompt s)"
    using assms(8) by (simp add: guarded_generation_def gen_config_from_def)
  from route_admitted [OF assms(5) _ assms(7) this] assms(6)
  have "api_handle A disk \<lparr>hq_method = ''POST'', hq_target = completions_target chat,
      hq_headers = assign_all ci_less hs [], hq_body = body\<rparr> s =
    ([], True, s\<lparr>ap_total := ap_total s + 1, ap_engine := prefetch_prefix (ae_engine A) prompt (ap_engine s)\<rparr>)"
    by (simp add: api_handle_def)
  from connection_reply [where handler = "api_handle A disk" and s = s, OF assms(1-4) this] show ?thesis
    by (simp add: write_calls_def new_writer_def)
qed

theorem malformed_field_terminates_server_witness:
  "cn_terminated (handle_connection 1 (api_handle (demo_api demo_docs (demo_api_cfg [] []) None) (\<lambda>_. True))
     [print_http_request ''POST'' (completions_target False) [(''Content-Length'', ''1'')] ''x''] demo_server)"
proof -
  let ?A = "demo_api demo_docs (demo_api_cfg [] []) None"
  have parse: "js_parse (ae_json ?A) ''x'' = Some bad_doc" "js_value_int (ae_json ?A) bad_doc ''max_tokens'' 512 = Inl ''type_error''"
    by (simp_all add: demo_json_def demo_docs_def bad_doc_def jv_value_def)
  show ?thesis
    by (rule conjunct1 [OF malformed_field_terminates_server [OF demo_request _ demo_admitted parse(1) doc_prompts(2) parse(2)]]) simp
qed

section \<open>The relay\<close>


lemma demo_served:
  "\<exists>s1. run_generation (demo_api docs cfg cl) (\<lambda>_. True) ''a'' ask_gen (\<lambda>_. Inr ()) demo_server =
    (Inr \<lparr>go_text = [CHR 0x07], go_completion_tokens = 1, go_prompt_tokens = 1, go_hit_max_tokens = True\<rparr>, [[CHR 0x07]], s1)"
proof -
  have "count_tokens linked_env ''a'' = Inr 1"
    by (simp add: linked_env_def count_tokens_def sched_backend_def real_backend_def real_tokenize_def ref_llama_def)
  then show ?thesis
    using linked_generate(1) [OF ask_gen_one_token, of "\<lambda>_. True"] by (auto simp: run_generation_def) (simp add: ask_gen_def)
qed


text \<open>
  The client that the server installs can throw: with an endpoint whose port does not fit an \<open>int\<close>, a
  refused answer that was already there is lost and the request ends with an internal error.
\<close>

theorem oversized_port_loses_answer:
  assumes "run_generation A disk prompt gen (\<lambda>_. Inr ()) s = (Inr out, ps, s1)"
    and "hc_escalation_endpoint (ae_cfg A) = http_schema @ host @ '':'' @ string_of_nat port @ path"
    and "host_ok host" and "path \<noteq> []" and "hd path = CHR ''/''" and "INT_MAX < int port"
    and "ae_client A = default_client net fuel (ae_cfg A)"
    and "dovrebbe (ae_regex A) (go_text out) (hc_escalation_trigger (ae_cfg A))"
    and "js_dump (ae_json A) (inoltro A body) = Inr asked"
  shows "plain_generation A disk True body prompt gen s = ([], Some (Callback_exn ''stoi''), s1) \<and>
    generation_failed A (Callback_exn ''stoi'') s1 = respond_error A 500 ''stoi'' ''server_error'' ''internal'' s1"
proof -
  let ?e = "hc_escalation_endpoint (ae_cfg A)"
  have "analizza ?e = Inl Out_of_range"
    unfolding assms(2) using analizza_port [OF assms(3-5)] assms(6) by (simp add: std_stoi_string_of_nat)
  then have ask: "http_client net fuel ?e asked = Inl ''stoi''"
    by (simp add: http_client_def escalation_client_def)
  have ne: "?e \<noteq> []" unfolding assms(2) by (simp add: http_schema_def)
  then have cl: "ae_client A = Some (http_client net fuel)" using assms(7) by (simp add: default_client_def)
  have "escalate A True body (go_text out) = Inl ''stoi''"
    unfolding escalate_def Let_def cl option.case assms(9) bindE_simps ask using assms(8) by simp
  with assms(1) ne show ?thesis by (simp add: plain_generation_def generation_failed_def what_def)
qed


theorem oversized_port_loses_answer_witness:
  "\<exists>s1. plain_generation (demo_api demo_docs (demo_api_cfg [] (http_schema @ ''deep'' @ '':'' @ string_of_nat 99999999999 @ ''/v1''))
      (default_client (\<lambda>_ _ _. None) 2 (demo_api_cfg [] (http_schema @ ''deep'' @ '':'' @ string_of_nat 99999999999 @ ''/v1''))))
      (\<lambda>_. True) True ask_doc ''a'' ask_gen demo_server = ([], Some (Callback_exn ''stoi''), s1)"
proof -
  define endpoint where "endpoint = http_schema @ ''deep'' @ '':'' @ string_of_nat 99999999999 @ ''/v1''"
  let ?c = "demo_api_cfg [] endpoint"
  let ?A = "demo_api demo_docs ?c (default_client (\<lambda>_ _ _. None) 2 ?c)"
  obtain s1 where run: "run_generation ?A (\<lambda>_. True) ''a'' ask_gen (\<lambda>_. Inr ()) demo_server =
    (Inr \<lparr>go_text = [CHR 0x07], go_completion_tokens = 1, go_prompt_tokens = 1, go_hit_max_tokens = True\<rparr>, [[CHR 0x07]], s1)"
    using demo_served by blast
  obtain d where d: "js_dump (ae_json ?A) (inoltro ?A ask_doc) = Inr d" using demo_dump by fastforce
  have cfg: "hc_escalation_endpoint (ae_cfg ?A) = http_schema @ ''deep'' @ '':'' @ string_of_nat 99999999999 @ ''/v1''"
    "hc_escalation_trigger (ae_cfg ?A) = ''no''" "ae_regex ?A = (\<lambda>_ _. Some True)"
    by (simp_all add: demo_api_cfg_def endpoint_def demo_api_def)
  have dov: "dovrebbe (ae_regex ?A) t (hc_escalation_trigger (ae_cfg ?A))" for t unfolding cfg(2,3) by (simp add: dovrebbe_def)
  have "plain_generation ?A (\<lambda>_. True) True ask_doc ''a'' ask_gen demo_server = ([], Some (Callback_exn ''stoi''), s1)"
    by (rule conjunct1 [OF oversized_port_loses_answer [OF run cfg(1) _ _ _ _ _ dov d]]) (simp_all add: host_ok_def)
  then show ?thesis unfolding endpoint_def by blast
qed

end
