(* ===== verification/Arca_Daemon.thy ===== *)
theory Arca_Daemon
  imports Http_Server
begin

text \<open>
  The life cycle of the ARCA daemon (\<open>arca/server.cpp\<close>): the accept thread, the detached workers with their
  registered sockets, \<open>start\<close> and \<open>stop\<close>, as a step relation over the atomic actions of the threads. What a
  worker does with its commands is \<open>Arca_Wire.serve\<close>; here it is in one of four places: counted but not
  yet in \<open>serve\<close>, registered and blocked in \<open>read_some\<close>, past its \<open>erase\<close> but still counted, or gone.
  \<open>ad_shut\<close> are the sockets that \<open>stop\<close> has shut down.
\<close>

section \<open>State and steps\<close>

datatype daemon_stop = Not_stopping | Stop_joining | Stop_closing | Stop_waiting

record daemon =
  ad_running :: bool
  ad_accept :: accept_pc
  ad_active :: int
  ad_counted :: "nat set"
  ad_conns :: "nat set"
  ad_left :: "nat set"
  ad_shut :: "nat set"
  ad_stop :: daemon_stop

definition daemon_init :: daemon where
  "daemon_init = \<lparr>ad_running = False, ad_accept = No_thread, ad_active = 0, ad_counted = {}, ad_conns = {}, ad_left = {},
     ad_shut = {}, ad_stop = Not_stopping\<rparr>"

definition daemon_start :: "bool \<Rightarrow> daemon \<Rightarrow> daemon" where
  "daemon_start bound s = (if ad_running s \<or> \<not> bound then s else s\<lparr>ad_running := True, ad_accept := Checking\<rparr>)"

definition daemon_check :: "daemon \<Rightarrow> daemon" where
  "daemon_check s = s\<lparr>ad_accept := (if ad_running s then Accepting else Exited)\<rparr>"

definition daemon_accept :: "nat option \<Rightarrow> daemon \<Rightarrow> daemon" where
  "daemon_accept conn s =
     (case conn of
        None \<Rightarrow> s\<lparr>ad_accept := Checking\<rparr>
      | Some w \<Rightarrow> s\<lparr>ad_accept := Checking, ad_active := ad_active s + 1, ad_counted := insert w (ad_counted s)\<rparr>)"

definition worker_register :: "nat \<Rightarrow> daemon \<Rightarrow> daemon" where
  "worker_register w s = s\<lparr>ad_counted := ad_counted s - {w}, ad_conns := insert w (ad_conns s)\<rparr>"

definition worker_unregister :: "nat \<Rightarrow> daemon \<Rightarrow> daemon" where
  "worker_unregister w s = s\<lparr>ad_conns := ad_conns s - {w}, ad_left := insert w (ad_left s)\<rparr>"

definition worker_uncount :: "nat \<Rightarrow> daemon \<Rightarrow> daemon" where
  "worker_uncount w s = s\<lparr>ad_active := ad_active s - 1, ad_left := ad_left s - {w}\<rparr>"

definition daemon_stop_begin :: "daemon \<Rightarrow> daemon" where
  "daemon_stop_begin s = (if ad_running s then s\<lparr>ad_running := False, ad_stop := Stop_joining\<rparr> else s)"

definition daemon_stop_shutdown :: "daemon \<Rightarrow> daemon" where
  "daemon_stop_shutdown s = s\<lparr>ad_shut := ad_shut s \<union> ad_conns s, ad_stop := Stop_waiting\<rparr>"

definition daemon_stop_poll :: "daemon \<Rightarrow> daemon" where
  "daemon_stop_poll s = (if 0 < ad_active s then s else s\<lparr>ad_stop := Not_stopping\<rparr>)"

text \<open>The steps of the daemon itself; a blocked worker returns from its read only when its socket was shut down.\<close>

inductive daemon_step :: "daemon \<Rightarrow> daemon \<Rightarrow> bool" where
  start: "ad_stop s = Not_stopping \<Longrightarrow> daemon_step s (daemon_start bound s)"
| check: "ad_accept s = Checking \<Longrightarrow> daemon_step s (daemon_check s)"
| none: "ad_accept s = Accepting \<Longrightarrow> daemon_step s (daemon_accept None s)"
| register: "w \<in> ad_counted s \<Longrightarrow> daemon_step s (worker_register w s)"
| shut: "w \<in> ad_conns s \<Longrightarrow> w \<in> ad_shut s \<Longrightarrow> daemon_step s (worker_unregister w s)"
| gone: "w \<in> ad_left s \<Longrightarrow> daemon_step s (worker_uncount w s)"
| stop: "ad_stop s = Not_stopping \<Longrightarrow> daemon_step s (daemon_stop_begin s)"
| join: "ad_stop s = Stop_joining \<Longrightarrow> ad_accept s = Exited \<Longrightarrow>
    daemon_step s (s\<lparr>ad_accept := No_thread, ad_stop := Stop_closing\<rparr>)"
| shutdown: "ad_stop s = Stop_closing \<Longrightarrow> daemon_step s (daemon_stop_shutdown s)"
| poll: "ad_stop s = Stop_waiting \<Longrightarrow> daemon_step s (daemon_stop_poll s)"

text \<open>The steps of the clients: to connect, with a socket never seen before, and to hang up.\<close>

definition used :: "daemon \<Rightarrow> nat set" where
  "used s = ad_counted s \<union> ad_conns s \<union> ad_left s \<union> ad_shut s"

inductive client_step :: "daemon \<Rightarrow> daemon \<Rightarrow> bool" where
  connected: "ad_accept s = Accepting \<Longrightarrow> w \<notin> used s \<Longrightarrow> client_step s (daemon_accept (Some w) s)"
| hung_up: "w \<in> ad_conns s \<Longrightarrow> client_step s (worker_unregister w s)"

inductive daemon_reach :: "daemon \<Rightarrow> bool" where
  init: "daemon_reach daemon_init"
| by_daemon: "daemon_reach s \<Longrightarrow> daemon_step s s' \<Longrightarrow> daemon_reach s'"
| by_client: "daemon_reach s \<Longrightarrow> client_step s s' \<Longrightarrow> daemon_reach s'"

lemmas daemon_defs = daemon_start_def daemon_check_def daemon_accept_def worker_register_def worker_unregister_def
  worker_uncount_def daemon_stop_begin_def daemon_stop_shutdown_def daemon_stop_poll_def used_def

section \<open>Properties\<close>

definition daemon_inv :: "daemon \<Rightarrow> bool" where
  "daemon_inv s \<longleftrightarrow>
     finite (ad_counted s) \<and> finite (ad_conns s) \<and> finite (ad_left s) \<and>
     ad_counted s \<inter> ad_conns s = {} \<and> ad_counted s \<inter> ad_left s = {} \<and> ad_conns s \<inter> ad_left s = {} \<and>
     ad_active s = int (card (ad_counted s) + card (ad_conns s) + card (ad_left s)) \<and>
     (ad_running s \<longrightarrow> ad_stop s = Not_stopping) \<and>
     (ad_stop s = Stop_closing \<or> ad_stop s = Stop_waiting \<longrightarrow> ad_accept s = No_thread) \<and>
     (ad_stop s = Not_stopping \<and> \<not> ad_running s \<longrightarrow> ad_accept s = No_thread)"

lemma card_move:
  "finite A \<Longrightarrow> finite B \<Longrightarrow> w \<in> A \<Longrightarrow> w \<notin> B \<Longrightarrow> card (A - {w}) + card (insert w B) = card A + card B"
  by (metis add_Suc_right add_Suc card.remove card_insert_disjoint)

lemma daemon_inv_step:
  assumes "daemon_inv s"
  shows "daemon_step s s' \<Longrightarrow> daemon_inv s'" and "client_step s s' \<Longrightarrow> daemon_inv s'"
proof -
  have reg: "daemon_inv (worker_register w s)" if "w \<in> ad_counted s" for w
  proof -
    have "card (ad_counted s - {w}) + card (insert w (ad_conns s)) = card (ad_counted s) + card (ad_conns s)"
      using assms that by (intro card_move) (auto simp: daemon_inv_def)
    then show ?thesis using assms that by (auto simp: daemon_inv_def worker_register_def)
  qed
  have unreg: "daemon_inv (worker_unregister w s)" if "w \<in> ad_conns s" for w
  proof -
    have "card (ad_conns s - {w}) + card (insert w (ad_left s)) = card (ad_conns s) + card (ad_left s)"
      using assms that by (intro card_move) (auto simp: daemon_inv_def)
    then show ?thesis using assms that by (auto simp: daemon_inv_def worker_unregister_def)
  qed
  have gone: "daemon_inv (worker_uncount w s)" if "w \<in> ad_left s" for w
  proof -
    have "Suc (card (ad_left s - {w})) = card (ad_left s)" using assms that by (intro card_Suc_Diff1) (auto simp: daemon_inv_def)
    then show ?thesis using assms that by (auto simp: daemon_inv_def worker_uncount_def)
  qed
  show "daemon_inv s'" if "daemon_step s s'"
    using that
  proof cases
    case (register w)
    then show ?thesis using reg by simp
  next
    case (shut w)
    then show ?thesis using unreg by simp
  next
    case gone': (gone w)
    then show ?thesis using gone by simp
  qed (use assms in \<open>auto simp: daemon_inv_def daemon_start_def daemon_check_def daemon_accept_def daemon_stop_begin_def
      daemon_stop_shutdown_def daemon_stop_poll_def\<close>)
  show "daemon_inv s'" if "client_step s s'"
    using that
  proof cases
    case (hung_up w)
    then show ?thesis using unreg by simp
  qed (use assms in \<open>auto simp: daemon_inv_def daemon_accept_def used_def\<close>)
qed

lemma daemon_inv_init: "daemon_inv daemon_init"
  by (simp add: daemon_inv_def daemon_init_def)

lemma daemon_reach_inv: "daemon_reach s \<Longrightarrow> daemon_inv s"
  by (induction rule: daemon_reach.induct) (rule daemon_inv_init, erule (1) daemon_inv_step(1), erule (1) daemon_inv_step(2))

text \<open>
  When \<open>stop()\<close> of the daemon returns, no worker is left: in every interleaving, the step that ends its
  waiting loop finds no thread that still uses the server, and none can appear any more.
\<close>

theorem daemon_stop_leaves_no_worker:
  assumes "daemon_reach s" and "ad_stop s = Stop_waiting" and "ad_stop (daemon_stop_poll s) = Not_stopping"
  shows "ad_counted s = {} \<and> ad_conns s = {} \<and> ad_left s = {} \<and> ad_accept s = No_thread \<and> \<not> ad_running s"
proof -
  have inv: "daemon_inv s" by (rule daemon_reach_inv [OF assms(1)])
  from assms(2,3) have "\<not> 0 < ad_active s" by (auto simp: daemon_stop_poll_def split: if_splits)
  with inv have "card (ad_counted s) = 0" "card (ad_conns s) = 0" "card (ad_left s) = 0"
    unfolding daemon_inv_def by linarith+
  with inv assms(2) show ?thesis by (simp add: daemon_inv_def)
qed


definition stopped_daemon :: daemon where
  "stopped_daemon = \<lparr>ad_running = False, ad_accept = No_thread, ad_active = 0, ad_counted = {}, ad_conns = {}, ad_left = {},
     ad_shut = {}, ad_stop = Stop_waiting\<rparr>"

text \<open>From the start until \<open>stop\<close> waits, with the connections of \<open>ws\<close> accepted on the way.\<close>

lemma daemon_run_to_stop:
  assumes "daemon_reach s" and "ad_running s" and "ad_accept s = Accepting \<or> ad_accept s = Checking" and "ad_stop s = Not_stopping"
  shows "daemon_reach (s\<lparr>ad_running := False, ad_accept := No_thread, ad_shut := ad_shut s \<union> ad_conns s, ad_stop := Stop_waiting\<rparr>)"
proof -
  let ?c = "s\<lparr>ad_accept := Checking\<rparr>"
  have c: "daemon_reach ?c"
  proof (cases "ad_accept s = Checking")
    case True
    then have "?c = s" by simp
    with assms(1) show ?thesis by simp
  next
    case False
    then show ?thesis using by_daemon [OF assms(1) daemon_step.none] assms(3) by (simp add: daemon_accept_def)
  qed
  have "daemon_reach (daemon_stop_begin ?c)" by (rule by_daemon [OF c daemon_step.stop]) (simp add: assms)
  then have "daemon_reach (daemon_check (daemon_stop_begin ?c))"
    by (rule by_daemon [OF _ daemon_step.check]) (simp add: daemon_stop_begin_def assms)
  then have "daemon_reach ((daemon_check (daemon_stop_begin ?c))\<lparr>ad_accept := No_thread, ad_stop := Stop_closing\<rparr>)"
    by (rule by_daemon [OF _ daemon_step.join]) (simp_all add: daemon_stop_begin_def daemon_check_def assms)
  then have "daemon_reach (daemon_stop_shutdown ((daemon_check (daemon_stop_begin ?c))\<lparr>ad_accept := No_thread, ad_stop := Stop_closing\<rparr>))"
    by (rule by_daemon [OF _ daemon_step.shutdown]) simp
  then show ?thesis by (simp add: daemon_stop_begin_def daemon_check_def daemon_stop_shutdown_def assms)
qed

lemma daemon_started: "daemon_reach (daemon_check (daemon_start True daemon_init))"
  by (rule by_daemon [OF by_daemon [OF daemon_reach.init daemon_step.start] daemon_step.check])
    (simp_all add: daemon_init_def daemon_start_def)

lemma stopped_daemon_reach: "daemon_reach stopped_daemon"
  using daemon_run_to_stop [OF daemon_started] by (simp add: daemon_init_def daemon_start_def daemon_check_def stopped_daemon_def)

theorem daemon_stop_leaves_no_worker_witness:
  "ad_counted stopped_daemon = {} \<and> ad_stop (daemon_stop_poll stopped_daemon) = Not_stopping"
  using daemon_stop_leaves_no_worker [OF stopped_daemon_reach] by (simp add: stopped_daemon_def daemon_stop_poll_def)

text \<open>A worker that the shutdown has missed keeps \<open>stop\<close> waiting.\<close>

definition missed :: "daemon \<Rightarrow> bool" where
  "missed s \<longleftrightarrow> daemon_inv s \<and> ad_stop s = Stop_waiting \<and> (\<exists>w. (w \<in> ad_counted s \<or> w \<in> ad_conns s) \<and> w \<notin> ad_shut s)"

lemma missed_active:
  assumes "missed s" shows "0 < ad_active s"
proof -
  from assms have "ad_counted s \<noteq> {} \<or> ad_conns s \<noteq> {}" and inv: "daemon_inv s" by (auto simp: missed_def)
  then have "0 < card (ad_counted s) \<or> 0 < card (ad_conns s)" by (auto simp: card_gt_0_iff daemon_inv_def)
  with inv show ?thesis unfolding daemon_inv_def by linarith
qed

lemma missed_step:
  assumes "daemon_step s s'" and "missed s"
  shows "missed s'"
proof -
  from assms(2) obtain w where w: "w \<in> ad_counted s \<or> w \<in> ad_conns s" "w \<notin> ad_shut s" and st: "ad_stop s = Stop_waiting"
    and no: "ad_accept s = No_thread" by (auto simp: missed_def daemon_inv_def)
  have "ad_stop s' = Stop_waiting \<and> (w \<in> ad_counted s' \<or> w \<in> ad_conns s') \<and> w \<notin> ad_shut s'"
    using assms(1)
    by cases (use w st no missed_active [OF assms(2)] in \<open>auto simp: worker_register_def worker_unregister_def worker_uncount_def daemon_stop_poll_def\<close>)
  moreover have "daemon_inv s'" using daemon_inv_step(1) [OF _ assms(1)] assms(2) by (simp add: missed_def)
  ultimately show ?thesis by (auto simp: missed_def)
qed

text \<open>
  C34. \<open>stop()\<close> of the daemon can wait for ever: a worker that was counted but had not yet registered its socket
  when \<open>stop\<close> shut the sockets down blocks in its read afterwards, and unless its client hangs up, no step
  of the daemon ever lets \<open>stop\<close> return.
\<close>

theorem daemon_stop_can_hang:
  "\<exists>s. daemon_reach s \<and> ad_stop s = Stop_waiting \<and> {s'. daemon_step\<^sup>*\<^sup>* s s'} \<subseteq> {s'. ad_stop s' = Stop_waiting}"
proof -
  let ?a = "daemon_accept (Some 0) (daemon_check (daemon_start True daemon_init))"
  have a: "daemon_reach ?a"
    by (rule by_client [OF daemon_started client_step.connected])
      (simp_all add: daemon_init_def daemon_start_def daemon_check_def used_def)
  define s where "s = ?a\<lparr>ad_running := False, ad_accept := No_thread, ad_shut := ad_shut ?a \<union> ad_conns ?a, ad_stop := Stop_waiting\<rparr>"
  have r: "daemon_reach s" unfolding s_def
    by (rule daemon_run_to_stop [OF a]) (simp_all add: daemon_init_def daemon_start_def daemon_check_def daemon_accept_def)
  have "ad_counted s = {0}" "ad_shut s = {}" "ad_stop s = Stop_waiting"
    by (simp_all add: s_def daemon_init_def daemon_start_def daemon_check_def daemon_accept_def)
  then have m: "missed s" using daemon_reach_inv [OF r] by (auto simp: missed_def)
  have "missed s'" if "daemon_step\<^sup>*\<^sup>* s s'" for s'
    using that by (induction rule: rtranclp_induct) (simp_all add: m missed_step)
  with r m show ?thesis by (auto simp: missed_def)
qed

end
