(* ===== verification/Program.thy ===== *)
theory Program
  imports Api_Serving Arca_Daemon
begin

text \<open>
  The program as a whole (\<open>main.cpp\<close>, in a build with the server): from the arguments to what is printed, what is
  served and how the process ends. The components below it are the models of the other theories; the machine it
  runs on (files, downloads, standard input, sockets, the libraries of the backends, the order in which threads end) is
  the record \<open>host\<close>. A log line is kept as its level and message; \<open>Config.log_message\<close> says how it is printed.
\<close>

section \<open>Loading an engine\<close>

text \<open>The factory of the llama.cpp backend, and the two factories of builds that lack a backend.\<close>

definition make_llama_backend :: "llama_context_params \<Rightarrow> (bytes \<Rightarrow> bool \<Rightarrow> bool \<Rightarrow> 'm option)
    \<Rightarrow> ('m \<Rightarrow> llama_context_params \<Rightarrow> 'c option) \<Rightarrow> 'c llama_lib \<Rightarrow> ModelParams
    \<Rightarrow> model_exn + 'c RealLlamaBackend LlamaBackend \<times> 'c RealLlamaBackend" where
  "make_llama_backend defaults load_model init_context L params =
     map_sum id (Pair (real_backend L)) (RealLlamaBackend_init defaults load_model init_context params)"

definition make_llama_backend_stub :: "ModelParams \<Rightarrow> model_exn + 'x" where
  "make_llama_backend_stub params =
     Inl (ModelError (''reame was built without llama.cpp; initialize the submodule '' @
       ''(git submodule update --init --depth 1 third_party/llama.cpp) '' @ ''and rebuild''))"

definition make_nucleo_backend_stub :: "ModelParams \<Rightarrow> model_exn + 'x" where
  "make_nucleo_backend_stub params =
     Inl (ModelError (''questo binario e'' @ [CHR 0x27] @ '' stato compilato senza il motore nucleo: '' @
       ''ricompila con -DREAME_NUCLEO_DIR=<percorso di nucleo-dev>''))"

text \<open>
  The two arguments of the delegating constructor. C++ does not say which of them is evaluated first: only the first
  one validates the configuration.
\<close>

definition open_main :: "(backend_kind \<Rightarrow> ModelParams \<Rightarrow> model_exn + 'x) \<Rightarrow> engine_config \<Rightarrow> engine_exn + 'x" where
  "open_main mk c =
     (case choose_backends c of
        Inl x \<Rightarrow> Inl x
      | Inr ((kind, params), _) \<Rightarrow> map_sum Engine_model id (mk kind params))"

definition open_draft :: "(ModelParams \<Rightarrow> model_exn + 'y) \<Rightarrow> engine_config \<Rightarrow> engine_exn + 'y option" where
  "open_draft mk c =
     (if wants_draft_backend c
      then map_sum Engine_model Some (mk ((to_model_params c)\<lparr>mp_path := ec_draft_model_path c\<rparr>))
      else Inr None)"

section \<open>The machine\<close>

record ('b, 'd, 'r, 'a) host =
  ho_argv0 :: bytes
  ho_build_version :: bytes
  ho_home :: "bytes option"
  ho_hw :: nat
  ho_stof :: "bytes \<Rightarrow> num_error + real"
  ho_stod :: "bytes \<Rightarrow> num_error + real \<times> bytes"
  ho_show :: "real \<Rightarrow> bytes"
  ho_speed :: bytes
  ho_num_what :: "num_error \<Rightarrow> bytes"
  ho_bounds_what :: bytes
  ho_files :: "bytes \<rightharpoonup> bytes"
  ho_fetch :: "bytes \<Rightarrow> bytes option"
  ho_mkdir :: "bytes \<Rightarrow> bytes option"
  ho_stdin :: "bytes list"
  ho_listen :: "bytes \<Rightarrow> nat \<Rightarrow> bytes + nat"
  ho_make :: "backend_kind \<Rightarrow> ModelParams \<Rightarrow> model_exn + 'b LlamaBackend \<times> 'b"
  ho_make_draft :: "ModelParams \<Rightarrow> model_exn + 'd LlamaBackend \<times> 'd"
  ho_draft_first :: bool
  ho_env :: "('b, 'd, 'r, 'a) engine_env"
  ho_no_draft :: 'd
  ho_cache_dir :: "bytes \<Rightarrow> dir_item list"
  ho_corpus :: "bytes \<Rightarrow> bytes option"
  ho_arca :: "arca_client_config \<Rightarrow> 'a"
  ho_disk :: "nat \<Rightarrow> nat \<Rightarrow> bool"
  ho_race :: "('b, 'd, 'r, 'a) engine \<Rightarrow> bytes \<Rightarrow> GenerationConfig \<Rightarrow> int \<Rightarrow> (nat \<times> (engine_exn + bytes)) list"

definition ReameEngine_load :: "('b, 'd, 'r, 'a) host \<Rightarrow> engine_config \<Rightarrow> arca_client_config option
    \<Rightarrow> engine_exn + ('b, 'd, 'r, 'a) engine_env \<times> ('b, 'd, 'r, 'a) engine" where
  "ReameEngine_load H c arca =
     (let build = (\<lambda>(B, b) D.
            let E = (ho_env H)\<lparr>ee_B := B, ee_D := map_option fst D\<rparr>
            in map_sum id (Pair E) (ReameEngine_init E c (map_option (ho_arca H) arca) (Some b)
                 (case D of None \<Rightarrow> ho_no_draft H | Some (_, d) \<Rightarrow> d) (ho_cache_dir H (ec_cache_dir c)) (ho_corpus H (ec_cache_dir c))))
      in if ho_draft_first H
         then bindE (open_draft (ho_make_draft H) c) (\<lambda>D. bindE (open_main (ho_make H) c) (\<lambda>M. build M D))
         else bindE (open_main (ho_make H) c) (\<lambda>M. bindE (open_draft (ho_make_draft H) c) (build M)))"

definition version :: "('b, 'd, 'r, 'a) host \<Rightarrow> bytes" where
  "version H = ho_build_version H"

definition home_dir :: "('b, 'd, 'r, 'a) host \<Rightarrow> bytes" where
  "home_dir H = (case ho_home H of Some h \<Rightarrow> h | None \<Rightarrow> [])"

text \<open>\<open>std::filesystem::exists\<close>\<close>

definition file_exists :: "('b, 'd, 'r, 'a) host \<Rightarrow> bytes \<Rightarrow> bool" where
  "file_exists H f \<longleftrightarrow> ho_files H f \<noteq> None"

section \<open>Printing, throwing, ending\<close>

datatype console = Out bytes | Err bytes | Log LogLevel bytes

datatype program_exn = Ex_engine engine_exn | Ex_config ConfigError | Ex_std bytes

text \<open>A piece of \<open>main\<close>: what it printed, and its value or the exception that left it.\<close>

type_synonym 'v act = "console list \<times> (program_exn + 'v)"

definition bindA :: "'v act \<Rightarrow> ('v \<Rightarrow> 'w act) \<Rightarrow> 'w act" where
  "bindA m f = (case m of (out, Inl x) \<Rightarrow> (out, Inl x) | (out, Inr v) \<Rightarrow> (case f v of (out1, r) \<Rightarrow> (out @ out1, r)))"

definition say :: "console list \<Rightarrow> 'v act \<Rightarrow> 'v act" where
  "say out m = (case m of (out1, r) \<Rightarrow> (out @ out1, r))"

definition raiseA :: "('e \<Rightarrow> program_exn) \<Rightarrow> 'e + 'v \<Rightarrow> 'v act" where
  "raiseA f m = ([], map_sum f id m)"

text \<open>\<open>Logger::log\<close>: a message below the minimal level is dropped.\<close>

definition log_at :: "LogLevel \<Rightarrow> LogLevel \<Rightarrow> bytes \<Rightarrow> console list" where
  "log_at min_level level message = (if level < min_level then [] else [Log level message])"

datatype ending = Returned int | Terminated num_error

datatype ('b, 'd, 'r, 'a) service = No_service
  | Http_service server_config "('b, 'd, 'r, 'a) engine_env" "('b, 'd, 'r, 'a) engine"
  | Arca_service arca_server_config

type_synonym ('b, 'd, 'r, 'a) process = "console list \<times> ending \<times> ('b, 'd, 'r, 'a) service"

definition exn_what :: "('b, 'd, 'r, 'a) host \<Rightarrow> program_exn \<Rightarrow> bytes" where
  "exn_what H x =
     (case x of
        Ex_engine e \<Rightarrow> (case what e of Some m \<Rightarrow> m | None \<Rightarrow> ho_bounds_what H)
      | Ex_config (ConfigError m _) \<Rightarrow> m
      | Ex_std m \<Rightarrow> m)"

text \<open>The three handlers of \<open>main\<close>.\<close>

definition main_caught :: "('b, 'd, 'r, 'a) host \<Rightarrow> program_exn \<Rightarrow> bytes" where
  "main_caught H x =
     (case x of
        Ex_engine (EngineError m) \<Rightarrow> ''engine error: '' @ m @ [newline]
      | Ex_config (ConfigError m line) \<Rightarrow>
          ''config error'' @ (if line \<noteq> 0 then '' (line '' @ string_of_nat line @ '')'' else []) @ '': '' @ m @ [newline]
      | _ \<Rightarrow> ''fatal: '' @ exn_what H x @ [newline])"

abbreviation (input) dquoted :: "bytes \<Rightarrow> bytes" where
  "dquoted s \<equiv> [CHR 0x22] @ s @ [CHR 0x22]"

definition print_usage :: "('b, 'd, 'r, 'a) host \<Rightarrow> console list" where
  "print_usage H =
     [Err (''Usage:'' @ [newline] @
        ''  '' @ ho_argv0 H @ '' run <model> ['' @ dquoted ''prompt'' @ ''] [--serve]'' @ [newline] @
        ''      zero-config: download if needed, auto-tune, then chat/serve'' @ [newline] @
        ''  '' @ ho_argv0 H @ '' list'' @ [newline] @
        ''      show the built-in model catalog'' @ [newline] @
        ''  '' @ ho_argv0 H @ '' --config <path> [--prompt <text>] [--max-tokens <n>] [--serve]'' @ [newline] @
        ''      advanced: run from a config file'' @ [newline])]"

section \<open>Answering\<close>

text \<open>
  \<open>generate_best\<close> on any engine: with a scheduler the attempts race, and \<open>ho_race\<close> is the order in which they end with
  what each returned.
\<close>

definition engine_best :: "('b, 'd, 'r, 'a) host \<Rightarrow> ('b, 'd, 'r, 'a) engine_env \<Rightarrow> bytes \<Rightarrow> GenerationConfig \<Rightarrow> int
    \<Rightarrow> ('b, 'd, 'r, 'a) engine \<Rightarrow> (engine_exn + bytes \<times> nat) \<times> ('b, 'd, 'r, 'a) engine" where
  "engine_best H E prompt gen n s =
     (if n \<le> 1 \<or> \<not> parallel_capable s then generate_best E (ho_disk H) prompt gen n s
      else (best_parallel n (ho_race H s prompt gen n), s))"

text \<open>The one-shot answer, the same in both commands: the Conclave, or a stream to standard output.\<close>

definition print_answer :: "('b, 'd, 'r, 'a) host \<Rightarrow> ('b, 'd, 'r, 'a) engine_env \<Rightarrow> int \<Rightarrow> bytes \<Rightarrow> GenerationConfig
    \<Rightarrow> ('b, 'd, 'r, 'a) engine \<Rightarrow> ('b, 'd, 'r, 'a) engine act" where
  "print_answer H E best_of prompt gen s =
     (if 1 < best_of
      then (case engine_best H E prompt gen best_of s of
              (Inl x, s1) \<Rightarrow> ([], Inl (Ex_engine x))
            | (Inr (out, votes), s1) \<Rightarrow>
                ([Out out, Out [newline],
                  Err (''CONCLAVE consensus='' @ string_of_nat votes @ ''/'' @ string_of_int best_of @ [newline])], Inr s1))
      else (case engine_generate_stream E (ho_disk H 0) prompt (Some (\<lambda>_. Inr True)) gen s of
              (Inl x, pieces, s1) \<Rightarrow> (map Out pieces, Inl (Ex_engine x))
            | (Inr _, pieces, s1) \<Rightarrow> (map Out pieces @ [Out [newline]], Inr s1)))"

text \<open>
  \<open>HttpServer::start\<close>: the address is bound or an exception leaves; the port is cast to 16 bits. (What the server then
  does is \<open>Http_Server\<close> and \<open>Api\<close>; it runs until a signal arrives.)
\<close>

definition HttpServer_start :: "('b, 'd, 'r, 'a) host \<Rightarrow> server_config \<Rightarrow> nat act" where
  "HttpServer_start H sc =
     bindA (raiseA Ex_std (ho_listen H (sc_host sc) (nat (sc_port sc mod 65536)))) (\<lambda>bound.
       ([Log Info (''reame server listening on '' @ sc_host sc @ '':'' @ string_of_nat bound)], Inr bound))"

section \<open>The commands\<close>

text \<open>\<open>main\<close> from a configuration file: everything inside its \<open>try\<close> block.\<close>

definition announce_speculation :: "LogLevel \<Rightarrow> engine_config \<Rightarrow> ('b, 'd, 'r, 'a) engine \<Rightarrow> console list" where
  "announce_speculation level c s =
     (if speculative_metrics s \<noteq> None
      then log_at level Info (''speculative decoding: on ('' @
             (if ec_use_prompt_lookup c then ''prompt-lookup n-grams, no draft model'' else ''draft '' @ ec_draft_model_path c) @ '')'')
      else if speculation_silently_off c False
      then log_at level Warn (''speculative decoding: off '' @ em_dash @ '' this architecture '' @ ''cannot roll back rejected drafts. You configured '' @
             ''it and are not getting it: serve a model that '' @ ''supports rollback (qwen2, qwen3moe, llama), or '' @
             ''set [speculative] enabled = false to silence '' @ ''this.'')
      else [])"

definition print_stats :: "('b, 'd, 'r, 'a) host \<Rightarrow> LogLevel \<Rightarrow> ('b, 'd, 'r, 'a) engine \<Rightarrow> console list" where
  "print_stats H level s =
     (case cache_stats s of
        None \<Rightarrow> []
      | Some (hits, misses, stores) \<Rightarrow>
          log_at level Info (''cache: '' @ string_of_nat hits @ '' hits, '' @ string_of_nat misses @ '' misses, '' @
            string_of_nat stores @ '' stores'')) @
     (case speculative_metrics s of
        None \<Rightarrow> []
      | Some d \<Rightarrow>
          log_at level Info (''speculative metrics: acceptance '' @ ho_show H (acceptance_rate d) @ '', overall '' @ ho_speed H @
            '' tok/s (draft '' @ string_of_nat (sd_total_draft d) @ '', accepted '' @ string_of_nat (sd_total_accepted d) @
            '', rejected '' @ string_of_nat (sd_total_rejected d) @ '')''))"

definition main_started :: "('b, 'd, 'r, 'a) host \<Rightarrow> LogLevel \<Rightarrow> Config \<Rightarrow> main_cli \<Rightarrow> engine_config \<Rightarrow> arca_client_config option
    \<Rightarrow> (int \<times> ('b, 'd, 'r, 'a) service) act" where
  "main_started H level cfg m c arca =
     say (log_at level Info ''loading model...'')
     (bindA (raiseA Ex_engine (ReameEngine_load H c arca)) (\<lambda>(E, s).
        say (log_at level Info (''model loaded (vocab '' @ string_of_nat (vocab_size E) @ '', ctx '' @
               string_of_nat (context_size E) @ '')'') @ announce_speculation level c s)
        (if mc_serve m
         then bindA (raiseA Ex_config (server_config_of cfg)) (\<lambda>sc.
              bindA (HttpServer_start H sc) (\<lambda>_.
                say (log_at level Info ''shutting down'') ([], Inr (0, Http_service sc E s))))
         else bindA (print_answer H E (mc_best_of m) (mc_prompt m) (generation_of m) s) (\<lambda>s1.
                say (print_stats H level s1) ([], Inr (0, No_service))))))"

definition main_body :: "('b, 'd, 'r, 'a) host \<Rightarrow> main_cli \<Rightarrow> (int \<times> ('b, 'd, 'r, 'a) service) act" where
  "main_body H m =
     bindA (raiseA Ex_config (config_load (ho_files H) (mc_config_path m))) (\<lambda>cfg.
     bindA (raiseA Ex_config (get_string_or cfg ''logging.level'' ''info'')) (\<lambda>level_text.
     bindA (raiseA Ex_std (level_from_string level_text)) (\<lambda>level.
     say (log_at level Info (''reame '' @ version H @ '' starting'') @
          log_at level Info (''config loaded from '' @ mc_config_path m @ '' ('' @ string_of_nat (length cfg) @ '' keys)''))
     (bindA (raiseA Ex_config (get_string_or cfg ''model.path'' ''<unset>'')) (\<lambda>path.
     say (log_at level Info (''model path: '' @ path))
     (bindA (raiseA Ex_config (get_int_or cfg ''server.port'' 8080)) (\<lambda>port.
     say (log_at level Info (''server: enabled (port '' @ string_of_int port @ '')''))
     (if mc_prompt m = [] \<and> \<not> mc_serve m
      then say (log_at level Info ''nothing to do: pass --prompt <text> or --serve'') ([], Inr (0, No_service))
      else
     bindA (raiseA Ex_config (engine_config_of (ho_stod H) cfg)) (\<lambda>ec.
     bindA (raiseA Ex_config (get_string_or cfg ''arca.remote'' [])) (\<lambda>remote.
     bindA (raiseA (Ex_std \<circ> ho_num_what H) (arca_remote_of remote)) (\<lambda>arca.
       let c = conclave_config (mc_best_of m) ec; missing = missing_model_file_error (file_exists H) c
       in say (case arca of None \<Rightarrow> []
               | Some ac \<Rightarrow> log_at level Info (''transparent ARCA cache: '' @ acc_host ac @ '':'' @ string_of_int (acc_port ac)))
          (if missing \<noteq> [] then say (log_at level Error missing) ([], Inr (1, No_service))
           else main_started H level cfg m c arca))))))))))))"

text \<open>What \<open>main\<close> prints when the arguments make it return at once.\<close>

fun main_loop_output :: "('b, 'd, 'r, 'a) host \<Rightarrow> bytes list \<Rightarrow> console list" where
  "main_loop_output H [] = []"
| "main_loop_output H (arg # rest) =
     (if arg = ''--help'' \<or> arg = ''-h'' then print_usage H
      else if arg = ''--serve'' \<or> arg = ''-s'' then main_loop_output H rest
      else if arg = ''--version'' \<or> arg = ''-v'' then [Out (''reame '' @ version H @ [newline])]
      else if takes_value arg then
        (case rest of
           [] \<Rightarrow> [Err (''error: '' @ arg @ '' requires an argument'' @ [newline])]
         | val # rest1 \<Rightarrow> main_loop_output H rest1)
      else Err (''error: unknown argument '' @ quoted arg @ [newline]) # print_usage H)"

definition no_arguments :: "('b, 'd, 'r, 'a) host \<Rightarrow> bytes" where
  "no_arguments H =
     ''reame '' @ version H @ [newline, newline] @ ''Nothing to do yet '' @ em_dash @ '' try one of these:'' @ [newline, newline] @
     ''  '' @ ho_argv0 H @ '' run qwen2.5-1.5b '' @ dquoted ''Hello'' @ [newline] @
     ''      downloads the model on first use, then answers'' @ [newline, newline] @
     ''  '' @ ho_argv0 H @ '' run qwen2.5-1.5b --serve'' @ [newline] @
     ''      starts an OpenAI-compatible server on port 8080'' @ [newline, newline] @
     ''  '' @ ho_argv0 H @ '' list'' @ [newline] @ ''      shows the built-in model catalog'' @ [newline, newline]"

definition main_config :: "('b, 'd, 'r, 'a) host \<Rightarrow> bytes list \<Rightarrow> ('b, 'd, 'r, 'a) process" where
  "main_config H args =
     (if args = [] then ([Out (no_arguments H)], Returned 0, No_service)
      else case main_loop (ho_stof H) args main_defaults of
             Exit n \<Rightarrow> (main_loop_output H args, Returned n, No_service)
           | Uncaught e \<Rightarrow> ([], Terminated e, No_service)
           | Go m \<Rightarrow>
               (case main_body H m of
                  (out, Inl x) \<Rightarrow> (out @ [Err (main_caught H x)], Returned 1, No_service)
                | (out, Inr (n, service)) \<Rightarrow> (out, Returned n, service)))"

text \<open>\<open>reame run\<close>: the server of \<open>--serve\<close>, the generation settings, resolving the model, and the \<open>try\<close> block.\<close>

definition default_server_config :: server_config where
  "default_server_config =
     \<lparr>sc_host = ''0.0.0.0'', sc_port = 8080, sc_threads = 2, sc_max_concurrent_requests = 10, sc_timeout_seconds = 300,
      sc_max_request_size_mb = 10, sc_enable_cors = True, sc_enable_metrics = True, sc_enable_request_logging = True,
      sc_api_key = [], sc_model_id = ''reame'', sc_escalation_endpoint = [], sc_escalation_trigger = ''NON PRESENTE'',
      sc_escalation_model_id = [], sc_escalation_timeout_ms = 180000\<rparr>"

definition zero_server :: server_config where
  "zero_server = default_server_config\<lparr>sc_port := 8080\<rparr>"

definition zero_generation :: "zero_cli \<Rightarrow> GenerationConfig" where
  "zero_generation z =
     \<lparr>gc_max_tokens = zc_max_tokens z, gc_temperature = zc_temperature z, gc_top_p = 0.95,
      gc_repeat_penalty = 1.1, gc_repeat_last_n = 64, gc_seed = 42, gc_echo_prompt = False\<rparr>"

definition resolve_output :: "('b, 'd, 'r, 'a) host \<Rightarrow> bytes \<Rightarrow> console list" where
  "resolve_output H token =
     (case resolve_model token of
        Some spec \<Rightarrow>
          if ho_files H ((home_dir H @ ''/.reame/models'') @ ''/'' @ ms_filename spec) \<noteq> None then []
          else Log Info ''downloading model (first run only)...'' #
            (if ho_fetch H (ms_url spec) = None then [Log Error ''download failed''] else [])
      | None \<Rightarrow>
          if ho_files H token \<noteq> None then []
          else [Err (''unknown model '' @ quoted token @ '' and no such file. Try: '' @ ho_argv0 H @ '' list'' @ [newline])])"

definition warn_speculation :: "engine_config \<Rightarrow> ('b, 'd, 'r, 'a) engine \<Rightarrow> console list" where
  "warn_speculation c s =
     (if speculation_silently_off c (speculative_metrics s \<noteq> None)
      then [Log Warn (''speculation off: this architecture cannot roll '' @ ''back rejected drafts. You configured speculative '' @
             ''decoding and are not getting it '' @ em_dash @ '' serve a model '' @ ''that supports rollback (qwen2, qwen3moe, llama) '' @
             ''or set [speculative] enabled = false.'')]
      else [])"

definition run_body :: "('b, 'd, 'r, 'a) host \<Rightarrow> bytes \<Rightarrow> zero_cli \<Rightarrow> engine_config \<Rightarrow> ('b, 'd, 'r, 'a) service act" where
  "run_body H token z c =
     say [Log Info (''loading model ('' @ string_of_int (ec_n_threads c) @ '' threads)...'')]
     (bindA (raiseA Ex_engine (ReameEngine_load H c None)) (\<lambda>(E, s).
      say (warn_speculation c s @ [Log Info ''ready.''])
      (if zc_serve z
       then bindA (HttpServer_start H zero_server) (\<lambda>_.
              say [Log Info ''serving on http://127.0.0.1:8080 (Ctrl-C to stop)''] ([], Inr (Http_service zero_server E s)))
       else if zc_prompt z \<noteq> []
       then bindA (print_answer H E (zc_best_of z) (engine_format_chat E (zc_prompt z)) (zero_generation z) s) (\<lambda>_.
              ([], Inr No_service))
       else say [Out (''Chatting with '' @ token @ ''. Type a message, Ctrl-D to quit.'' @ [newline])]
              (case chat_loop E (ho_disk H) (zero_generation z) (ho_stdin H) s of
                 (x, out, _) \<Rightarrow> ([Out out], case x of None \<Rightarrow> Inr No_service | Some e \<Rightarrow> Inl (Ex_engine e))))))"

definition run_zeroconfig :: "('b, 'd, 'r, 'a) host \<Rightarrow> bytes list \<Rightarrow> ('b, 'd, 'r, 'a) process" where
  "run_zeroconfig H args =
     (case args of
        _ # token # rest \<Rightarrow>
          (case zero_loop (ho_stof H) rest zero_defaults of
             Inl e \<Rightarrow> ([], Terminated e, No_service)
           | Inr z \<Rightarrow>
               (case zero_engine (ho_fetch H) (home_dir H) (ho_hw H) token z (ho_files H) of
                  (Inl n, _) \<Rightarrow> (resolve_output H token, Returned n, No_service)
                | (Inr c, files) \<Rightarrow>
                    (case run_body (H\<lparr>ho_files := files\<rparr>) token z c of
                       (out, Inl x) \<Rightarrow> (resolve_output H token @ out @ [Log Error (''fatal: '' @ exn_what H x)], Returned 1, No_service)
                     | (out, Inr service) \<Rightarrow> (resolve_output H token @ out, Returned 0, service))))
      | _ \<Rightarrow> ([Err (''usage: '' @ ho_argv0 H @ '' run <model> ['' @ dquoted ''prompt'' @ '']'' @ [newline])], Returned 1, No_service))"

text \<open>\<open>reame arca\<close>. The daemon binds every IPv4 address, whatever its log line says.\<close>

definition run_arca :: "('b, 'd, 'r, 'a) host \<Rightarrow> bytes list \<Rightarrow> ('b, 'd, 'r, 'a) process" where
  "run_arca H args =
     (case arca_loop (drop 1 args) (arca_defaults (home_dir H)) of
        Inl e \<Rightarrow> ([], Terminated e, No_service)
      | Inr cfg \<Rightarrow>
          (case ho_mkdir H (as_directory cfg) of
             Some message \<Rightarrow>
               ([Log Error (''cannot create ARCA directory '' @ quoted (as_directory cfg) @ '': '' @ message @ '' '' @ em_dash @ '' pick a writable --dir'')],
                Returned 1, No_service)
           | None \<Rightarrow>
               (case ho_listen H ''0.0.0.0'' (nat (as_port cfg mod 65536)) of
                  Inl message \<Rightarrow> ([Log Error (''ARCA failed to start: '' @ message)], Returned 1, No_service)
                | Inr bound \<Rightarrow>
                    ([Log Info (''ARCA listening on 127.0.0.1:'' @ string_of_nat bound @ '' (dir '' @ as_directory cfg @ '') '' @ em_dash @
                        '' talk to it with any Redis '' @ ''client. Ctrl-C to stop.'')],
                     Returned 0, Arca_service cfg))))"

definition program :: "('b, 'd, 'r, 'a) host \<Rightarrow> bytes list \<Rightarrow> ('b, 'd, 'r, 'a) process" where
  "program H args =
     (case main_command_of args of
        Cmd_run \<Rightarrow> run_zeroconfig H args
      | Cmd_list \<Rightarrow> ([Out list_models], Returned 0, No_service)
      | Cmd_arca \<Rightarrow> run_arca H args
      | Cmd_config \<Rightarrow> main_config H args)"

section \<open>Reasoning about a run\<close>

text \<open>What goes to standard output besides log lines, and what tells the user that something failed.\<close>

definition printed :: "console list \<Rightarrow> bytes" where
  "printed out = concat (map (\<lambda>x. case x of Out b \<Rightarrow> b | _ \<Rightarrow> []) out)"

fun complaint :: "console \<Rightarrow> bool" where
  "complaint (Out _) \<longleftrightarrow> False"
| "complaint (Err _) \<longleftrightarrow> True"
| "complaint (Log level _) \<longleftrightarrow> level = Error"

lemma printed_simps [simp]:
  "printed [] = []" "printed (Out b # out) = b @ printed out" "printed (Err b # out) = printed out"
  "printed (Log l b # out) = printed out" "printed (out @ out') = printed out @ printed out'"
  "printed (log_at l l' b) = []" "printed (map Out bs) = concat bs"
  by (simp_all add: printed_def log_at_def comp_def)

lemma printed_quiet [simp]:
  "printed (announce_speculation l c s) = []" "printed (print_stats H l s) = []" "printed (resolve_output H token) = []"
  "printed (warn_speculation c s) = []"
  by (simp_all add: announce_speculation_def print_stats_def resolve_output_def warn_speculation_def split: option.split prod.split)

lemma log_at_error [simp]: "log_at level Error message = [Log Error message]"
  by (cases level) (simp_all add: log_at_def less_LogLevel_def)

lemma bindA_simps [simp]:
  "bindA (out, Inl x) f = (out, Inl x)" "bindA (out, Inr v) f = say out (f v)" "say [] m = m" "say out (say out' m) = say (out @ out') m"
  "say out (out', r) = (out @ out', r)" "bindA (say out m) f = say out (bindA m f)"
  by (auto simp: bindA_def say_def split: prod.split sum.split)

lemma raiseA_simps [simp]: "raiseA f (Inl e) = ([], Inl (f e))" "raiseA f (Inr v) = ([], Inr v)"
  by (simp_all add: raiseA_def)

lemma bindA_Inr: "bindA m f = (out, Inr v) \<longleftrightarrow> (\<exists>o1 w o2. m = (o1, Inr w) \<and> f w = (o2, Inr v) \<and> out = o1 @ o2)"
  by (auto simp: bindA_def split: prod.splits sum.splits)

lemma say_eq: "say o1 m = (out, r) \<longleftrightarrow> (\<exists>o2. m = (o2, r) \<and> out = o1 @ o2)"
  by (auto simp: say_def split: prod.splits)

lemma raiseA_Inr: "raiseA f m = (out, Inr v) \<longleftrightarrow> m = Inr v \<and> out = []"
  by (cases m) auto

lemmas act_Inr = bindA_Inr say_eq raiseA_Inr

text \<open>
  The plan of \<open>Cli.main_run\<close> is what the process does: the same exit code, the same abnormal end, or the engine that
  the plan names, after nothing but log lines.
\<close>

lemma main_body_plan:
  assumes "config_load (ho_files H) (mc_config_path m) = Inr cfg"
    and "main_configured (ho_stod H) (file_exists H) m cfg = Plan_start c arca task"
  obtains level pre where "printed pre = []" "main_body H m = say pre (main_started H level cfg m c arca)"
    "task = (if mc_serve m then Serve_with (server_config_of cfg)
      else Generate_with (generation_of m) (mc_prompt m) (mc_best_of m))"
proof -
  from assms(2) obtain level_text level path port ec remote where
    p: "get_string_or cfg ''logging.level'' ''info'' = Inr level_text" "level_from_string level_text = Inr level"
      "get_string_or cfg ''model.path'' ''<unset>'' = Inr path" "get_int_or cfg ''server.port'' 8080 = Inr port"
      "(mc_prompt m = [] \<and> \<not> mc_serve m) = False" "engine_config_of (ho_stod H) cfg = Inr ec"
      "get_string_or cfg ''arca.remote'' [] = Inr remote" "arca_remote_of remote = Inr arca"
      "c = conclave_config (mc_best_of m) ec" "missing_model_file_error (file_exists H) c = []"
      "task = (if mc_serve m then Serve_with (server_config_of cfg)
        else Generate_with (generation_of m) (mc_prompt m) (mc_best_of m))"
    by (auto simp: main_configured_def or_exit_def Let_def split: sum.splits if_splits)
  let ?pre = "log_at level Info (''reame '' @ version H @ '' starting'') @
    log_at level Info (''config loaded from '' @ mc_config_path m @ '' ('' @ string_of_nat (length cfg) @ '' keys)'') @
    log_at level Info (''model path: '' @ path) @ log_at level Info (''server: enabled (port '' @ string_of_int port @ '')'') @
    (case arca of None \<Rightarrow> [] | Some ac \<Rightarrow> log_at level Info (''transparent ARCA cache: '' @ acc_host ac @ '':'' @ string_of_int (acc_port ac)))"
  show thesis
  proof (rule that [of ?pre])
    show "printed ?pre = []" by (simp split: option.split)
    show "main_body H m = say ?pre (main_started H level cfg m c arca)"
      unfolding main_body_def assms(1) p(1-8) raiseA_simps bindA_simps p(9) [symmetric] p(10) Let_def if_False
      by (simp only: bindA_simps append_assoc append_Nil not_True_eq_False if_False simp_thms)
  qed (rule p(11))
qed

lemma main_config_plan:
  assumes "main_run (ho_stof H) (ho_stod H) (ho_files H) (file_exists H) args = Plan_start c arca task"
  obtains m cfg level pre where "printed pre = []"
    "main_config H args = (case main_started H level cfg m c arca of
       (out, Inl x) \<Rightarrow> (pre @ out @ [Err (main_caught H x)], Returned 1, No_service)
     | (out, Inr (n, service)) \<Rightarrow> (pre @ out, Returned n, service))"
    "task = (if mc_serve m then Serve_with (server_config_of cfg)
      else Generate_with (generation_of m) (mc_prompt m) (mc_best_of m))"
proof -
  from assms obtain m cfg where g: "args \<noteq> []" "main_loop (ho_stof H) args main_defaults = Go m"
    "config_load (ho_files H) (mc_config_path m) = Inr cfg"
    "main_configured (ho_stod H) (file_exists H) m cfg = Plan_start c arca task"
    by (auto simp: main_run_def or_exit_def split: if_splits cli_outcome.splits sum.splits)
  from main_body_plan [OF g(3,4)] obtain level pre where b: "printed pre = []"
    "main_body H m = say pre (main_started H level cfg m c arca)"
    "task = (if mc_serve m then Serve_with (server_config_of cfg)
      else Generate_with (generation_of m) (mc_prompt m) (mc_best_of m))" by blast
  show thesis
    by (rule that [of pre level cfg m, OF b(1) _ b(3)])
      (simp add: main_config_def g(1,2) b(2) say_def split: prod.split sum.split)
qed

text \<open>The one-shot question an invocation asks, if it is one: engine, archive, settings, template or not, and text.\<close>

definition one_shot :: "('b, 'd, 'r, 'a) host \<Rightarrow> bytes list
    \<Rightarrow> (engine_config \<times> arca_client_config option \<times> GenerationConfig \<times> bool \<times> bytes) option" where
  "one_shot H args =
     (case main_command_of args of
        Cmd_run \<Rightarrow>
          (case zero_loop (ho_stof H) (drop 2 args) zero_defaults of
             Inl _ \<Rightarrow> None
           | Inr z \<Rightarrow>
               if length args < 2 \<or> zc_serve z \<or> zc_prompt z = [] \<or> 1 < zc_best_of z then None
               else (case fst (zero_engine (ho_fetch H) (home_dir H) (ho_hw H) (args ! 1) z (ho_files H)) of
                       Inl _ \<Rightarrow> None
                     | Inr c \<Rightarrow> Some (c, None, zero_generation z, True, zc_prompt z)))
      | Cmd_config \<Rightarrow>
          (case main_run (ho_stof H) (ho_stod H) (ho_files H) (file_exists H) args of
             Plan_start c arca (Generate_with gen prompt best_of) \<Rightarrow>
               if 1 < best_of then None else Some (c, arca, gen, False, prompt)
           | _ \<Rightarrow> None)
      | _ \<Rightarrow> None)"

lemma load_files [simp]: "ReameEngine_load (H\<lparr>ho_files := f\<rparr>) c arca = ReameEngine_load H c arca"
  by (simp add: ReameEngine_load_def cong: if_cong option.case_cong)

lemma print_answer_one:
  assumes "\<not> 1 < best_of" and "print_answer H E best_of prompt gen s = (out, Inr s1)"
  obtains pieces u where "engine_generate_stream E (ho_disk H 0) prompt (Some (\<lambda>_. Inr True)) gen s = (Inr u, pieces, s1)"
    "printed out = concat pieces @ [newline]"
  using assms by (auto simp: print_answer_def split: prod.splits sum.splits)

lemma answered:
  assumes "m = say pre (bindA (print_answer H E best_of prompt gen s) (\<lambda>s1. (post s1, Inr v)))" and "m = (out, Inr w)"
    and "printed pre = []" and "\<And>s1. printed (post s1) = []" and "\<not> 1 < best_of"
  obtains pieces u s1 where "engine_generate_stream E (ho_disk H 0) prompt (Some (\<lambda>_. Inr True)) gen s = (Inr u, pieces, s1)"
    "printed out = concat pieces @ [newline]" "w = v"
proof -
  from assms(1,2) have eq: "say pre (bindA (print_answer H E best_of prompt gen s) (\<lambda>s1. (post s1, Inr v))) = (out, Inr w)" by simp
  obtain out2 r where pa: "print_answer H E best_of prompt gen s = (out2, r)" by fastforce
  with eq obtain s1 where r: "r = Inr s1" by (cases r) simp_all
  from eq have p: "out = pre @ out2 @ post s1" "w = v" by (simp_all add: pa r)
  from print_answer_one [OF assms(5) pa [unfolded r]] obtain pieces u where
    "engine_generate_stream E (ho_disk H 0) prompt (Some (\<lambda>_. Inr True)) gen s = (Inr u, pieces, s1)" "printed out2 = concat pieces @ [newline]" .
  from that [OF this(1) _ p(2)] this(2) show thesis by (simp add: p(1) assms(3,4))
qed

lemma run_body_one:
  assumes "ReameEngine_load H c None = Inr (E, s)" and "\<not> zc_serve z" and "zc_prompt z \<noteq> []"
  shows "run_body H token z c = say (Log Info (''loading model ('' @ string_of_int (ec_n_threads c) @ '' threads)...'') #
      warn_speculation c s @ [Log Info ''ready.''])
    (bindA (print_answer H E (zc_best_of z) (engine_format_chat E (zc_prompt z)) (zero_generation z) s) (\<lambda>_. ([], Inr No_service)))"
  unfolding run_body_def assms(1) raiseA_simps bindA_simps prod.case using assms(2,3)
  by (simp only: if_True if_False append.simps simp_thms bindA_simps)

lemma main_started_one:
  assumes "ReameEngine_load H c arca = Inr (E, s)" and "\<not> mc_serve m"
  shows "main_started H level cfg m c arca = say (log_at level Info ''loading model...'' @
      log_at level Info (''model loaded (vocab '' @ string_of_nat (vocab_size E) @ '', ctx '' @ string_of_nat (context_size E) @ '')'') @
      announce_speculation level c s)
    (bindA (print_answer H E (mc_best_of m) (mc_prompt m) (generation_of m) s) (\<lambda>s1. (print_stats H level s1, Inr (0, No_service))))"
  unfolding main_started_def assms(1) raiseA_simps bindA_simps prod.case using assms(2)
  by (simp only: if_False append_Nil append_Nil2 append_assoc simp_thms bindA_simps)

text \<open>What a one-shot invocation that returns 0 has done: it loaded the engine and printed one answer.\<close>

lemma one_shot_prints:
  assumes "one_shot H args = Some (c, arca, gen, template, prompt)" and "ReameEngine_load H c arca = Inr (E, s)"
    and "program H args = (out, Returned 0, service)"
  obtains pieces u s1 where "engine_generate_stream E (ho_disk H 0) (if template then engine_format_chat E prompt else prompt)
      (Some (\<lambda>_. Inr True)) gen s = (Inr u, pieces, s1)"
    "printed out = concat pieces @ [newline]" "service = No_service"
proof (cases "main_command_of args")
  case Cmd_run
  then have o: "(case zero_loop (ho_stof H) (drop 2 args) zero_defaults of
      Inl _ \<Rightarrow> None
    | Inr z \<Rightarrow>
        if length args < 2 \<or> zc_serve z \<or> zc_prompt z = [] \<or> 1 < zc_best_of z then None
        else (case fst (zero_engine (ho_fetch H) (home_dir H) (ho_hw H) (args ! 1) z (ho_files H)) of
                Inl _ \<Rightarrow> None | Inr c \<Rightarrow> Some (c, None, zero_generation z, True, zc_prompt z))) = Some (c, arca, gen, template, prompt)"
    using assms(1) unfolding one_shot_def by (simp only: main_command.case)
  then obtain z where z1: "zero_loop (ho_stof H) (drop 2 args) zero_defaults = Inr z" by (cases "zero_loop (ho_stof H) (drop 2 args) zero_defaults") simp_all
  note o1 = o [unfolded z1 sum.case]
  then have z: "\<not> length args < 2" "\<not> zc_serve z" "zc_prompt z \<noteq> []" "\<not> 1 < zc_best_of z" by (meson option.distinct(1))+
  then have o2: "(case fst (zero_engine (ho_fetch H) (home_dir H) (ho_hw H) (args ! 1) z (ho_files H)) of
      Inl _ \<Rightarrow> None | Inr c \<Rightarrow> Some (c, None, zero_generation z, True, zc_prompt z)) = Some (c, arca, gen, template, prompt)"
    using o1 by (simp only: if_False simp_thms)
  then have z2: "fst (zero_engine (ho_fetch H) (home_dir H) (ho_hw H) (args ! 1) z (ho_files H)) = Inr c"
    and j: "arca = None" "gen = zero_generation z" "template" "prompt = zc_prompt z"
    by (cases "fst (zero_engine (ho_fetch H) (home_dir H) (ho_hw H) (args ! 1) z (ho_files H))"; simp)+
  from z(1) obtain sub token rest where a: "args = sub # token # rest" by (cases args; cases "tl args") auto
  obtain files where ze: "zero_engine (ho_fetch H) (home_dir H) (ho_hw H) token z (ho_files H) = (Inr c, files)"
    using z2 a by (metis One_nat_def nth_Cons_0 nth_Cons_Suc prod.collapse)
  have zl: "zero_loop (ho_stof H) rest zero_defaults = Inr z" using z1 a by simp
  let ?H = "H\<lparr>ho_files := files\<rparr>"
  have "program H args = (case run_body ?H token z c of
      (out, Inl x) \<Rightarrow> (resolve_output H token @ out @ [Log Error (''fatal: '' @ exn_what H x)], Returned 1, No_service)
    | (out, Inr service) \<Rightarrow> (resolve_output H token @ out, Returned 0, service))"
    using Cmd_run unfolding a program_def by (simp only: main_command.case run_zeroconfig_def list.case zl sum.case ze prod.case)
  with assms(3) obtain out1 where b: "run_body ?H token z c = (out1, Inr service)" "out = resolve_output H token @ out1"
    by (simp split: prod.splits sum.splits)
  have "ReameEngine_load ?H c None = Inr (E, s)" using assms(2) j(1) by simp
  then obtain pieces u s1 where
    "engine_generate_stream E (ho_disk ?H 0) (engine_format_chat E (zc_prompt z)) (Some (\<lambda>_. Inr True)) (zero_generation z) s = (Inr u, pieces, s1)"
    "printed out1 = concat pieces @ [newline]" "service = No_service" by (rule answered [OF run_body_one [OF _ z(2,3)] b(1) _ _ z(4)]) (assumption | simp)+
  then show thesis using that j b(2) by simp
next
  case Cmd_config
  with assms(1) obtain best_of where
    r: "main_run (ho_stof H) (ho_stod H) (ho_files H) (file_exists H) args = Plan_start c arca (Generate_with gen prompt best_of)"
    and j: "\<not> 1 < best_of" "\<not> template"
    by (auto simp: one_shot_def split: main_plan.splits main_task.splits if_splits)
  obtain m cfg level pre where pre: "printed pre = []"
    and mc: "main_config H args = (case main_started H level cfg m c arca of
       (out, Inl x) \<Rightarrow> (pre @ out @ [Err (main_caught H x)], Returned 1, No_service)
     | (out, Inr (n, service)) \<Rightarrow> (pre @ out, Returned n, service))"
    and t0: "Generate_with gen prompt best_of = (if mc_serve m then Serve_with (server_config_of cfg)
      else Generate_with (generation_of m) (mc_prompt m) (mc_best_of m))" by (rule main_config_plan [OF r])
  then have t: "\<not> mc_serve m" "gen = generation_of m" "prompt = mc_prompt m" "best_of = mc_best_of m"
    by (cases "mc_serve m"; simp)+
  from assms(3) mc obtain out1 where st: "main_started H level cfg m c arca = (out1, Inr (0, service))" "out = pre @ out1"
    by (auto simp: program_def Cmd_config split: prod.splits sum.splits)
  obtain pieces u s1 where
    "engine_generate_stream E (ho_disk H 0) (mc_prompt m) (Some (\<lambda>_. Inr True)) (generation_of m) s = (Inr u, pieces, s1)"
    "printed out1 = concat pieces @ [newline]" "(0, service) = (0 :: int, No_service)"
    by (rule answered [OF main_started_one [OF assms(2) t(1)] st(1) _ _ j(1) [unfolded t(4)]]) (assumption | simp)+
  then show thesis using that j t st(2) pre by simp
qed (use assms(1) in \<open>simp_all add: one_shot_def\<close>)

section \<open>A concrete machine\<close>

text \<open>
  A machine with the model and the daemon of the examples below, a configuration file \<open>c\<close> that names the model, and one
  question at temperature 0.
\<close>

definition demo_host :: "(ref_ctx RealLlamaBackend, unit, nat, Archive) host" where
  "demo_host =
     \<lparr>ho_argv0 = ''reame'', ho_build_version = ''0'', ho_home = None, ho_hw = 1,
      ho_stof = (\<lambda>s. if s = ''0'' then Inr 0 else Inl Invalid_argument), ho_stod = (\<lambda>_. Inl Invalid_argument),
      ho_show = (\<lambda>_. []), ho_speed = [], ho_num_what = (\<lambda>_. ''stoi''), ho_bounds_what = [],
      ho_files = [''c'' \<mapsto> print_config [(''model'', [(''path'', ''m.gguf'')])], ''m.gguf'' \<mapsto> []],
      ho_fetch = (\<lambda>_. None), ho_mkdir = (\<lambda>_. None), ho_stdin = [], ho_listen = (\<lambda>_ n. Inr n),
      ho_make = (\<lambda>_ _. Inr (sched_backend, sched_b0)), ho_make_draft = (\<lambda>_. make_llama_backend_stub undefined), ho_draft_first = False,
      ho_env = linked_env, ho_no_draft = (), ho_cache_dir = (\<lambda>_. []), ho_corpus = (\<lambda>_. None), ho_arca = (\<lambda>_. empty_archive 0 3),
      ho_disk = (\<lambda>_ _. True), ho_race = (\<lambda>_ _ _ _. [])\<rparr>"

definition demo_args :: "bytes list" where
  "demo_args = [''-c'', ''c'', ''-p'', ''a'', ''--max-tokens'', ''1'', ''--temp'', ''0'']"

definition demo_cli :: main_cli where
  "demo_cli = main_defaults\<lparr>mc_config_path := ''c'', mc_prompt := ''a'', mc_max_tokens := 1, mc_temperature := 0\<rparr>"

lemma demo_args_parse: "main_loop (ho_stof demo_host) demo_args main_defaults = Go demo_cli"
proof -
  have "std_stoi ''1'' = Inr 1" by code_simp
  then show ?thesis by (simp add: demo_args_def demo_host_def demo_cli_def takes_value_def)
qed

lemma demo_plan:
  obtains c where "main_run (ho_stof demo_host) (ho_stod demo_host) (ho_files demo_host) (file_exists demo_host) demo_args =
      Plan_start c None (Generate_with (generation_of demo_cli) ''a'' 1)"
    "ec_model_path c = ''m.gguf''" "ec_cache_dir c = []" "ec_n_parallel c = 1" "validate c = Inr ()" "\<not> wants_draft_backend c"
    "\<not> ec_use_prompt_lookup c"
proof -
  let ?ini = "[(''model'', [(''path'', ''m.gguf'')])]"
  have "list_all section_ok ?ini" by (simp add: section_ok_def pair_ok_def config_trim_def trim_set_dropWhile)
  then obtain cfg where parse: "config_parse (print_config ?ini) = Inr cfg"
    and find: "\<And>k. map_find std_less k cfg = (if k = ''model.path'' then Some ''m.gguf'' else None)"
    using config_lookup [of ?ini] by (auto simp: full_keys_def)
  have level: "level_from_string ''info'' = Inr Info" by code_simp
  let ?c = "default_engine_config\<lparr>ec_model_path := ''m.gguf'', ec_n_ctx := 4096, ec_n_threads := 4\<rparr>"
  have ec: "engine_config_of (ho_stod demo_host) cfg = Inr ?c"
    by (simp add: engine_config_of_def get_string_def get_int_or_def get_string_or_def get_bool_or_def get_double_or_def config_has_def
        find default_engine_config_def cast_int_def cast_u64_def)
  have f: "ho_files demo_host ''c'' = Some (print_config ?ini)" "ho_files demo_host ''m.gguf'' = Some []" by (simp_all add: demo_host_def)
  have missing: "missing_model_file_error (file_exists demo_host) ?c = []"
    unfolding missing_model_file_error_def using f by (simp add: default_engine_config_def wants_draft_backend_def file_exists_def)
  have conclave: "conclave_config (mc_best_of demo_cli) ?c = ?c" by (simp add: conclave_config_def demo_cli_def main_defaults_def)
  have mc: "main_configured (ho_stod demo_host) (file_exists demo_host) demo_cli cfg =
      Plan_start ?c None (Generate_with (generation_of demo_cli) ''a'' 1)"
    unfolding main_configured_def or_exit_def get_string_or_def get_int_or_def config_has_def find ec sum.case Let_def
    by (simp add: level get_string_def find arca_remote_of_def conclave missing if_False) (simp add: demo_cli_def main_defaults_def)
  show thesis
  proof (rule that [of ?c])
    show "main_run (ho_stof demo_host) (ho_stod demo_host) (ho_files demo_host) (file_exists demo_host) demo_args =
      Plan_start ?c None (Generate_with (generation_of demo_cli) ''a'' 1)"
      unfolding main_run_def demo_args_parse cli_outcome.case using mc
      by (simp add: demo_args_def or_exit_def config_load_def f parse demo_cli_def)
  qed (simp_all add: default_engine_config_def validate_def wants_draft_backend_def)
qed

text \<open>An engine that was loaded over an empty cache directory and without an archive is one of a deployment.\<close>

lemma loaded_serving:
  assumes "ReameEngine_load H c None = Inr (E, s)" and "ho_cache_dir H (ec_cache_dir c) = []"
    and "open_main (ho_make H) c = Inr (B, b)"
  shows "serving E eval S c b Q s"
proof -
  from assms obtain D where E: "E = (ho_env H)\<lparr>ee_B := B, ee_D := map_option fst D\<rparr>"
    and i: "ReameEngine_init E c None (Some b) (case D of None \<Rightarrow> ho_no_draft H | Some (_, d) \<Rightarrow> d) [] (ho_corpus H (ec_cache_dir c)) = Inr s"
    by (auto simp: ReameEngine_load_def Let_def bindE_Inr map_sum_eq_Inr split: if_splits)
  have "en_arca s = None"
    using i by (auto simp: ReameEngine_init_def Let_def map_sum_eq_Inr split: sum.splits if_splits)
  with er_init [OF i] show ?thesis by (simp add: serving_def)
qed

lemma demo_gen: "one_token (generation_of demo_cli)"
  by (simp add: one_token_def generation_of_def demo_cli_def)

lemma demo_engine_load:
  assumes "ec_model_path c = ''m.gguf''" and "ec_cache_dir c = []" and "ec_n_parallel c = 1" and "validate c = Inr ()"
    and "\<not> wants_draft_backend c" and "\<not> ec_use_prompt_lookup c"
  shows "open_main (ho_make demo_host) c = Inr (sched_backend, sched_b0)"
    and "ReameEngine_load demo_host c None = Inr (linked_env, linked_engine\<lparr>en_arca := None\<rparr>)"
proof -
  show m: "open_main (ho_make demo_host) c = Inr (sched_backend, sched_b0)"
    by (simp add: open_main_def choose_backends_def assms(4) Let_def demo_host_def)
  have d: "open_draft mk c = Inr None" for mk :: "ModelParams \<Rightarrow> model_exn + unit LlamaBackend \<times> unit"
    by (simp add: open_draft_def assms(5))
  have E: "linked_env\<lparr>ee_B := sched_backend, ee_D := None\<rparr> = linked_env" by (simp add: linked_env_def)
  have f: "ho_draft_first demo_host = False" "ho_env demo_host = linked_env" "ho_no_draft demo_host = ()"
    "ho_cache_dir demo_host dir = []" "ho_corpus demo_host dir = None" for dir
    by (simp_all add: demo_host_def)
  have i: "ReameEngine_init linked_env c None (Some sched_b0) () [] None = Inr (linked_engine\<lparr>en_arca := None\<rparr>)"
    by (simp add: ReameEngine_init_def assms linked_engine_def) (simp add: linked_env_def)
  show "ReameEngine_load demo_host c None = Inr (linked_env, linked_engine\<lparr>en_arca := None\<rparr>)"
    by (simp add: ReameEngine_load_def m d f E i bindE_def)
qed

lemma demo_generate:
  "\<exists>s1. engine_generate_stream linked_env disk ''a'' (Some (\<lambda>_. Inr True)) (generation_of demo_cli) (linked_engine\<lparr>en_arca := None\<rparr>) =
    (Inr (), [[CHR 0x07]], s1)"
proof -
  have "generate_stream_impl linked_env disk ''a'' (\<lambda>_. Inr True) (generation_of demo_cli) (linked_engine\<lparr>en_arca := None\<rparr>) =
      (Inr (), [[CHR 0x07]], linked_engine\<lparr>en_arca := None, en_backend := serve_b1, en_context_tokens := [97, 7]\<rparr>)"
    by (rule cold_generate) (simp_all add: linked_env_def linked_engine_def demo_gen)
  then show ?thesis by (simp add: engine_generate_stream_def)
qed

section \<open>Properties\<close>



text \<open>Compositional: an exit code other than 0 comes with a complaint.\<close>

definition complains :: "(int \<times> ('b, 'd, 'r, 'a) service) act \<Rightarrow> bool" where
  "complains m \<longleftrightarrow> (\<forall>out n sv. m = (out, Inr (n, sv)) \<longrightarrow> n = 0 \<or> n = 1 \<and> (\<exists>x \<in> set out. complaint x))"

lemma complains_say [intro]: "complains m \<Longrightarrow> complains (say out m)"
  unfolding complains_def say_eq by auto

lemma complains_bind [intro]: "(\<And>v. complains (f v)) \<Longrightarrow> complains (bindA m f)"
  unfolding complains_def bindA_Inr by (metis Un_iff set_append)

lemma complains_0 [intro]: "complains (out, Inr (0, sv))"
  by (simp add: complains_def)

lemma complains_error [intro]: "complains (say (log_at level Error message) (out, Inr (1, sv)))"
  by (simp add: complains_def)

lemma main_started_complains: "complains (main_started H level cfg m c arca)"
  unfolding main_started_def by (intro complains_say complains_bind) (auto split: prod.split intro!: complains_say complains_bind)

lemma complains_if [intro]: "(P \<Longrightarrow> complains a) \<Longrightarrow> (\<not> P \<Longrightarrow> complains b) \<Longrightarrow> complains (if P then a else b)"
  by simp

lemma main_body_complains: "complains (main_body H m)"
  unfolding main_body_def Let_def
  by (intro complains_say complains_bind complains_if complains_0 complains_error main_started_complains)

definition loud :: "cli_outcome \<Rightarrow> console list \<Rightarrow> bool" where
  "loud oc out \<longleftrightarrow> (\<forall>n. oc = Exit n \<longrightarrow> n = 0 \<or> n = 1 \<and> (\<exists>x \<in> set out. complaint x))"

lemma loud_simps [simp]: "loud (Go m) out" "loud (Uncaught e) out" "loud (Exit 0) out" "loud (Exit 1) (Err b # out)"
  by (simp_all add: loud_def)

lemma loud_if:
  "(P \<Longrightarrow> loud a x) \<Longrightarrow> (\<not> P \<Longrightarrow> loud b y) \<Longrightarrow> loud (if P then a else b) (if P then x else y)"
  "(P \<Longrightarrow> loud a x) \<Longrightarrow> (\<not> P \<Longrightarrow> loud b x) \<Longrightarrow> loud (if P then a else b) x"
  by simp_all

lemma main_loop_loud: "loud (main_loop stof args m) (main_loop_output H args)"
proof (induction args arbitrary: m rule: length_induct)
  case (1 args)
  then have IH: "loud (main_loop stof ys m) (main_loop_output H ys)" if "length ys < length args" for ys m using that by blast
  show ?case
  proof (cases args)
    case (Cons arg rest)
    have valued: "loud (case std_stoi val of Inl e \<Rightarrow> Uncaught e | Inr n \<Rightarrow> main_loop stof rest1 (f n)) (main_loop_output H rest1)"
      "loud (case stof val of Inl e \<Rightarrow> Uncaught e | Inr t \<Rightarrow> main_loop stof rest1 (g t)) (main_loop_output H rest1)"
      if "rest = val # rest1" for val rest1 f g
      using IH [of rest1] that Cons by (simp_all split: sum.split)
    show ?thesis
      unfolding Cons main_loop.simps main_loop_output.simps
    proof (intro loud_if(1))
      show "loud (case rest of [] \<Rightarrow> Exit 1
         | val # rest1 \<Rightarrow>
             if arg = ''--config'' \<or> arg = ''-c'' then main_loop stof rest1 (m\<lparr>mc_config_path := val\<rparr>)
             else if arg = ''--max-tokens'' then
               (case std_stoi val of Inl e \<Rightarrow> Uncaught e | Inr n \<Rightarrow> main_loop stof rest1 (m\<lparr>mc_max_tokens := n\<rparr>))
             else if arg = ''--temp'' then
               (case stof val of Inl e \<Rightarrow> Uncaught e | Inr t \<Rightarrow> main_loop stof rest1 (m\<lparr>mc_temperature := t\<rparr>))
             else if arg = ''--best-of'' then
               (case std_stoi val of Inl e \<Rightarrow> Uncaught e | Inr n \<Rightarrow> main_loop stof rest1 (m\<lparr>mc_best_of := n\<rparr>))
             else main_loop stof rest1 (m\<lparr>mc_prompt := val\<rparr>))
        (case rest of [] \<Rightarrow> [Err (''error: '' @ arg @ '' requires an argument'' @ [newline])] | val # rest1 \<Rightarrow> main_loop_output H rest1)"
      proof (cases rest)
        case (Cons val rest1)
        with \<open>args = arg # rest\<close> show ?thesis
          unfolding Cons list.case by (intro loud_if(2) valued [OF Cons] IH) simp_all
      qed simp
    qed (use IH [of rest] Cons in \<open>simp_all add: print_usage_def\<close>)
  qed simp
qed

lemma zero_engine_complains:
  assumes "zero_engine (ho_fetch H) (home_dir H) hw token z (ho_files H) = (Inl n, fs)"
  shows "n = 1 \<and> (\<exists>x \<in> set (resolve_output H token). complaint x)"
proof (cases "resolve_model token")
  case None
  then show ?thesis using assms by (simp add: zero_engine_def resolve_output_def split: if_splits)
next
  case (Some spec)
  let ?path = "(home_dir H @ ''/.reame/models'') @ ''/'' @ ms_filename spec"
  obtain ok fs' where d: "ensure_downloaded (ho_fetch H) (ms_url spec) ?path (ho_files H) = (ok, fs')" by fastforce
  with assms Some have "n = 1" "\<not> ok" by (simp_all only: zero_engine_def Let_def option.case prod.case) (simp_all split: if_splits)
  moreover from d this(2) have "ho_files H ?path = None" "ho_fetch H (ms_url spec) = None"
    by (auto simp only: ensure_downloaded_def Let_def split: if_splits option.splits)
  ultimately show ?thesis unfolding resolve_output_def Some option.case by simp
qed

lemma run_complains:
  assumes "run_zeroconfig H args = (out, Returned n, service)" and "n \<noteq> 0"
  shows "n = 1 \<and> (\<exists>x \<in> set out. complaint x)"
proof (cases "length args < 2")
  case True
  then show ?thesis using assms(1) by (cases args; cases "tl args") (auto simp: run_zeroconfig_def)
next
  case False
  then obtain sub token rest where a: "args = sub # token # rest" by (cases args; cases "tl args") auto
  from assms(1) obtain z where z: "zero_loop (ho_stof H) rest zero_defaults = Inr z"
    unfolding run_zeroconfig_def a list.case by (cases "zero_loop (ho_stof H) rest zero_defaults") simp_all
  obtain r files where ze: "zero_engine (ho_fetch H) (home_dir H) (ho_hw H) token z (ho_files H) = (r, files)" by fastforce
  note p = assms(1) [unfolded run_zeroconfig_def a list.case z sum.case ze prod.case]
  show ?thesis
  proof (cases r)
    case (Inl k)
    with zero_engine_complains [OF ze [unfolded Inl]] p show ?thesis by simp
  next
    case (Inr c)
    obtain out1 q where b: "run_body (H\<lparr>ho_files := files\<rparr>) token z c = (out1, q)" by fastforce
    show ?thesis using p assms(2) unfolding Inr sum.case b prod.case by (cases q) auto
  qed
qed

lemma main_config_complains:
  assumes "main_config H args = (out, Returned n, service)" and "n \<noteq> 0"
  shows "n = 1 \<and> (\<exists>x \<in> set out. complaint x)"
proof (cases "main_loop (ho_stof H) args main_defaults")
  case (Go m)
  obtain out1 q where b: "main_body H m = (out1, q)" by fastforce
  show ?thesis
    using assms main_body_complains [of H m] unfolding main_config_def Go cli_outcome.case b prod.case complains_def
    by (cases q) (auto split: if_splits)
next
  case (Exit k)
  then show ?thesis using assms main_loop_loud [of "ho_stof H" args main_defaults H] by (auto simp: main_config_def loud_def split: if_splits)
next
  case (Uncaught e)
  then show ?thesis using assms by (auto simp: main_config_def split: if_splits)
qed

text \<open>
  C39. The program never fails silently: on every command and every path, an exit code other than 0 is 1, and the user has
  been told, on standard error or with a log line of level ERROR, which no configured log level suppresses.
\<close>

theorem no_silent_failure:
  assumes "program H args = (out, Returned n, service)" and "n \<noteq> 0"
  shows "n = 1 \<and> (\<exists>x \<in> set out. complaint x)"
proof (cases "main_command_of args")
  case Cmd_arca
  then show ?thesis using assms by (auto simp: program_def run_arca_def split: sum.splits option.splits)
qed (use assms run_complains [of H args] main_config_complains [of H args] in \<open>simp_all add: program_def\<close>)

theorem no_silent_failure_witness:
  "\<exists>out. program demo_host [''--bogus''] = (out, Returned 1, No_service) \<and> (\<exists>x \<in> set out. complaint x)"
proof -
  obtain out where p: "program demo_host [''--bogus''] = (out, Returned 1, No_service)"
    by (simp add: program_def main_command_of_def main_config_def takes_value_def)
  from no_silent_failure [OF p] p show ?thesis by simp
qed

text \<open>
  \<open>reame run <model> --serve\<close> announces \<open>127.0.0.1\<close>, but the server it starts listens on every address and lets every
  request in.
\<close>

lemma run_serve_is_open:
  assumes "program H (''run'' # token # rest) = (out, Returned 0, Http_service sc E s)"
  shows "Log Info ''serving on http://127.0.0.1:8080 (Ctrl-C to stop)'' \<in> set out \<and> sc_host sc = ''0.0.0.0'' \<and>
    authorized (handler_config sc) r"
proof -
  have p: "run_zeroconfig H (''run'' # token # rest) = (out, Returned 0, Http_service sc E s)"
    using assms by (simp add: program_def main_command_of_def)
  then obtain z where z: "zero_loop (ho_stof H) rest zero_defaults = Inr z"
    unfolding run_zeroconfig_def list.case by (cases "zero_loop (ho_stof H) rest zero_defaults") simp_all
  obtain q files where ze: "zero_engine (ho_fetch H) (home_dir H) (ho_hw H) token z (ho_files H) = (q, files)" by fastforce
  note p' = p [unfolded run_zeroconfig_def list.case z sum.case ze prod.case]
  obtain c where c: "q = Inr c" using p' by (cases q) simp_all
  obtain out1 q1 where b: "run_body (H\<lparr>ho_files := files\<rparr>) token z c = (out1, q1)" by fastforce
  from p' [unfolded c sum.case b prod.case] have q1: "q1 = Inr (Http_service sc E s)" "out = resolve_output H token @ out1" by (cases q1; simp)+
  have "Log Info ''serving on http://127.0.0.1:8080 (Ctrl-C to stop)'' \<in> set out1 \<and> sc = zero_server"
    using b [unfolded q1(1) run_body_def]
    by (auto simp: act_Inr split: if_splits prod.splits option.splits)
  then show ?thesis by (simp add: q1(2) zero_server_def default_server_config_def authorized_iff handler_config_def)
qed

text \<open>
  The comment on the production constructor promises to validate before any backend is touched. When the second argument is
  evaluated first, the draft model is loaded first, and its failure hides the invalid configuration.
\<close>

lemma draft_loaded_before_validation:
  assumes "ho_draft_first H" and "wants_draft_backend c"
    and "ho_make_draft H ((to_model_params c)\<lparr>mp_path := ec_draft_model_path c\<rparr>) = Inl e"
  shows "ReameEngine_load H c arca = Inl (Engine_model e)"
  using assms by (simp add: ReameEngine_load_def open_draft_def bindE_def)

end
