(* ===== verification/Shutdown.thy ===== *)
theory Shutdown
  imports Prelude
begin

text \<open>
  How \<open>main.cpp\<close> ends a server: a thread waits on a condition variable for the flag that the signal handler
  \<open>request_shutdown\<close> sets under a mutex. The handler runs on the thread the signal interrupts, which may be the main thread
  itself; while it does, that thread makes no step of its own. \<open>main\<close> gives the lock back before it stops the server;
  \<open>run_zeroconfig\<close> and \<open>run_arca\<close> hold it to the end: the argument \<open>scoped\<close>. One signal is handled at a time.
\<close>

section \<open>State and steps\<close>

datatype owner = Main_owner | Handler_owner
datatype interrupted = On_main | On_other
datatype main_at = Before_lock | Testing | Waiting | Stopping | Finished
datatype handler_at = Locking | Setting | Notifying

record shutdown =
  sh_main :: main_at
  sh_owner :: "owner option"
  sh_flag :: bool
  sh_notified :: bool
  sh_handler :: "(interrupted \<times> handler_at) option"

definition shutdown_init :: shutdown where
  "shutdown_init = \<lparr>sh_main = Before_lock, sh_owner = None, sh_flag = False, sh_notified = False, sh_handler = None\<rparr>"

text \<open>The handler is not running on the main thread.\<close>

definition main_runs :: "shutdown \<Rightarrow> bool" where
  "main_runs s \<longleftrightarrow> (\<forall>pc. sh_handler s \<noteq> Some (On_main, pc))"

text \<open>The constructor of \<open>std::unique_lock\<close>, and the reacquisition in \<open>wait\<close>.\<close>

definition main_acquire :: "shutdown \<Rightarrow> shutdown" where
  "main_acquire s = s\<lparr>sh_owner := Some Main_owner, sh_main := Testing\<rparr>"

text \<open>The predicate of \<open>wait\<close> under the lock: leave the loop, or release the lock and sleep.\<close>

definition main_test :: "bool \<Rightarrow> shutdown \<Rightarrow> shutdown" where
  "main_test scoped s =
     (if sh_flag s then s\<lparr>sh_main := Stopping, sh_owner := (if scoped then None else sh_owner s)\<rparr>
      else s\<lparr>sh_main := Waiting, sh_owner := None, sh_notified := False\<rparr>)"

text \<open>\<open>server.stop()\<close> has returned and so does the function.\<close>

definition main_return :: "bool \<Rightarrow> shutdown \<Rightarrow> shutdown" where
  "main_return scoped s = s\<lparr>sh_main := Finished, sh_owner := (if scoped then sh_owner s else None)\<rparr>"

text \<open>The three actions of \<open>request_shutdown\<close>.\<close>

definition handler_lock :: "interrupted \<Rightarrow> shutdown \<Rightarrow> shutdown" where
  "handler_lock t s = s\<lparr>sh_owner := Some Handler_owner, sh_handler := Some (t, Setting)\<rparr>"

definition handler_set :: "interrupted \<Rightarrow> shutdown \<Rightarrow> shutdown" where
  "handler_set t s = s\<lparr>sh_flag := True, sh_owner := None, sh_handler := Some (t, Notifying)\<rparr>"

definition handler_notify :: "shutdown \<Rightarrow> shutdown" where
  "handler_notify s = s\<lparr>sh_notified := (sh_notified s \<or> sh_main s = Waiting), sh_handler := None\<rparr>"

lemmas shutdown_defs = main_acquire_def main_test_def main_return_def handler_lock_def handler_set_def handler_notify_def

inductive shutdown_step :: "bool \<Rightarrow> shutdown \<Rightarrow> shutdown \<Rightarrow> bool" for scoped where
  acquire: "main_runs s \<Longrightarrow> sh_main s = Before_lock \<Longrightarrow> sh_owner s = None \<Longrightarrow> shutdown_step scoped s (main_acquire s)"
| test: "main_runs s \<Longrightarrow> sh_main s = Testing \<Longrightarrow> shutdown_step scoped s (main_test scoped s)"
| wake: "main_runs s \<Longrightarrow> sh_main s = Waiting \<Longrightarrow> sh_notified s \<Longrightarrow> sh_owner s = None \<Longrightarrow> shutdown_step scoped s (main_acquire s)"
| return: "main_runs s \<Longrightarrow> sh_main s = Stopping \<Longrightarrow> shutdown_step scoped s (main_return scoped s)"
| h_lock: "sh_handler s = Some (t, Locking) \<Longrightarrow> sh_owner s = None \<Longrightarrow> shutdown_step scoped s (handler_lock t s)"
| h_set: "sh_handler s = Some (t, Setting) \<Longrightarrow> shutdown_step scoped s (handler_set t s)"
| h_notify: "sh_handler s = Some (t, Notifying) \<Longrightarrow> shutdown_step scoped s (handler_notify s)"

text \<open>What the environment does: signals, and wake-ups without a reason.\<close>

inductive outside_step :: "shutdown \<Rightarrow> shutdown \<Rightarrow> bool" where
  signal: "sh_handler s = None \<Longrightarrow> outside_step s (s\<lparr>sh_handler := Some (t, Locking)\<rparr>)"
| spurious: "main_runs s \<Longrightarrow> sh_main s = Waiting \<Longrightarrow> sh_owner s = None \<Longrightarrow> outside_step s (main_acquire s)"

inductive shutdown_reach :: "bool \<Rightarrow> shutdown \<Rightarrow> bool" for scoped where
  init: "shutdown_reach scoped shutdown_init"
| program: "shutdown_reach scoped s \<Longrightarrow> shutdown_step scoped s s' \<Longrightarrow> shutdown_reach scoped s'"
| outside: "shutdown_reach scoped s \<Longrightarrow> outside_step s s' \<Longrightarrow> shutdown_reach scoped s'"

section \<open>The invariant\<close>

text \<open>Who owns the mutex follows from where the two are, and a set flag is never missed by a sleeping main thread.\<close>

definition shutdown_inv :: "bool \<Rightarrow> shutdown \<Rightarrow> bool" where
  "shutdown_inv scoped s \<longleftrightarrow>
     (sh_owner s = Some Main_owner \<longleftrightarrow> sh_main s = Testing \<or> sh_main s = Stopping \<and> \<not> scoped) \<and>
     (sh_owner s = Some Handler_owner \<longleftrightarrow> (\<exists>t. sh_handler s = Some (t, Setting))) \<and>
     (sh_main s = Waiting \<and> sh_flag s \<longrightarrow> sh_notified s \<or> (\<exists>t. sh_handler s = Some (t, Notifying)))"

lemma shutdown_step_inv [reame_inv]:
  assumes "shutdown_step scoped s s'" and "shutdown_inv scoped s"
  shows "shutdown_inv scoped s'"
  using assms by (cases rule: shutdown_step.cases) (auto simp: shutdown_inv_def shutdown_defs)

lemma outside_step_inv [reame_inv]:
  assumes "outside_step s s'" and "shutdown_inv scoped s"
  shows "shutdown_inv scoped s'"
  using assms by (cases rule: outside_step.cases) (auto simp: shutdown_inv_def shutdown_defs)

lemma shutdown_reach_inv: "shutdown_reach scoped s \<Longrightarrow> shutdown_inv scoped s"
proof (induction rule: shutdown_reach.induct)
  case init
  show ?case by (simp add: shutdown_inv_def shutdown_init_def)
qed (auto intro: shutdown_step_inv outside_step_inv)

section \<open>Properties\<close>

text \<open>
  The handler interrupts the main thread while that thread owns the mutex the handler wants. \<open>reame run --serve\<close> and
  \<open>reame arca\<close> keep the mutex while they stop the server: every signal that the main thread handles then leads there.
\<close>

definition self_deadlock :: "shutdown \<Rightarrow> bool" where
  "self_deadlock s \<longleftrightarrow> sh_handler s = Some (On_main, Locking) \<and> sh_owner s = Some Main_owner"

lemma interrupt_while_stopping:
  assumes "shutdown_reach False s" and "sh_main s = Stopping" and "sh_handler s = None"
  shows "self_deadlock (s\<lparr>sh_handler := Some (On_main, Locking)\<rparr>)"
  using shutdown_reach_inv [OF assms(1)] assms(2) by (simp add: self_deadlock_def shutdown_inv_def)

text \<open>
  C40. Where a shutdown can get stuck: in every interleaving, a state in which the program cannot move is the end, the
  wait for a first signal, or the signal handler waiting on the main thread for the mutex that this thread holds. No wake-up
  is lost; in the third case nothing that happens later helps.
\<close>

theorem shutdown_stuck_states:
  assumes "shutdown_reach scoped s" and "\<nexists>s'. shutdown_step scoped s s'"
  shows "(sh_handler s = None \<and> (sh_main s = Finished \<or> sh_main s = Waiting \<and> \<not> sh_flag s)) \<or>
    self_deadlock s \<and> (\<nexists>s'. outside_step s s')"
proof -
  have inv: "shutdown_inv scoped s" using assms(1) by (rule shutdown_reach_inv)
  have no: "\<not> shutdown_step scoped s s'" for s' using assms(2) by blast
  have ms: "main_runs s \<Longrightarrow> sh_main s = Finished \<or> sh_main s = Waiting \<and> \<not> (sh_notified s \<and> sh_owner s = None) \<or>
      sh_main s = Before_lock \<and> sh_owner s \<noteq> None"
    using no shutdown_step.acquire [of s scoped] shutdown_step.test [of s scoped] shutdown_step.wake [of s scoped]
      shutdown_step.return [of s scoped] by (cases "sh_main s") blast+
  show ?thesis
  proof (cases "sh_handler s")
    case None
    then have "main_runs s" by (simp add: main_runs_def)
    note m = ms [OF this]
    have "sh_owner s \<noteq> Some Handler_owner" using inv None by (simp add: shutdown_inv_def)
    moreover have "sh_owner s \<noteq> Some Main_owner" using inv m by (auto simp: shutdown_inv_def)
    ultimately have "sh_owner s = None" by (metis option.exhaust owner.exhaust)
    with m inv None show ?thesis by (auto simp: shutdown_inv_def)
  next
    case (Some h)
    then obtain t pc where h: "sh_handler s = Some (t, pc)" by (cases h) simp
    have pc: "pc = Locking" and o: "sh_owner s \<noteq> None"
      using no h shutdown_step.h_lock [of s t scoped] shutdown_step.h_set [of s t scoped] shutdown_step.h_notify [of s t scoped]
      by (cases pc; blast)+
    have "sh_owner s \<noteq> Some Handler_owner" using inv h pc by (simp add: shutdown_inv_def)
    with o have om: "sh_owner s = Some Main_owner" by (metis option.exhaust owner.exhaust)
    have "t = On_main"
    proof (cases t)
      case On_other
      then have "main_runs s" using h by (simp add: main_runs_def)
      from ms [OF this] inv om show ?thesis by (auto simp: shutdown_inv_def)
    qed
    with h pc om show ?thesis by (auto simp: self_deadlock_def main_runs_def elim: outside_step.cases)
  qed
qed

text \<open>Two interrupts: the first ends the wait, the second arrives while \<open>reame run --serve\<close> stops the server.\<close>

definition second_interrupt :: shutdown where
  "second_interrupt = \<lparr>sh_main = Stopping, sh_owner = Some Main_owner, sh_flag = True, sh_notified = True,
     sh_handler = Some (On_main, Locking)\<rparr>"

lemma second_interrupt_reach: "shutdown_reach False second_interrupt"
proof -
  let ?w = "main_test False (main_acquire shutdown_init)"
  let ?n = "handler_notify (handler_set On_main (handler_lock On_main (?w\<lparr>sh_handler := Some (On_main, Locking)\<rparr>)))"
  let ?p = "main_test False (main_acquire ?n)"
  have "shutdown_reach False ?w"
    by (rule program [OF program [OF init acquire] test]) (simp_all add: shutdown_init_def shutdown_defs main_runs_def)
  from outside [OF this outside_step.signal [of _ On_main]] have "shutdown_reach False (?w\<lparr>sh_handler := Some (On_main, Locking)\<rparr>)"
    by (simp add: shutdown_init_def shutdown_defs)
  from program [OF program [OF program [OF this h_lock [of _ On_main]] h_set [of _ On_main]] h_notify [of _ On_main]]
  have "shutdown_reach False ?n" by (simp add: shutdown_init_def shutdown_defs)
  from program [OF program [OF this wake] test] have "shutdown_reach False ?p"
    by (simp add: shutdown_init_def shutdown_defs main_runs_def)
  from outside [OF this outside_step.signal [of _ On_main]] show ?thesis
    by (simp add: shutdown_init_def shutdown_defs second_interrupt_def)
qed

theorem shutdown_stuck_states_witness:
  "shutdown_reach False second_interrupt \<and> self_deadlock second_interrupt \<and> (\<nexists>s'. outside_step second_interrupt s')"
proof -
  have "\<nexists>s'. shutdown_step False second_interrupt s'"
    by (auto simp: second_interrupt_def main_runs_def elim: shutdown_step.cases)
  from shutdown_stuck_states [OF second_interrupt_reach this] second_interrupt_reach show ?thesis
    by (simp add: second_interrupt_def)
qed

end
