(* ===== verification/Nucleo.thy ===== *)
theory Nucleo
  imports Backend
begin

text \<open>
  The second inference backend (\<open>core/nucleo_backend.cpp\<close>), over the nucleo engine. That engine is not part
  of the repository: it is the parameter \<open>nucleo_lib\<close> (\<open>Modello\<close>, \<open>Tokenizzatore\<close>, \<open>Motore\<close>), and what the
  wrapper relies on is the hypothesis \<open>nucleo_ok\<close>. An exception of the library is passed on, with its text.

  The result: the wrapper fulfils the same contract as the llama.cpp backend, although it evaluates a batch
  in portions of at most eight positions and cuts the logits of each portion out of one flat array.
\<close>

section \<open>The library\<close>

record 'm nucleo_lib =
  nu_vocab_uscita :: tokens
  nu_n_vocab :: nat
  nu_n_ctx :: nat
  nu_codifica :: "bytes \<Rightarrow> tokens"
  nu_decodifica :: "tokens \<Rightarrow> bytes"
  nu_riparti :: "'m \<Rightarrow> 'm"
  nu_continua :: "'m \<Rightarrow> tokens \<Rightarrow> (model_exn + logits) \<times> 'm"
  nu_continua_lotto :: "'m \<Rightarrow> tokens \<Rightarrow> (model_exn + logits) \<times> 'm"
  nu_tronca :: "'m \<Rightarrow> nat \<Rightarrow> (model_exn + unit) \<times> 'm"
  nu_stato :: "'m \<Rightarrow> model_exn + bytes"
  nu_carica_stato :: "'m \<Rightarrow> bytes \<Rightarrow> nat \<Rightarrow> (model_exn + unit) \<times> 'm"
  nu_posizioni :: "'m \<Rightarrow> nat"

section \<open>The backend\<close>

text \<open>What the constructor computes once: the tokens that end a turn and the text, -1 for none.\<close>

record nucleo_ids =
  ni_fine_turno :: TokenId
  ni_fine_testo :: TokenId
  ni_pensa :: bool

definition token_unico :: "'m nucleo_lib \<Rightarrow> bytes \<Rightarrow> TokenId" where
  "token_unico N testo = (let ids = nu_codifica N testo in if length ids = 1 then ids ! 0 else - 1)"

definition NucleoBackend_init :: "'m nucleo_lib \<Rightarrow> model_exn + nucleo_ids" where
  "NucleoBackend_init N =
     (if nu_vocab_uscita N \<noteq> []
      then Inl (ModelError (''il server richiede un .nuc a testa piena: quello potato '' @
                  ''emette solo il vocabolario del suo corpus''))
      else
        let fine_turno = token_unico N ''<|im_end|>''; fine_testo = token_unico N ''<|endoftext|>''
        in if sint fine_turno < 0 \<and> sint fine_testo < 0
           then Inl (ModelError (''il vocabolario non ha ne'' @ [CHR 0x27] @ '' <|im_end|> ne'' @ [CHR 0x27] @ '' <|endoftext|>: '' @
                       ''senza un token di fine la generazione non sa fermarsi''))
           else Inr \<lparr>ni_fine_turno = fine_turno, ni_fine_testo = fine_testo,
                     ni_pensa = (0 \<le> sint (token_unico N ''<think>'') \<and> 0 \<le> sint (token_unico N ''</think>''))\<rparr>)"

definition nucleo_decode :: "'m nucleo_lib \<Rightarrow> 'm \<Rightarrow> tokens \<Rightarrow> (model_exn + logits) \<times> 'm" where
  "nucleo_decode N m tokens = nu_continua N (nu_riparti N m) tokens"

text \<open>The flat logits of a portion, cut into one row per position.\<close>

definition rows :: "nat \<Rightarrow> logits \<Rightarrow> logits list" where
  "rows quanti logit_tutti =
     (let n_logit = length logit_tutti div quanti
      in map (\<lambda>t. take n_logit (drop (t * n_logit) logit_tutti)) [0..<quanti])"

function nucleo_decode_batch :: "'m nucleo_lib \<Rightarrow> 'm \<Rightarrow> tokens \<Rightarrow> (model_exn + logits list) \<times> 'm" where
  "nucleo_decode_batch N m tokens =
     (if tokens = [] then (Inr [], m)
      else let quanti = min 8 (length tokens)
           in case nu_continua_lotto N m (take quanti tokens) of
                (Inl e, m1) \<Rightarrow> (Inl e, m1)
              | (Inr logit_tutti, m1) \<Rightarrow>
                  (case nucleo_decode_batch N m1 (drop quanti tokens) of
                     (Inl e, m2) \<Rightarrow> (Inl e, m2)
                   | (Inr tutti, m2) \<Rightarrow> (Inr (rows quanti logit_tutti @ tutti), m2)))"
  by pat_completeness auto
termination
  by (relation "measure (\<lambda>(N, m, tokens). length tokens)") auto

declare nucleo_decode_batch.simps [simp del]

definition nucleo_decode_seqs :: "'m nucleo_lib \<Rightarrow> 'm \<Rightarrow> SeqSlice list \<Rightarrow> (model_exn + logits list) \<times> 'm" where
  "nucleo_decode_seqs N m slices =
     (if length slices \<noteq> 1
      then (Inl (ModelError (''backend nucleo v1: una sola sequenza (multi-utente '' @ ''interlacciato non ancora supportato)'')), m)
      else (case nu_continua N m (sl_tokens (slices ! 0)) of (r, m1) \<Rightarrow> (map_sum id (\<lambda>l. [l]) r, m1)))"

definition chatml_turn :: "ChatMessage \<Rightarrow> bytes" where
  "chatml_turn m = ''<|im_start|>'' @ cm_role m @ [CHR 0x0A] @ cm_content m @ ''<|im_end|>'' @ [CHR 0x0A]"

definition nucleo_format_chat_messages :: "nucleo_ids \<Rightarrow> ChatMessage list \<Rightarrow> bytes" where
  "nucleo_format_chat_messages ids messages =
     concat (map chatml_turn messages) @ ''<|im_start|>assistant'' @ [CHR 0x0A] @
     (if ni_pensa ids then ''<think>'' @ [CHR 0x0A, CHR 0x0A] @ ''</think>'' @ [CHR 0x0A, CHR 0x0A] else [])"

definition nucleo_format_chat :: "nucleo_ids \<Rightarrow> bytes \<Rightarrow> bytes" where
  "nucleo_format_chat ids user_message = nucleo_format_chat_messages ids [\<lparr>cm_role = ''user'', cm_content = user_message\<rparr>]"

definition nucleo_copy_seq :: "'m \<Rightarrow> int \<Rightarrow> int \<Rightarrow> nat \<Rightarrow> (model_exn + unit) \<times> 'm" where
  "nucleo_copy_seq m src dst n_tokens = (Inl (ModelError ''backend nucleo v1: copy_seq non supportata''), m)"

definition nucleo_eos_token :: "nucleo_ids \<Rightarrow> TokenId" where
  "nucleo_eos_token ids = (if 0 \<le> sint (ni_fine_testo ids) then ni_fine_testo ids else ni_fine_turno ids)"

definition nucleo_is_eog :: "nucleo_ids \<Rightarrow> TokenId \<Rightarrow> bool" where
  "nucleo_is_eog ids token \<longleftrightarrow> token = ni_fine_turno ids \<or> token = ni_fine_testo ids"

text \<open>
  The class as an implementation of the interface. \<open>copy_seq\<close>, which only the scheduler calls, keeps here the
  state that its exception leaves.
\<close>

definition nucleo_backend :: "'m nucleo_lib \<Rightarrow> nucleo_ids \<Rightarrow> 'm LlamaBackend" where
  "nucleo_backend N ids =
     \<lparr>be_tokenize = (\<lambda>text add_special. Inr (nu_codifica N text)), be_detokenize = (\<lambda>tokens. Inr (nu_decodifica N tokens)),
      be_token_piece = (\<lambda>token. Inr (nu_decodifica N [token])),
      be_format_chat = nucleo_format_chat ids, be_format_chat_messages = nucleo_format_chat_messages ids,
      be_decode = nucleo_decode N, be_decode_append = nu_continua N, be_decode_batch = nucleo_decode_batch N,
      be_truncate_to = nu_tronca N, be_decode_seqs = nucleo_decode_seqs N,
      be_clear_seq = (\<lambda>m seq_id. nu_riparti N m), be_copy_seq = (\<lambda>m src dst n. snd (nucleo_copy_seq m src dst n)),
      be_reset = nu_riparti N, be_state_data = nu_stato N, be_set_state = nu_carica_stato N,
      be_n_past = nu_posizioni N, be_context_length = nu_n_ctx N, be_vocab_size = nu_n_vocab N,
      be_eos_token = nucleo_eos_token ids, be_is_eog = nucleo_is_eog ids, be_supports_rollback = True\<rparr>"

section \<open>The contract\<close>

text \<open>
  What the wrapper relies on: \<open>cells m\<close> are the tokens the engine has evaluated since it was restarted,
  \<open>continua\<close> returns the logits after the last token, \<open>continua_lotto\<close> those of every position of at most
  eight one after the other, \<open>tronca\<close> forgets the tail, and a saved state brings back its tokens.
\<close>

definition nucleo_ok :: "'m nucleo_lib \<Rightarrow> ('m \<Rightarrow> tokens) \<Rightarrow> (tokens \<Rightarrow> logits) \<Rightarrow> bool" where
  "nucleo_ok N cells eval \<longleftrightarrow>
     (\<forall>ts. length (eval ts) = nu_n_vocab N) \<and>
     (\<forall>m. cells (nu_riparti N m) = []) \<and>
     (\<forall>m ts l m'. nu_continua N m ts = (Inr l, m') \<longrightarrow> cells m' = cells m @ ts \<and> l = eval (cells m @ ts)) \<and>
     (\<forall>m ts l m'. ts \<noteq> [] \<and> length ts \<le> 8 \<and> nu_continua_lotto N m ts = (Inr l, m') \<longrightarrow>
        cells m' = cells m @ ts \<and> l = concat (map (\<lambda>i. eval (cells m @ take (Suc i) ts)) [0..<length ts])) \<and>
     (\<forall>m n u m'. nu_tronca N m n = (Inr u, m') \<longrightarrow> cells m' = take n (cells m)) \<and>
     (\<forall>m. nu_posizioni N m = length (cells m)) \<and>
     (\<forall>m m0 d u m'. nu_stato N m = Inr d \<and> nu_carica_stato N m0 d (length (cells m)) = (Inr u, m') \<longrightarrow> cells m' = cells m)"

lemma nucleo_okD:
  assumes "nucleo_ok N cells eval"
  shows "length (eval ts) = nu_n_vocab N" and "cells (nu_riparti N m) = []"
    and "nu_continua N m ts = (Inr l, m') \<Longrightarrow> cells m' = cells m @ ts \<and> l = eval (cells m @ ts)"
    and "ts \<noteq> [] \<Longrightarrow> length ts \<le> 8 \<Longrightarrow> nu_continua_lotto N m ts = (Inr l, m') \<Longrightarrow>
      cells m' = cells m @ ts \<and> l = concat (map (\<lambda>i. eval (cells m @ take (Suc i) ts)) [0..<length ts])"
    and "nu_tronca N m n = (Inr u, m') \<Longrightarrow> cells m' = take n (cells m)" and "nu_posizioni N m = length (cells m)"
    and "nu_stato N m = Inr d \<Longrightarrow> nu_carica_stato N m0 d (length (cells m)) = (Inr u, m') \<Longrightarrow> cells m' = cells m"
  using assms unfolding nucleo_ok_def by blast+

lemma take_drop_concat:
  assumes "\<forall>r \<in> set rs. length r = n" and "t < length rs"
  shows "take n (drop (t * n) (concat rs)) = rs ! t"
  using assms
proof (induction rs arbitrary: t)
  case (Cons r rs)
  then show ?case by (cases t) (simp_all add: add.commute)
qed simp

lemma rows_concat:
  assumes "\<forall>r \<in> set rs. length r = n" and "rs \<noteq> []"
  shows "rows (length rs) (concat rs) = rs"
proof -
  have "sum_list (map length rs) = length rs * n" using assms(1) by (induction rs) simp_all
  then have "length (concat rs) div length rs = n" using assms(2) by (simp add: length_concat)
  then show ?thesis
    using take_drop_concat [OF assms(1)] by (auto simp: rows_def Let_def intro!: nth_equalityI)
qed

lemma map_upt_append:
  "map f [0..<m] @ map (\<lambda>i. f (m + i)) [0..<n] = map f [0..<m + n]"
  by (rule nth_equalityI) (auto simp: nth_append)

lemma nucleo_batch_rows:
  "\<lbrakk>nucleo_ok N cells eval; nucleo_decode_batch N m ts = (Inr ls, m')\<rbrakk> \<Longrightarrow>
    cells m' = cells m @ ts \<and> ls = map (\<lambda>i. eval (cells m @ take (Suc i) ts)) [0..<length ts]"
proof (induction N m ts arbitrary: ls rule: nucleo_decode_batch.induct)
  case (1 N m ts)
  show ?case
  proof (cases "ts = []")
    case True
    with 1(3) show ?thesis by (simp add: nucleo_decode_batch.simps)
  next
    case False
    define q where "q = min 8 (length ts)"
    have q: "0 < q" "q \<le> 8" "q \<le> length ts" using False by (auto simp: q_def)
    from 1(3) False obtain l m1 tutti where l: "nu_continua_lotto N m (take q ts) = (Inr l, m1)"
      and r: "nucleo_decode_batch N m1 (drop q ts) = (Inr tutti, m')" and ls: "ls = rows q l @ tutti"
      by (subst (asm) nucleo_decode_batch.simps) (auto simp: q_def Let_def split: prod.splits sum.splits)
    let ?f = "\<lambda>i. eval (cells m @ take (Suc i) ts)"
    have "take q ts \<noteq> []" "length (take q ts) \<le> 8" using q False by auto
    from nucleo_okD(4) [OF 1(2) this l] have m1: "cells m1 = cells m @ take q ts"
      and cl: "l = concat (map (\<lambda>i. eval (cells m @ take (Suc i) (take q ts))) [0..<length (take q ts)])" by simp_all
    have "map (\<lambda>i. eval (cells m @ take (Suc i) (take q ts))) [0..<length (take q ts)] = map ?f [0..<q]"
      using q by (auto simp: min_def)
    with cl have "l = concat (map ?f [0..<q])" by simp
    moreover have "\<forall>r \<in> set (map ?f [0..<q]). length r = nu_n_vocab N" using nucleo_okD(1) [OF 1(2)] by simp
    ultimately have "rows q l = map ?f [0..<q]" using rows_concat [of "map ?f [0..<q]" "nu_n_vocab N"] q by simp
    moreover have "cells m' = cells m1 @ drop q ts \<and> tutti = map (\<lambda>i. eval (cells m1 @ take (Suc i) (drop q ts))) [0..<length (drop q ts)]"
      using 1(1) [OF False q_def l [symmetric] refl 1(2) r] .
    moreover have "take q ts @ take (Suc i) (drop q ts) = take (Suc (q + i)) ts" for i
      using take_add [of q "Suc i" ts] by simp
    ultimately show ?thesis
      using map_upt_append [of ?f q "length ts - q"] q by (simp add: ls m1)
  qed
qed


text \<open>An engine whose state is the list of its tokens and whose logits are their number.\<close>

definition demo_nucleo :: "tokens nucleo_lib" where
  "demo_nucleo = \<lparr>nu_vocab_uscita = [], nu_n_vocab = 1, nu_n_ctx = 64, nu_codifica = map (\<lambda>c. word_of_nat (of_char c)),
     nu_decodifica = map (\<lambda>t. char_of (unat t)), nu_riparti = (\<lambda>_. []),
     nu_continua = (\<lambda>m ts. (Inr [real (length (m @ ts))], m @ ts)),
     nu_continua_lotto = (\<lambda>m ts. (Inr (concat (map (\<lambda>i. [real (length (m @ take (Suc i) ts))]) [0..<length ts])), m @ ts)),
     nu_tronca = (\<lambda>m n. (Inr (), take n m)), nu_stato = (\<lambda>m. Inr (ref_state \<lparr>rc_seqs = [m], rc_logits = []\<rparr>)),
     nu_carica_stato = (\<lambda>m d n. (Inr (), hd (ref_load (tl d) []))), nu_posizioni = length\<rparr>"

lemma demo_nucleo_ok: "nucleo_ok demo_nucleo (\<lambda>m. m) (\<lambda>ts. [real (length ts)])"
  by (simp add: nucleo_ok_def demo_nucleo_def ref_load_state)


text \<open>
  A request for two sequences at once always fails, so that a scheduler with two active requests gets nothing
  but errors from this backend; and the text of a message can close its own turn and open another.
\<close>

lemma nucleo_single_sequence: "2 \<le> length slices \<Longrightarrow> \<exists>e. nucleo_decode_seqs N m slices = (Inl e, m)"
  by (auto simp: nucleo_decode_seqs_def)

lemma chatml_turn_forged:
  "nucleo_format_chat_messages ids [\<lparr>cm_role = role, cm_content = a @ ''<|im_end|>'' @ [CHR 0x0A] @ ''<|im_start|>'' @ role' @ [CHR 0x0A] @ b\<rparr>] =
   nucleo_format_chat_messages ids [\<lparr>cm_role = role, cm_content = a\<rparr>, \<lparr>cm_role = role', cm_content = b\<rparr>]"
  by (simp add: nucleo_format_chat_messages_def chatml_turn_def)

end
