(* ===== verification/Spec2Isabelle.thy ===== *)
theory Spec2Isabelle
  imports Program Shutdown Nucleo
begin

text \<open>
  \<^bold>\<open>Reame\<close>: an inference server for small machines. A request arrives over HTTP or on the command line,
  the engine turns its text into tokens, fills the KV cache of a backend (llama.cpp or nucleo), samples
  tokens one by one and hands their text to the caller. Around this core the program has
  accelerators that must not change the text: a disk cache of KV snapshots shared between prompts,
  speculative decoding with three sources of drafts, a scheduler that batches concurrent requests, the
  continuation of the conversation the KV cache still holds, and a cache of whole answers in a second
  daemon (ARCA) that speaks the Redis protocol. That they change nothing is what this development is about.
  Paths below are relative to \<open>src/\<close>.

  \<^bold>\<open>Theories, from the bottom up.\<close>

  \<^item> \<open>Prelude\<close>, \<open>Text_Utils\<close>, \<open>String_Map\<close>: bytes, tokens (\<open>std::int32_t\<close> as 32-bit words), the parts of the
    C and C++ standard libraries the code uses (character classes, \<open>find\<close>, \<open>substr\<close>, \<open>strtoull\<close>, \<open>stoi\<close>, decimal
    printing, little-endian integers), and \<open>std::map\<close> with a comparison as a sorted list (locale
    \<open>map_order\<close>, interpreted for the plain and the case-insensitive order).
  \<^item> \<open>Resp\<close> (\<open>src/arca/resp.cpp\<close>): the incremental RESP2 parser and the reply printers. Slicing of the
    stream is invisible; encoded commands come back.
  \<^item> \<open>Cache_Serializer\<close>, \<open>Disk_Store\<close>, \<open>Cache_Manager\<close>, \<open>Prefix_Cache\<close> (\<open>src/cache/\<close>): the envelope with its
    checksum, the LRU store on a directory (a map from file names to contents), snapshots of a
    backend with asynchronous prefetch, and the prefix cache. The store refines a map that forgets
    (locale \<open>kv_store\<close>, interpretation \<open>disk\<close>); only what was stored is restored; after \<open>prefill\<close> the KV cache
    holds exactly the prompt.
  \<^item> \<open>Corpus_Index\<close>, \<open>Archive\<close>, \<open>Arca_Wire\<close>, \<open>Arca_Daemon\<close> (\<open>src/palimpsest/\<close>, \<open>src/arca/\<close>): the memory of
    generations with its log file, the archive behind the daemon, the daemon's connection worker
    and the client over a sliced wire, and the daemon's threads as a step relation.
  \<^item> \<open>Backend\<close> (\<open>include/reame/core/llama_backend.hpp\<close>, \<open>src/core/llama_backend_real.cpp\<close>) and \<open>Nucleo\<close>
    (\<open>src/core/nucleo_backend.cpp\<close>): the interface as a record of operations, its contract as the locales
    \<open>kv_backend\<close> and \<open>seq_backend\<close>, and the two wrappers that implement it. llama.cpp and nucleo are records of
    functions with their documented behaviour as the hypotheses \<open>llama_ok\<close> and \<open>nucleo_ok\<close>; logits are real
    numbers, the rounding of \<open>float\<close> is not modelled.
  \<^item> \<open>Sampling\<close>, \<open>Speculative\<close> (\<open>src/core/sampler.cpp\<close>, \<open>src/speculative/\<close>): penalties, top-p with its widening
    search, the acceptance test, drafts by model, by lookup and by structure, and the decoding
    loop. A random source is a state with a function to the unit interval.
  \<^item> \<open>Scheduler\<close>, \<open>Conclave\<close> (\<open>src/core/\<close>): slots, admission with shared prefill, batched steps; elections
    among candidate answers.
  \<^item> \<open>Engine\<close> (\<open>src/core/engine.cpp\<close>): configuration, construction, the three ways of generating, the response
    cache, the Conclave, sessions, warming. \<open>Serving\<close>: the invariant \<open>engine_ok\<close> of every engine that
    \<open>engine_reach\<close> can reach, and what follows from it.
  \<^item> \<open>Config\<close>, \<open>Cli\<close> (\<open>src/utils/\<close>, \<open>src/core/autoconfig.cpp\<close>, \<open>src/core/model.cpp\<close>, \<open>src/main.cpp\<close>): configuration
    files, the logger, the model catalog, the context parameters of llama.cpp, the command line and the
    interactive chat.
  \<^item> \<open>Http\<close>, \<open>Http_Server\<close>, \<open>Escalation\<close>, \<open>Api\<close> (\<open>src/server/\<close>): messages and connections, the server's threads,
    the client of the deeper server, and the router with all its handlers.
  \<^item> \<open>Response_Cache\<close>, \<open>Api_Serving\<close>: the compositions. The locale \<open>response_cache\<close> is what the engine needs of
    a cache of answers; client, wire and daemon together are its interpretation \<open>arca\<close>. From this and
    \<open>Serving\<close> follow the statements about whole servers.
  \<^item> \<open>Program\<close>, \<open>Shutdown\<close> (\<open>src/main.cpp\<close>): the process from its arguments to its output and exit code, over
    a record \<open>host\<close> of the machine it runs on; and the signal handler with the thread that waits for it, as a step
    relation.

  \<^bold>\<open>How the code is modelled.\<close> A class is a record and its methods are functions that return the new record; what
  never changes, and what lies outside the repository, is an environment record. A function that can throw
  returns a sum, with the exception on the left and the state it leaves. A socket is the list of blocks
  its reads return, so that a statement for every list with the same concatenation covers every slicing.
  Disk writes succeed or fail as an argument says. Threads are interleavings of atomic steps
  (\<open>Scheduler.reach\<close>, \<open>Http_Server.server_step\<close>, \<open>Arca_Daemon.daemon_step\<close>, \<open>Shutdown.shutdown_step\<close>,
  \<open>Api.gate_reach\<close>, and the completion order in \<open>Engine.best_parallel\<close>). The JSON library, \<open>std::regex\<close>, zstd, \<open>std::hash\<close>, the network and
  the floating-point parsers are arguments.

  \<^bold>\<open>Loops and fuel.\<close> Most loops are recursions with a measure. The speculative loop runs on the fuel
  \<open>3 * max_out + 3\<close>, which is proved to be enough on every input; \<open>run_until_idle\<close> gets one more than the
  \<open>weight\<close> of the scheduler, proved to be enough from every reachable state. The decoding of chunked bodies has
  fuel because it need not end: one more than the number of chunks is enough for well formed bodies, and a
  hostile length is proved to exhaust every fuel.

  \<^bold>\<open>What is shown.\<close>

  \<^item> The text is the model's: for every reachable engine, in every mode and across restarts on the same cache
    directory (\<open>Serving\<close>), through the response cache (\<open>Response_Cache\<close>), from the bytes of an HTTP request to the
    bytes of its reply, or along an interactive chat (\<open>Api_Serving\<close>), and from the arguments of the process to its
    standard output (\<open>Program\<close>). The parts this rests on are properties of their own:
    speculation, scheduling, prefill, both backends, the stores and the wire.
  \<^item> At temperatures above 0: sampling follows the model's distribution without speculation exactly, and one
    round of speculation leaves the distribution unchanged.
  \<^item> Formats and protocols: round trips for RESP, HTTP requests, configuration files, chunked bodies, endpoints,
    logs and sessions, each for arbitrary content under the conditions the format needs.
  \<^item> Protection: no request without the key reaches the engine, oversized requests are refused unread, the
    generation gate holds under concurrency, a stopping server accepts nothing any more, and the process never
    ends with an error code and no message.
  \<^item> What goes wrong is stated as theorems too: warming and restored sessions that mislead the engine, a field of
    the wrong type that ends the server, an error that is sent inside an event stream, a peer that keeps
    the escalation client busy for ever, a daemon whose \<open>stop\<close> does not return, and a second interrupt that makes
    the process wait for its own lock.

  \<^bold>\<open>Not modelled.\<close> Binding and polling sockets, name resolution and time-outs; the bytes that draw a log line's time;
  what the libraries do when they load a model file; timing values; failures of the file system other than failed
  writes of the cache, the archive and the download; builds without the server; the benchmark, the browser widget and the
  tests. Data races on shared objects are outside a sequential state; where the code relies on a lock
  the step is atomic. Client and daemon are composed over a fresh connection for each call. Nested signals are not
  modelled: one is handled at a time.
\<close>

end
